(* ===== verification/Prelude.thy ===== *)
theory Prelude
  imports Main "HOL-Library.Word"
begin

text \<open>
  Shared vocabulary of the development.

  \<^item> Names for the fixed-width integers of \<^verbatim>\<open>stdint.h\<close> (\<open>u8\<close>, \<open>u16\<close>, \<open>u32\<close>, \<open>u64\<close>) and for
    C strings. A NUL-terminated C string is the HOL list of its characters without the
    terminator, so reading \<^verbatim>\<open>*p\<close> at the end of the list is reading the NUL; a pointer that the code
    compares with \<^verbatim>\<open>nullptr\<close> is an \<open>option\<close>. A character buffer (\<^verbatim>\<open>char buf[n]\<close>) is a list of
    length \<open>n\<close> that may hold NULs; \<open>cstr\<close> is the C string it holds.
  \<^item> Reference functions for decimal and hexadecimal notation, which the conversion routines are
    compared with.
  \<^item> Two interfaces used by several components: \<open>codec\<close>, an encoder with a decoder that
    undoes it, and \<open>fifo\<close>, a bounded first-in first-out buffer.
  \<^item> Generic lemmas on lists and words.
\<close>

unbundle bit_operations_syntax

subsection \<open>Types and abbreviations\<close>

type_synonym u8 = "8 word"
type_synonym u16 = "16 word"
type_synonym u32 = "32 word"
type_synonym u64 = "64 word"
type_synonym byte = "8 word"

abbreviation NUL :: char where
  "NUL \<equiv> CHR 0x00"

abbreviation code :: "char \<Rightarrow> nat" where
  "code c \<equiv> of_char c"

abbreviation is_dec :: "char \<Rightarrow> bool" where
  "is_dec c \<equiv> 48 \<le> code c \<and> code c \<le> 57"

definition cstr :: "string \<Rightarrow> string" where
  "cstr buf = takeWhile (\<lambda>c. c \<noteq> NUL) buf"

definition dchar :: "nat \<Rightarrow> char" where
  "dchar d = char_of (48 + d)"

text \<open>
  The value of a plain \<^verbatim>\<open>char\<close> promoted to \<^verbatim>\<open>int\<close>. Whether \<^verbatim>\<open>char\<close> is signed is chosen by the
  compiler (signed on AVR, unsigned on Xtensa), so it is an argument.
\<close>

definition char_val :: "bool \<Rightarrow> char \<Rightarrow> int" where
  "char_val sg c = (if sg \<and> 128 \<le> code c then int (code c) - 256 else int (code c))"

subsection \<open>Reference notation for numbers\<close>

fun dec_string :: "nat \<Rightarrow> string" where
  "dec_string n = (if n < 10 then [dchar n] else dec_string (n div 10) @ [dchar (n mod 10)])"

definition dec_value :: "string \<Rightarrow> nat" where
  "dec_value s = foldl (\<lambda>v c. 10 * v + (code c - 48)) 0 s"

declare dec_string.simps [simp del]

subsection \<open>Interfaces\<close>

text \<open>
  A \<open>codec\<close> is an encoder with a decoder that recovers every valid value. Encodings of different
  valid values differ.
\<close>

locale codec =
  fixes valid :: "'a \<Rightarrow> bool"
    and enc :: "'a \<Rightarrow> 'b"
    and dec :: "'b \<Rightarrow> 'a option"
  assumes dec_enc: "valid x \<Longrightarrow> dec (enc x) = Some x"
begin

lemma enc_inj: "valid x \<Longrightarrow> valid y \<Longrightarrow> enc x = enc y \<Longrightarrow> x = y"
  by (metis dec_enc option.inject)

lemma inj_on_enc: "inj_on enc {x. valid x}"
  by (auto simp: inj_on_def intro: enc_inj)

lemma dec_unique: "valid x \<Longrightarrow> dec (enc x) = Some y \<Longrightarrow> y = x"
  by (simp add: dec_enc)

end

text \<open>
  A \<open>fifo\<close> is a bounded queue with a \<open>put\<close> that may refuse and a \<open>get\<close> that may find nothing;
  \<open>contents\<close> is the abstract list of what it holds, oldest first.
\<close>

fun put_seq :: "('q \<Rightarrow> 'a \<Rightarrow> 'q option) \<Rightarrow> 'q \<Rightarrow> 'a list \<Rightarrow> bool \<times> 'q" where
  "put_seq p q [] = (True, q)"
| "put_seq p q (x # xs) = (case p q x of None \<Rightarrow> (False, q) | Some q' \<Rightarrow> put_seq p q' xs)"

fun get_seq :: "('q \<Rightarrow> ('a \<times> 'q) option) \<Rightarrow> nat \<Rightarrow> 'q \<Rightarrow> 'a list \<times> 'q" where
  "get_seq g 0 q = ([], q)"
| "get_seq g (Suc n) q =
     (case g q of None \<Rightarrow> ([], q)
      | Some (x, q') \<Rightarrow> (let (xs, q'') = get_seq g n q' in (x # xs, q'')))"

locale fifo =
  fixes invar :: "'q \<Rightarrow> bool"
    and contents :: "'q \<Rightarrow> 'a list"
    and capacity :: "'q \<Rightarrow> nat"
    and put :: "'q \<Rightarrow> 'a \<Rightarrow> 'q option"
    and get :: "'q \<Rightarrow> ('a \<times> 'q) option"
  assumes put_None: "invar q \<Longrightarrow> put q x = None \<longleftrightarrow> length (contents q) \<ge> capacity q"
    and put_contents: "invar q \<Longrightarrow> put q x = Some q' \<Longrightarrow> contents q' = contents q @ [x]"
    and put_invar: "invar q \<Longrightarrow> put q x = Some q' \<Longrightarrow> invar q' \<and> capacity q' = capacity q"
    and get_None: "invar q \<Longrightarrow> get q = None \<longleftrightarrow> contents q = []"
    and get_contents: "invar q \<Longrightarrow> get q = Some (x, q') \<Longrightarrow> contents q = x # contents q'"
    and get_invar: "invar q \<Longrightarrow> get q = Some (x, q') \<Longrightarrow> invar q' \<and> capacity q' = capacity q"
    and contents_bound: "invar q \<Longrightarrow> length (contents q) \<le> capacity q"
begin

lemma put_seq_spec:
  assumes "invar q"
  shows "invar (snd (put_seq put q xs)) \<and> capacity (snd (put_seq put q xs)) = capacity q \<and>
    fst (put_seq put q xs) = (length (contents q) + length xs \<le> capacity q) \<and>
    contents (snd (put_seq put q xs)) = contents q @ take (capacity q - length (contents q)) xs"
  using assms
proof (induction xs arbitrary: q)
  case Nil
  then show ?case by (simp add: contents_bound)
next
  case (Cons x xs)
  show ?case
  proof (cases "put q x")
    case None
    with Cons.prems have "capacity q \<le> length (contents q)"
      using put_None by blast
    with None Cons.prems show ?thesis by simp
  next
    case (Some q')
    with Cons.prems have room: "length (contents q) < capacity q"
      using put_None by (metis not_le option.simps(3))
    from Some Cons.prems have q': "invar q'" "capacity q' = capacity q"
      "contents q' = contents q @ [x]"
      using put_invar put_contents by blast+
    from room have "capacity q - length (contents q) = Suc (capacity q - Suc (length (contents q)))"
      by simp
    with Some Cons.IH [OF q'(1)] q' show ?thesis by (simp add: Suc_le_eq)
  qed
qed

lemma put_seq_fits:
  assumes "invar q" and "length (contents q) + length xs \<le> capacity q"
  obtains q' where "put_seq put q xs = (True, q')" and "invar q'" and "capacity q' = capacity q"
    and "contents q' = contents q @ xs"
  using put_seq_spec [OF assms(1), of xs] assms(2)
  by (cases "put_seq put q xs") auto

lemma get_cases:
  assumes "invar q"
  obtains (empty) "get q = None" and "contents q = []"
  | (elem) x q' where "get q = Some (x, q')" and "contents q = x # contents q'"
    and "invar q'" and "capacity q' = capacity q"
  using assms get_None get_contents get_invar by (cases "get q") force+

lemma get_hd:
  assumes "invar q" and "contents q = x # xs"
  obtains q' where "get q = Some (x, q')" and "contents q' = xs" and "invar q'"
    and "capacity q' = capacity q"
  using get_cases [OF assms(1)] assms(2) by auto

lemma get_seq_spec:
  assumes "invar q"
  shows "fst (get_seq get n q) = take n (contents q) \<and>
    contents (snd (get_seq get n q)) = drop n (contents q) \<and> invar (snd (get_seq get n q))"
  using assms
proof (induction n arbitrary: q)
  case 0
  then show ?case by simp
next
  case (Suc n)
  from Suc.prems show ?case
  proof (cases rule: get_cases)
    case empty
    then show ?thesis using Suc.prems by simp
  next
    case (elem x q')
    with Suc.IH [of q'] show ?thesis by (cases "get_seq get n q'") simp
  qed
qed

lemma put_seq_get_seq:
  assumes "invar q" and "contents q = []" and "length xs \<le> capacity q"
  shows "fst (get_seq get (length xs) (snd (put_seq put q xs))) = xs"
  using put_seq_spec [OF assms(1), of xs] get_seq_spec assms(2,3) by simp

end

subsection \<open>Characters and digits\<close>

lemma code_lt: "code c < 256"
  by (metis of_char_mod_256 mod_less_divisor zero_less_numeral)

lemma code_inj: "code c = code d \<longleftrightarrow> c = d"
  by simp

lemma code_char_of [simp]: "n < 256 \<Longrightarrow> code (char_of n) = n"
  by simp

lemma code_dchar [simp]: "d < 10 \<Longrightarrow> code (dchar d) = 48 + d"
  by (simp add: dchar_def)

lemma dchar_0: "dchar 0 = CHR ''0''"
  by (simp add: dchar_def char_of_eq_iff)

lemma unat_bound: "unat (x :: 'a::len word) < 2 ^ LENGTH('a)"
  by (rule unsigned_less)

lemma dchar_inj: "d < 10 \<Longrightarrow> e < 10 \<Longrightarrow> dchar d = dchar e \<Longrightarrow> d = e"
  by (metis add_left_cancel code_dchar)

lemma is_dec_dchar [simp]: "d < 10 \<Longrightarrow> is_dec (dchar d)"
  by simp

lemma dchar_not_NUL [simp]: "d < 10 \<Longrightarrow> dchar d \<noteq> NUL"
  using code_dchar [of d] by force

lemma is_dec_not_NUL: "is_dec c \<Longrightarrow> c \<noteq> NUL"
  by auto

lemma dec_value_Nil [simp]: "dec_value [] = 0"
  by (simp add: dec_value_def)

lemma dec_value_snoc [simp]: "dec_value (s @ [c]) = 10 * dec_value s + (code c - 48)"
  by (simp add: dec_value_def)

lemma foldl_dec_value:
  "foldl (\<lambda>v c. 10 * v + (code c - 48)) a s = a * 10 ^ length s + dec_value s"
proof (induction s rule: rev_induct)
  case Nil
  then show ?case by simp
next
  case (snoc c s)
  then show ?case by (simp add: algebra_simps)
qed

lemma dec_value_append: "dec_value (s @ t) = dec_value s * 10 ^ length t + dec_value t"
  by (metis dec_value_def foldl_append foldl_dec_value)

lemma dec_value_Cons: "dec_value (c # s) = (code c - 48) * 10 ^ length s + dec_value s"
  using dec_value_append [of "[c]" s] by (simp add: dec_value_def)

lemma dec_value_bound: "(\<forall>c \<in> set s. is_dec c) \<Longrightarrow> dec_value s < 10 ^ length s"
proof (induction s rule: rev_induct)
  case Nil
  then show ?case by simp
next
  case (snoc c s)
  then have "dec_value s < 10 ^ length s" and "code c - 48 < 10" by auto
  then show ?case by simp
qed

lemma dec_string_digits: "\<forall>c \<in> set (dec_string n). is_dec c"
proof (induction n rule: dec_string.induct)
  case (1 n)
  then show ?case by (subst dec_string.simps) auto
qed

lemma dec_string_nonempty [simp]: "dec_string n \<noteq> []"
  by (subst dec_string.simps) simp

lemma dec_value_dec_string [simp]: "dec_value (dec_string n) = n"
proof (induction n rule: dec_string.induct)
  case (1 n)
  show ?case
  proof (cases "n < 10")
    case True
    then show ?thesis by (simp add: dec_string.simps [of n] dec_value_def)
  next
    case False
    with 1 show ?thesis by (simp add: dec_string.simps [of n])
  qed
qed

lemma length_dec_string_le: "n < 10 ^ k \<Longrightarrow> 0 < k \<Longrightarrow> length (dec_string n) \<le> k"
proof (induction k arbitrary: n)
  case 0
  then show ?case by simp
next
  case (Suc k)
  show ?case
  proof (cases "n < 10")
    case True
    then show ?thesis by (simp add: dec_string.simps [of n])
  next
    case False
    with Suc.prems have "0 < k" by (cases k) auto
    moreover from Suc.prems have "n div 10 < 10 ^ k" by (simp add: less_mult_imp_div_less mult.commute)
    ultimately have "length (dec_string (n div 10)) \<le> k" by (rule Suc.IH [rotated])
    with False show ?thesis by (simp add: dec_string.simps [of n])
  qed
qed

lemma length_dec_string_ge: "10 ^ k \<le> n \<Longrightarrow> Suc k \<le> length (dec_string n)"
proof (induction k arbitrary: n)
  case 0
  then show ?case by (simp add: Suc_le_eq)
next
  case (Suc k)
  moreover have "(1::nat) \<le> 10 ^ k" by simp
  ultimately have big: "\<not> n < 10" by (simp only: power_Suc not_less)
  from Suc.prems have "10 ^ k \<le> n div 10" by (simp add: less_eq_div_iff_mult_less_eq mult.commute)
  with Suc.IH have "Suc k \<le> length (dec_string (n div 10))" by blast
  with big show ?case by (simp add: dec_string.simps [of n])
qed

lemma length_dec_string:
  assumes "10 ^ k \<le> n" and "n < 10 ^ Suc k"
  shows "length (dec_string n) = Suc k"
  using length_dec_string_ge [OF assms(1)] length_dec_string_le [OF assms(2)] by simp

subsection \<open>Buffers\<close>

lemma cstr_no_NUL [simp]: "NUL \<notin> set (cstr buf)"
  unfolding cstr_def by (auto dest: set_takeWhileD)

lemma cstr_append_NUL: "NUL \<notin> set s \<Longrightarrow> cstr (s @ NUL # t) = s"
  unfolding cstr_def by (subst takeWhile_append2) auto

lemma cstr_id: "NUL \<notin> set s \<Longrightarrow> cstr s = s"
  unfolding cstr_def by (auto simp: takeWhile_eq_all_conv)

lemma cstr_pad: "NUL \<notin> set s \<Longrightarrow> 0 < n \<Longrightarrow> cstr (s @ replicate n NUL @ t) = s"
  by (cases n) (simp_all add: cstr_append_NUL)

lemma length_cstr_le: "length (cstr buf) \<le> length buf"
  by (simp add: cstr_def length_takeWhile_le)

subsection \<open>Lists and words\<close>

lemma takeWhile_replicate_all: "P x \<Longrightarrow> takeWhile P (replicate n x @ ys) = replicate n x @ takeWhile P ys"
  by (induction n) auto

lemma nth_append_drop: "i < length xs \<Longrightarrow> xs = take i xs @ xs ! i # drop (Suc i) xs"
  by (rule id_take_nth_drop)

lemma unat_of_nat_small: "n < 2 ^ LENGTH('a) \<Longrightarrow> unat (of_nat n :: 'a::len word) = n"
  by (simp add: unat_of_nat take_bit_nat_eq_self)

lemma of_nat_dec_eq: "(of_nat (unat (x :: 'a::len word)) :: 'a word) = x"
  by simp

lemma uint_of_nat_mod: "uint (of_nat n :: 'w::len word) = int (n mod 2 ^ LENGTH('w))"
  by (simp add: uint_nat unat_of_nat take_bit_eq_mod)

lemma sint_small:
  assumes "unat (w :: 'w::len word) < 2 ^ (LENGTH('w) - 1)"
  shows "sint w = int (unat w)"
proof -
  have "uint w < 2 ^ (LENGTH('w) - 1)"
    using assms by (metis of_nat_less_iff of_nat_numeral of_nat_power uint_nat)
  moreover have "- (2 ^ (LENGTH('w) - 1)) \<le> uint w"
    by (rule order_trans [of _ 0]) simp_all
  ultimately show ?thesis by (simp add: sint_uint signed_take_bit_int_eq_self_iff)
qed

lemma unat_inc:
  assumes "x < (y :: 'w::len word)"
  shows "unat (x + 1) = Suc (unat x)"
proof -
  have "Suc (unat x) < 2 ^ LENGTH('w)"
    using assms unat_bound [of y] by (metis Suc_lessI not_less_eq order.strict_trans word_less_nat_alt)
  then show ?thesis by (simp add: unat_word_ariths(1))
qed

lemma bit_of_nat_less: "d < 2 ^ k \<Longrightarrow> bit (of_nat d :: 'a::len word) n \<Longrightarrow> n < k"
proof (rule ccontr)
  assume d: "d < 2 ^ k" and b: "bit (of_nat d :: 'a word) n" and n: "\<not> n < k"
  from b have "bit d n" by (simp add: bit_of_nat_iff)
  then have "odd (d div 2 ^ n)" by (simp add: bit_iff_odd)
  moreover from n have "(2::nat) ^ k \<le> 2 ^ n" by (intro power_increasing) auto
  with d have "d < 2 ^ n" by (rule less_le_trans)
  then have "d div 2 ^ n = 0" by simp
  ultimately show False by simp
qed

text \<open>Putting a small number below a shifted one is an addition.\<close>

lemma push_bit_or_add:
  assumes "d < 2 ^ k"
  shows "push_bit k (v :: 'a::len word) OR of_nat d = v * 2 ^ k + of_nat d"
proof -
  have "push_bit k v AND (of_nat d :: 'a word) = 0"
    by (rule bit_word_eqI) (auto simp: bit_and_iff bit_push_bit_iff dest: bit_of_nat_less [OF assms])
  then have "push_bit k v + of_nat d = push_bit k v OR of_nat d"
    by (rule disjunctive_add_eq_or)
  then show ?thesis by (simp add: push_bit_eq_mult)
qed

end
