(* ===== verification/DataTypeConversions.thy ===== *)
theory DataTypeConversions
  imports Prelude
begin

text \<open>
  The text and number conversions of \<^verbatim>\<open>src/src/utility/DataTypeConversions.cpp\<close>: BCD, decimal, octal
  and hexadecimal parsing, decimal and hexadecimal printing into a caller's buffer, byte strings as
  hexadecimal text, digit counts, and the civil calendar of \<^verbatim>\<open>EpochToDateTimeString\<close>.

  A parser's input is \<open>string option\<close> (\<open>None\<close> is \<^verbatim>\<open>nullptr\<close>); a printer's buffer is the character
  array before the call and its result the array after it. The counters of the loops are
  \<^verbatim>\<open>uint8_t\<close> bounded by a \<^verbatim>\<open>uint8_t\<close> limit, so they never wrap and are natural numbers here; the
  accumulators keep their width. \<^verbatim>\<open>FloatToString\<close> works on IEEE doubles and is not modelled.
\<close>

unbundle bit_operations_syntax

subsection \<open>Binary coded decimal\<close>

definition BcdToUint8 :: "u8 \<Rightarrow> u8" where
  "BcdToUint8 val = val - 6 * drop_bit 4 val"

definition Uint8ToBcd :: "u8 \<Rightarrow> u8" where
  "Uint8ToBcd val = val + 6 * (val div 10)"

subsection \<open>Parsing\<close>

text \<open>The loop that skips leading zeros, blanks and quotes, and the digit loop.\<close>

fun skip_pad :: "nat \<Rightarrow> nat \<Rightarrow> string \<Rightarrow> nat \<times> string" where
  "skip_pad len n [] = (n, [])"
| "skip_pad len n (c # cs) =
     (if (c = CHR ''0'' \<or> c = CHR '' '' \<or> c = CHR 0x22) \<and> n < len
      then skip_pad len (Suc n) cs else (n, c # cs))"

fun dec_loop :: "nat \<Rightarrow> nat \<Rightarrow> 'w::len word \<Rightarrow> string \<Rightarrow> 'w word" where
  "dec_loop len n value [] = value"
| "dec_loop len n value (c # cs) =
     (if is_dec c \<and> n < len
      then dec_loop len (Suc n) (value * 10 + of_nat (code c - 48)) cs else value)"

definition StringToUint64 :: "string option \<Rightarrow> u8 \<Rightarrow> u64" where
  "StringToUint64 pString len =
     (case pString of None \<Rightarrow> 0
      | Some s \<Rightarrow> (case skip_pad (unat len) 0 s of (n, rest) \<Rightarrow> dec_loop (unat len) n 0 rest))"

definition StringToUint32 :: "string option \<Rightarrow> u8 \<Rightarrow> u32" where
  "StringToUint32 pString len =
     (case pString of None \<Rightarrow> 0
      | Some s \<Rightarrow> (case skip_pad (unat len) 0 s of (n, rest) \<Rightarrow> dec_loop (unat len) n 0 rest))"

definition StringToUint16 :: "string option \<Rightarrow> u8 \<Rightarrow> u16" where
  "StringToUint16 pString len =
     (case pString of None \<Rightarrow> 0
      | Some s \<Rightarrow> (case skip_pad (unat len) 0 s of (n, rest) \<Rightarrow> dec_loop (unat len) n 0 rest))"

definition StringToUint8 :: "string option \<Rightarrow> u8 \<Rightarrow> u8" where
  "StringToUint8 pString len =
     (case pString of None \<Rightarrow> 0
      | Some s \<Rightarrow> (case skip_pad (unat len) 0 s of (n, rest) \<Rightarrow> dec_loop (unat len) n 0 rest))"

fun skip_blank :: "nat \<Rightarrow> nat \<Rightarrow> string \<Rightarrow> nat \<times> string" where
  "skip_blank len n [] = (n, [])"
| "skip_blank len n (c # cs) =
     (if (c = CHR '' '' \<or> c = CHR 0x22) \<and> n < len
      then skip_blank len (Suc n) cs else (n, c # cs))"

fun oct_loop :: "nat \<Rightarrow> nat \<Rightarrow> u16 \<Rightarrow> string \<Rightarrow> u16" where
  "oct_loop len n value [] = value"
| "oct_loop len n value (c # cs) =
     (if n < len \<and> 48 \<le> code c \<and> code c \<le> 55
      then oct_loop len (Suc n) (push_bit 3 value OR of_nat (code c - 48)) cs else value)"

definition StringToOctalUint16 :: "string option \<Rightarrow> u8 \<Rightarrow> u16" where
  "StringToOctalUint16 pString len =
     (case pString of None \<Rightarrow> 0
      | Some s \<Rightarrow> (case skip_blank (unat len) 0 s of (n, rest) \<Rightarrow> oct_loop (unat len) n 0 rest))"

text \<open>
  \<open>hexval c\<close> is the value of a hexadecimal digit, tested in the order of \<^verbatim>\<open>HexStringToBytes\<close>; the
  same three ranges guard the loop of \<^verbatim>\<open>StringToHex16\<close>.
\<close>

definition hexval :: "char \<Rightarrow> nat option" where
  "hexval c =
     (if 48 \<le> code c \<and> code c \<le> 57 then Some (code c - 48)
      else if 97 \<le> code c \<and> code c \<le> 102 then Some (10 + (code c - 97))
      else if 65 \<le> code c \<and> code c \<le> 70 then Some (10 + (code c - 65))
      else None)"

fun hex16_loop :: "u16 \<Rightarrow> u16 \<Rightarrow> string \<Rightarrow> u16" where
  "hex16_loop hexValue hexWeight [] = hexValue"
| "hex16_loop hexValue hexWeight (c # cs) =
     (case hexval c of
        None \<Rightarrow> hexValue
      | Some v \<Rightarrow> hex16_loop (hexValue + hexWeight * of_nat v) (hexWeight div 16) cs)"

definition StringToHex16 :: "string option \<Rightarrow> u8 \<Rightarrow> u16" where
  "StringToHex16 pString slen =
     (case pString of None \<Rightarrow> 0
      | Some s \<Rightarrow>
          hex16_loop 0 (16 ^ (unat slen - 1)) (dropWhile (\<lambda>c. c = CHR '' '' \<or> c = CHR 0x22) s))"

subsection \<open>Printing\<close>

text \<open>
  Digits are built from the end of a scratch array of \<open>tpos\<close> free slots; \<open>acc\<close> is the part already
  written. \<open>number_field\<close> is the common tail of the printers: clear the \<open>maxlen\<close> slots, copy at most
  \<open>maxlen - 1\<close> characters, pad with blanks up to \<open>padmax\<close>.
\<close>

fun digit_loop :: "nat \<Rightarrow> nat \<Rightarrow> string \<Rightarrow> string" where
  "digit_loop 0 u acc = acc"
| "digit_loop (Suc tpos) u acc =
     (if 0 < u then digit_loop tpos (u div 10) (dchar (u mod 10) # acc) else acc)"

definition digits_of :: "nat \<Rightarrow> nat \<Rightarrow> string" where
  "digits_of tpos u = (if u = 0 then [CHR ''0''] else digit_loop tpos u [])"

definition number_field :: "string \<Rightarrow> nat \<Rightarrow> nat \<Rightarrow> string \<Rightarrow> string" where
  "number_field digits maxlen padmax buf =
     (let len = min (length digits) (maxlen - 1);
          body = take len digits @ replicate (min padmax (maxlen - 1) - len) CHR '' ''
      in body @ replicate (maxlen - length body) NUL @ drop maxlen buf)"

definition Int32ToString :: "u32 \<Rightarrow> string option \<Rightarrow> u8 \<Rightarrow> u8 \<Rightarrow> string option" where
  "Int32ToString val pString maxlen padmax =
     (case pString of None \<Rightarrow> None
      | Some buf \<Rightarrow>
          if maxlen = 0 then Some buf
          else (let neg = sint val < 0;
                    u = (if sint val = - (2 ^ 31) then 2147483648 else nat \<bar>sint val\<bar>);
                    tmp = digits_of 12 u;
                    tmp = (if neg \<and> length tmp < 12 then CHR ''-'' # tmp else tmp)
                in Some (number_field tmp (unat maxlen) (unat padmax) buf)))"

definition Int64ToString :: "u64 \<Rightarrow> string option \<Rightarrow> u8 \<Rightarrow> u8 \<Rightarrow> string option" where
  "Int64ToString val pString maxlen padmax =
     (case pString of None \<Rightarrow> None
      | Some buf \<Rightarrow>
          if maxlen = 0 then Some buf
          else (let neg = sint val < 0;
                    u = (if sint val = - (2 ^ 63) then 9223372036854775808 else nat \<bar>sint val\<bar>);
                    tmp = digits_of 21 u;
                    tmp = (if neg \<and> length tmp < 21 then CHR ''-'' # tmp else tmp)
                in Some (number_field tmp (unat maxlen) (unat padmax) buf)))"

definition Uint32ToString :: "u32 \<Rightarrow> string option \<Rightarrow> u8 \<Rightarrow> u8 \<Rightarrow> string option" where
  "Uint32ToString val pString maxlen padmax =
     (case pString of None \<Rightarrow> None
      | Some buf \<Rightarrow>
          if maxlen = 0 then Some buf
          else Some (number_field (digits_of 11 (unat val)) (unat maxlen) (unat padmax) buf))"

definition hexchar :: "bool \<Rightarrow> nat \<Rightarrow> char" where
  "hexchar cap n = (if n < 10 then char_of (48 + n) else char_of ((if cap then 65 else 97) + (n - 10)))"

fun hex_loop :: "bool \<Rightarrow> nat \<Rightarrow> u32 \<Rightarrow> string \<Rightarrow> string" where
  "hex_loop cap 0 val acc = acc"
| "hex_loop cap (Suc tpos) val acc =
     (if 0 < val then hex_loop cap tpos (drop_bit 4 val) (hexchar cap (unat (val AND 0xF)) # acc)
      else acc)"

definition Uint32ToHexString :: "u32 \<Rightarrow> string option \<Rightarrow> u8 \<Rightarrow> bool \<Rightarrow> string option" where
  "Uint32ToHexString val pString maxlen cap =
     (case pString of None \<Rightarrow> None
      | Some buf \<Rightarrow>
          if maxlen = 0 then Some buf
          else Some (number_field (if val = 0 then [CHR ''0''] else hex_loop cap 9 val [])
                       (unat maxlen) 0 buf))"

subsection \<open>Bytes as hexadecimal text\<close>

definition BytesToHexString :: "byte list \<Rightarrow> string" where
  "BytesToHexString bytes =
     concat (map (\<lambda>b. [hexchar False (unat (drop_bit 4 b AND 0x0F)), hexchar False (unat (b AND 0x0F))]) bytes)
     @ [NUL]"

text \<open>
  \<^verbatim>\<open>HexStringToBytes\<close> decodes \<open>bytelen\<close> pairs; at the end of the string it reads the NUL, which is
  not a digit. \<open>None\<close> is the \<^verbatim>\<open>false\<close> result.
\<close>

fun HexStringToBytes :: "string \<Rightarrow> nat \<Rightarrow> byte list option" where
  "HexStringToBytes hex 0 = Some []"
| "HexStringToBytes (c # d # hex) (Suc n) =
     (case hexval c of None \<Rightarrow> None
      | Some hi \<Rightarrow>
          (case hexval d of None \<Rightarrow> None
           | Some lo \<Rightarrow>
               map_option ((#) (push_bit 4 (of_nat hi) OR of_nat lo)) (HexStringToBytes hex n)))"
| "HexStringToBytes _ (Suc n) = None"

subsection \<open>Digit counts\<close>

definition int32_digits :: "int \<Rightarrow> nat" where
  "int32_digits x =
     (if x \<ge> 10000
      then if x \<ge> 10000000
           then if x \<ge> 100000000 then if x \<ge> 1000000000 then 10 else 9 else 8
           else if x \<ge> 100000 then if x \<ge> 1000000 then 7 else 6 else 5
      else if x \<ge> 100 then if x \<ge> 1000 then 4 else 3
      else if x \<ge> 10 then 2 else 1)"

definition Int32DigitCount :: "u32 \<Rightarrow> u8" where
  "Int32DigitCount x =
     (if sint x = - (2 ^ 31) then 10 + 1
      else if sint x < 0 then of_nat (int32_digits (- sint x)) + 1
      else of_nat (int32_digits (sint x)))"

definition int64_digits :: "int \<Rightarrow> nat" where
  "int64_digits x =
     (if x \<ge> 10000000000
      then if x \<ge> 100000000000000
           then if x \<ge> 10000000000000000
                then if x \<ge> 100000000000000000
                     then if x \<ge> 1000000000000000000 then 19 else 18 else 17
                else if x \<ge> 1000000000000000 then 16 else 15
           else if x \<ge> 1000000000000
                then if x \<ge> 10000000000000 then 14 else 13
                else if x \<ge> 100000000000 then 12 else 11
      else if x \<ge> 100000
           then if x \<ge> 10000000
                then if x \<ge> 100000000 then if x \<ge> 1000000000 then 10 else 9 else 8
                else if x \<ge> 1000000 then 7 else 6
           else if x \<ge> 100
                then if x \<ge> 1000 then if x \<ge> 10000 then 5 else 4 else 3
                else if x \<ge> 10 then 2 else 1)"

definition Int64DigitCount :: "u64 \<Rightarrow> u8" where
  "Int64DigitCount x =
     (if sint x = - (2 ^ 63) then 19 + 1
      else if sint x < 0 then of_nat (int64_digits (- sint x)) + 1
      else of_nat (int64_digits (sint x)))"

section \<open>Properties\<close>

subsection \<open>Parsing\<close>

lemma skip_pad_pads:
  assumes "\<forall>c \<in> set pad. c = CHR ''0'' \<or> c = CHR '' '' \<or> c = CHR 0x22"
    and "n + length pad \<le> len"
  shows "skip_pad len n (pad @ s) = skip_pad len (n + length pad) s"
  using assms by (induction pad arbitrary: n) auto

lemma dec_loop_spec:
  "dec_loop len n v s =
     v * 10 ^ length (takeWhile is_dec (take (len - n) s)) +
     of_nat (dec_value (takeWhile is_dec (take (len - n) s)))"
proof (induction len n v s rule: dec_loop.induct)
  case (1 len n v)
  then show ?case by simp
next
  case (2 len n v c cs)
  show ?case
  proof (cases "is_dec c \<and> n < len")
    case True
    then have "len - n = Suc (len - Suc n)" by linarith
    moreover obtain d where "code c - 48 = d" by blast
    ultimately show ?thesis using True 2 by (simp add: dec_value_Cons algebra_simps)
  next
    case False
    then show ?thesis by (cases "n < len") (auto simp: take_Cons')
  qed
qed

text \<open>
  \<open>stops rest\<close>: the text after a number does not continue it. Skipping a leading zero does not
  change the value of a digit string.
\<close>

definition stops :: "string \<Rightarrow> bool" where
  "stops rest = (case rest of [] \<Rightarrow> True
     | c # _ \<Rightarrow> \<not> is_dec c \<and> c \<noteq> CHR '' '' \<and> c \<noteq> CHR 0x22)"

lemma takeWhile_stops: "stops rest \<Longrightarrow> takeWhile is_dec (take k rest) = []"
  by (cases k; cases rest) (auto simp: stops_def)

lemma skip_dec_value:
  assumes "\<forall>c \<in> set ds. is_dec c" and "n + length ds \<le> len" and "stops rest"
  shows "(case skip_pad len n (ds @ rest) of (m, r) \<Rightarrow> dec_loop len m 0 r) =
    (of_nat (dec_value ds) :: 'w::len word)"
  using assms
proof (induction ds arbitrary: n)
  case Nil
  then show ?case
    by (cases rest) (auto simp: stops_def)
next
  case (Cons d ds)
  show ?case
  proof (cases "d = CHR ''0''")
    case True
    with Cons.prems Cons.IH [of "Suc n"] show ?thesis by (simp add: dec_value_Cons)
  next
    case False
    with Cons.prems have d: "\<not> (d = CHR ''0'' \<or> d = CHR '' '' \<or> d = CHR 0x22)" by auto
    from Cons.prems(2) have "take (len - n) (d # ds @ rest) = (d # ds) @ take (len - n - length (d # ds)) rest"
      by (simp add: take_Cons')
    moreover have "takeWhile is_dec ((d # ds) @ take k rest) = d # ds" for k
      using Cons.prems(1) by (subst takeWhile_append2) (auto simp: takeWhile_stops [OF Cons.prems(3)])
    ultimately have tw: "takeWhile is_dec (take (len - n) (d # ds @ rest)) = d # ds" by metis
    from d have "skip_pad len n ((d # ds) @ rest) = (n, d # ds @ rest)" by simp
    with tw show ?thesis by (simp add: dec_loop_spec del: dec_loop.simps)
  qed
qed

lemma parse_number:
  assumes "\<forall>c \<in> set pad. c = CHR ''0'' \<or> c = CHR '' '' \<or> c = CHR 0x22"
    and "\<forall>c \<in> set ds. is_dec c" and "length pad + length ds \<le> unat len" and "stops rest"
  shows "(case skip_pad (unat (len :: u8)) 0 (pad @ ds @ rest) of (m, r) \<Rightarrow> dec_loop (unat len) m 0 r) =
    (of_nat (dec_value ds) :: 'w::len word)"
  using skip_dec_value [of ds "length pad" "unat len" rest] assms
  by (simp add: skip_pad_pads)

lemmas StringToUint_defs = StringToUint64_def StringToUint32_def StringToUint16_def StringToUint8_def

text \<open>
  Decimal parsing. On optional blanks, quotes and zeros, then a run of digits, then text that
  does not continue the number, all four parsers return the value of the digits reduced modulo
  their width, as long as the text fits the length limit; \<^verbatim>\<open>nullptr\<close> gives 0.
\<close>

theorem StringToUint_value:
  assumes "\<forall>c \<in> set pad. c = CHR ''0'' \<or> c = CHR '' '' \<or> c = CHR 0x22"
    and "\<forall>c \<in> set ds. is_dec c" and "length pad + length ds \<le> unat len" and "stops rest"
  shows "StringToUint64 (Some (pad @ ds @ rest)) len = of_nat (dec_value ds) \<and>
    StringToUint32 (Some (pad @ ds @ rest)) len = of_nat (dec_value ds) \<and>
    StringToUint16 (Some (pad @ ds @ rest)) len = of_nat (dec_value ds) \<and>
    StringToUint8 (Some (pad @ ds @ rest)) len = of_nat (dec_value ds)"
  by (simp add: StringToUint_defs parse_number [OF assms])

theorem StringToUint_value_witness:
  "StringToUint64 (Some (''00'' @ ''70000'' @ ''px'')) 10 = 70000 \<and>
   StringToUint16 (Some (''00'' @ ''70000'' @ ''px'')) 10 = 4464"
  using StringToUint_value [of "''00''" "''70000''" 10 "''px''"]
  by (simp add: stops_def dec_value_def)

subsection \<open>Printing\<close>

lemma digit_loop_spec:
  assumes "u < 10 ^ tpos"
  shows "digit_loop tpos u acc = (if u = 0 then acc else dec_string u @ acc)"
  using assms
proof (induction tpos arbitrary: u acc)
  case 0
  then show ?case by simp
next
  case (Suc tpos)
  then have "u div 10 < 10 ^ tpos" by (simp add: less_mult_imp_div_less mult.commute)
  then have IH: "digit_loop tpos (u div 10) (dchar (u mod 10) # acc) =
    (if u div 10 = 0 then dchar (u mod 10) # acc else dec_string (u div 10) @ dchar (u mod 10) # acc)"
    by (rule Suc.IH)
  have "dec_string u = (if u < 10 then [dchar u] else dec_string (u div 10) @ [dchar (u mod 10)])"
    by (rule dec_string.simps)
  with IH show ?case by (cases "u < 10") simp_all
qed

lemma digits_of_spec: "u < 10 ^ tpos \<Longrightarrow> digits_of tpos u = dec_string u"
  by (simp add: digits_of_def digit_loop_spec dec_string.simps [of 0] dchar_0)

lemma number_field_shape:
  assumes "0 < maxlen"
  shows "number_field ds maxlen padmax buf =
      (take (maxlen - 1) ds @ replicate (min padmax (maxlen - 1) - length ds) CHR '' '') @
      replicate (maxlen - max (min (length ds) (maxlen - 1)) (min padmax (maxlen - 1))) NUL @ drop maxlen buf"
    (is "_ = ?body @ ?zeros @ _")
    and "length (take (maxlen - 1) ds @ replicate (min padmax (maxlen - 1) - length ds) CHR '' '') =
      max (min (length ds) (maxlen - 1)) (min padmax (maxlen - 1))"
proof -
  define len where "len = min (length ds) (maxlen - 1)"
  define body where "body = take len ds @ replicate (min padmax (maxlen - 1) - len) CHR '' ''"
  have body: "body = ?body"
    by (cases "length ds \<le> maxlen - 1") (simp_all add: body_def len_def)
  have "len \<le> length ds" by (simp add: len_def)
  then have len: "length body = max len (min padmax (maxlen - 1))"
    by (auto simp: body_def min_absorb2 max_def)
  have "number_field ds maxlen padmax buf = body @ replicate (maxlen - length body) NUL @ drop maxlen buf"
    by (simp only: number_field_def Let_def body_def len_def)
  then show "number_field ds maxlen padmax buf = ?body @ ?zeros @ drop maxlen buf"
    by (simp only: len body [symmetric] len_def)
  show "length ?body = max (min (length ds) (maxlen - 1)) (min padmax (maxlen - 1))"
    using len by (simp only: body len_def)
qed

lemma number_field_obtain:
  assumes "0 < maxlen"
  obtains body k where "number_field ds maxlen padmax buf = body @ replicate (Suc k) NUL @ drop maxlen buf"
    and "body = take (maxlen - 1) ds @ replicate (min padmax (maxlen - 1) - length ds) CHR '' ''"
    and "length body + Suc k = maxlen"
proof -
  define b where "b = max (min (length ds) (maxlen - 1)) (min padmax (maxlen - 1))"
  have "b < maxlen" using assms unfolding b_def by linarith
  then obtain k where k: "maxlen - b = Suc k" and "b + Suc k = maxlen"
    by (metis Suc_diff_Suc add_diff_inverse_nat less_imp_add_positive less_not_sym)
  with number_field_shape(1) [OF assms, of ds padmax buf]
    number_field_shape(2) [OF assms, of ds padmax] that show thesis
    by (simp only: b_def [symmetric])
qed

lemma length_number_field:
  assumes "0 < maxlen" and "maxlen \<le> length buf"
  shows "length (number_field ds maxlen padmax buf) = length buf"
  using number_field_obtain [OF assms(1), of ds padmax buf] assms(2)
  by (metis add_diff_inverse_nat length_append length_drop length_replicate add.assoc not_less)

lemma drop_number_field:
  assumes "0 < maxlen"
  shows "drop maxlen (number_field ds maxlen padmax buf) = drop maxlen buf"
  using number_field_obtain [OF assms, of ds padmax buf]
  by (metis append.assoc append_eq_conv_conj length_append length_replicate)

lemma cstr_number_field:
  assumes "0 < maxlen" and "NUL \<notin> set ds"
  shows "cstr (number_field ds maxlen padmax buf) =
    take (maxlen - 1) ds @ replicate (min padmax (maxlen - 1) - length ds) CHR '' ''"
proof -
  obtain body k where f: "number_field ds maxlen padmax buf = body @ replicate (Suc k) NUL @ drop maxlen buf"
    and body: "body = take (maxlen - 1) ds @ replicate (min padmax (maxlen - 1) - length ds) CHR '' ''"
    by (rule number_field_obtain [OF assms(1)])
  have "NUL \<notin> set body" using assms(2) by (auto simp: body dest: in_set_takeD)
  then have "cstr (body @ replicate (Suc k) NUL @ drop maxlen buf) = body" by (rule cstr_pad) simp
  then show ?thesis by (simp only: f body [symmetric])
qed

lemma dec_string_no_NUL: "NUL \<notin> set (dec_string n)"
  using dec_string_digits is_dec_not_NUL by fastforce

text \<open>The decimal text of an integer, with a leading minus sign for negative numbers.\<close>

definition int_string :: "int \<Rightarrow> string" where
  "int_string i = (if i < 0 then CHR ''-'' # dec_string (nat (- i)) else dec_string (nat i))"

lemma int_string_no_NUL: "NUL \<notin> set (int_string i)"
  by (simp add: int_string_def dec_string_no_NUL)

lemma sint32_bounds: "- (2 ^ 31) \<le> sint (v :: u32) \<and> sint v < 2 ^ 31"
  using sint_ge [of v] sint_lt [of v] by simp

lemma sint64_bounds: "- (2 ^ 63) \<le> sint (v :: u64) \<and> sint v < 2 ^ 63"
  using sint_ge [of v] sint_lt [of v] by simp

lemma Int32ToString_eq:
  assumes "maxlen \<noteq> 0"
  shows "Int32ToString v (Some buf) maxlen padmax =
    Some (number_field (int_string (sint v)) (unat maxlen) (unat padmax) buf)"
proof -
  define u where "u = nat \<bar>sint v\<bar>"
  have u: "(if sint v = - (2 ^ 31) then 2147483648 else nat \<bar>sint v\<bar>) = u" by (simp add: u_def)
  have lt: "u < 10 ^ 10" using sint32_bounds [of v] by (simp add: u_def nat_less_iff abs_less_iff)
  have ds: "digits_of 12 u = dec_string u"
    by (rule digits_of_spec) (use lt in simp)
  have len: "length (dec_string u) < 12"
    using length_dec_string_le [OF lt] by simp
  have str: "(if sint v < 0 \<and> length (dec_string u) < 12 then CHR ''-'' # dec_string u else dec_string u) =
    int_string (sint v)"
    using len by (simp add: int_string_def u_def)
  show ?thesis
    using assms unfolding Int32ToString_def u Let_def ds str by simp
qed

lemma Int64ToString_eq:
  assumes "maxlen \<noteq> 0"
  shows "Int64ToString v (Some buf) maxlen padmax =
    Some (number_field (int_string (sint v)) (unat maxlen) (unat padmax) buf)"
proof -
  define u where "u = nat \<bar>sint v\<bar>"
  have u: "(if sint v = - (2 ^ 63) then 9223372036854775808 else nat \<bar>sint v\<bar>) = u" by (simp add: u_def)
  have lt: "u < 10 ^ 19" using sint64_bounds [of v] by (simp add: u_def nat_less_iff abs_less_iff)
  have ds: "digits_of 21 u = dec_string u"
    by (rule digits_of_spec) (use lt in simp)
  have len: "length (dec_string u) < 21"
    using length_dec_string_le [OF lt] by simp
  have str: "(if sint v < 0 \<and> length (dec_string u) < 21 then CHR ''-'' # dec_string u else dec_string u) =
    int_string (sint v)"
    using len by (simp add: int_string_def u_def)
  show ?thesis
    using assms unfolding Int64ToString_def u Let_def ds str by simp
qed

lemma unat32_lt: "unat (v :: u32) < 10 ^ 10"
  using unat_bound [of v] by simp

lemma Uint32ToString_eq:
  assumes "maxlen \<noteq> 0"
  shows "Uint32ToString v (Some buf) maxlen padmax =
    Some (number_field (dec_string (unat v)) (unat maxlen) (unat padmax) buf)"
  using assms unat32_lt [of v] by (simp add: Uint32ToString_def digits_of_spec)

text \<open>
  Decimal printing. Into a buffer that has the \<open>maxlen\<close> slots it is told about, the three
  printers write the decimal text of the number (with its sign), cut to \<open>maxlen - 1\<close> characters and
  padded with blanks to \<open>padmax\<close>; the buffer keeps its length, nothing beyond slot \<open>maxlen\<close> changes,
  and the result is a terminated string.
\<close>

theorem print_number:
  assumes "maxlen \<noteq> 0" and "unat maxlen \<le> length buf"
  shows "\<exists>out32 out64 outu.
    Int32ToString i (Some buf) maxlen padmax = Some out32 \<and>
    Int64ToString l (Some buf) maxlen padmax = Some out64 \<and>
    Uint32ToString u (Some buf) maxlen padmax = Some outu \<and>
    (\<forall>(out, s) \<in> {(out32, int_string (sint i)), (out64, int_string (sint l)), (outu, dec_string (unat u))}.
       length out = length buf \<and> drop (unat maxlen) out = drop (unat maxlen) buf \<and>
       cstr out = take (unat maxlen - 1) s @
         replicate (min (unat padmax) (unat maxlen - 1) - length s) CHR '' '')"
proof -
  have m: "0 < unat maxlen" using assms(1) by (simp add: unat_gt_0)
  note fields = length_number_field [OF m assms(2)] drop_number_field [OF m]
    cstr_number_field [OF m int_string_no_NUL] cstr_number_field [OF m dec_string_no_NUL]
  show ?thesis
    by (simp add: Int32ToString_eq [OF assms(1)] Int64ToString_eq [OF assms(1)]
        Uint32ToString_eq [OF assms(1)] fields)
qed

theorem print_number_witness:
  "\<exists>out. Int32ToString (- 45) (Some ''?????????'') 8 4 = Some out \<and>
     cstr out = ''-45 '' \<and> drop 8 out = ''?''"
proof -
  have "int_string (sint (- 45 :: u32)) = ''-45''" by code_simp
  then show ?thesis
    using print_number [of 8 "''?????????''" "- 45" 4 0 0] by auto
qed

text \<open>
  Printing an unsigned 32-bit number into a buffer of at least eleven characters and parsing the
  text back gives the number again.
\<close>

theorem Uint32_round_trip:
  assumes "11 \<le> maxlen" and "11 \<le> plen"
  shows "\<exists>out. Uint32ToString v (Some buf) maxlen 0 = Some out \<and>
    StringToUint32 (Some (cstr out)) plen = v"
proof -
  have m: "maxlen \<noteq> 0" "0 < unat maxlen" "10 \<le> unat maxlen - 1" "10 \<le> unat plen"
    using assms by (auto simp: word_le_nat_alt unat_gt_0)
  have len: "length (dec_string (unat v)) \<le> 10"
    using length_dec_string_le [OF unat32_lt [of v]] by simp
  have "cstr (number_field (dec_string (unat v)) (unat maxlen) 0 buf) = dec_string (unat v)"
    using cstr_number_field [OF m(2) dec_string_no_NUL, of "unat v" 0 buf] len m(3) by simp
  moreover have "StringToUint32 (Some (dec_string (unat v))) plen = v"
    using StringToUint_value [of "[]" "dec_string (unat v)" plen "[]"] dec_string_digits len m(4)
    by (simp add: stops_def)
  ultimately show ?thesis by (simp add: Uint32ToString_eq [OF m(1)])
qed

theorem Uint32_round_trip_witness:
  "\<exists>out. Uint32ToString 4294967295 (Some (replicate 12 NUL)) 12 0 = Some out \<and>
    StringToUint32 (Some (cstr out)) 11 = 4294967295"
  by (rule Uint32_round_trip) simp_all

subsection \<open>Hexadecimal text\<close>

lemma code_hexchar [simp]: "n < 16 \<Longrightarrow> code (hexchar cap n) =
    (if n < 10 then 48 + n else (if cap then 65 else 97) + (n - 10))"
  by (simp add: hexchar_def)

lemma hexval_hexchar [simp]: "n < 16 \<Longrightarrow> hexval (hexchar cap n) = Some n"
  by (auto simp: hexval_def)

lemma unat_and_15: "unat (b AND 0x0F :: byte) < 16"
  using word_and_le1 [of b "0x0F"] by (simp add: word_le_nat_alt)

lemma nibbles: "push_bit 4 (drop_bit 4 b AND 0x0F) OR (b AND 0x0F) = (b :: byte)"
proof -
  have m: "(0x0F :: byte) = mask 4" by (simp add: mask_eq_exp_minus_1)
  show ?thesis unfolding m
    by (rule bit_word_eqI) (auto simp: bit_simps)
qed

lemma HexStringToBytes_BytesToHexString:
  "HexStringToBytes (BytesToHexString bs) (length bs) = Some bs"
proof (induction bs)
  case Nil
  then show ?case by (simp add: BytesToHexString_def)
next
  case (Cons b bs)
  then show ?case
    by (simp add: BytesToHexString_def unat_and_15 nibbles [simplified])
qed

text \<open>Decoding does not depend on the case of the letters.\<close>

definition hex_upper :: "char \<Rightarrow> char" where
  "hex_upper c = (if 97 \<le> code c \<and> code c \<le> 122 then char_of (code c - 32) else c)"

lemma code_hex_upper: "code (hex_upper c) = (if 97 \<le> code c \<and> code c \<le> 122 then code c - 32 else code c)"
  by (auto simp: hex_upper_def)

lemma hexval_hex_upper [simp]: "hexval (hex_upper c) = hexval c"
  by (auto simp: hexval_def code_hex_upper)

lemma HexStringToBytes_upper: "HexStringToBytes (map hex_upper hex) n = HexStringToBytes hex n"
  by (induction hex n rule: HexStringToBytes.induct) (auto split: option.split)

lemma HexStringToBytes_length: "HexStringToBytes hex n = Some bs \<Longrightarrow> length bs = n"
  by (induction hex n arbitrary: bs rule: HexStringToBytes.induct) (auto split: option.splits)

lemma HexStringToBytes_digits:
  "HexStringToBytes hex n \<noteq> None \<longleftrightarrow>
     2 * n \<le> length hex \<and> (\<forall>c \<in> set (take (2 * n) hex). hexval c \<noteq> None)"
  by (induction hex n rule: HexStringToBytes.induct) (auto split: option.splits)

interpretation hex: codec "\<lambda>_. True" BytesToHexString "\<lambda>h. HexStringToBytes h (length h div 2)"
proof
  fix bs :: "byte list"
  have "length (BytesToHexString bs) = 2 * length bs + 1"
    by (induction bs) (simp_all add: BytesToHexString_def)
  then show "HexStringToBytes (BytesToHexString bs) (length (BytesToHexString bs) div 2) = Some bs"
    using HexStringToBytes_BytesToHexString [of bs] by simp
qed

text \<open>
  Hexadecimal text of bytes. Decoding the encoding of a byte string, in either case of the
  letters, gives the bytes back; decoding succeeds exactly when there are two hexadecimal digits for
  each byte asked for, and then yields that many bytes; different byte strings have different
  encodings.
\<close>

theorem hex_bytes:
  "HexStringToBytes (BytesToHexString bs) (length bs) = Some bs \<and>
   HexStringToBytes (map hex_upper (BytesToHexString bs)) (length bs) = Some bs \<and>
   (HexStringToBytes h n \<noteq> None \<longleftrightarrow> 2 * n \<le> length h \<and> (\<forall>c \<in> set (take (2 * n) h). hexval c \<noteq> None)) \<and>
   (BytesToHexString bs = BytesToHexString cs \<longleftrightarrow> bs = cs)"
  using HexStringToBytes_BytesToHexString HexStringToBytes_upper HexStringToBytes_digits hex.enc_inj
  by metis

theorem hex_bytes_witness:
  "HexStringToBytes (map hex_upper (BytesToHexString [0xA5, 0x07])) 2 = Some [0xA5, 0x07] \<and>
   (HexStringToBytes ''a5z7'' 2 \<noteq> None \<longleftrightarrow>
      2 * 2 \<le> length ''a5z7'' \<and> (\<forall>c \<in> set (take (2 * 2) ''a5z7''). hexval c \<noteq> None))"
  using hex_bytes [of "[0xA5, 0x07]" "''a5z7''" 2 "[]"] by (simp add: numeral_2_eq_2)

subsection \<open>Binary coded decimal, octal, 16-bit hexadecimal\<close>

lemma bcd_table: "list_all (\<lambda>n. BcdToUint8 (Uint8ToBcd (of_nat n)) = of_nat n) [0..<100]"
  by code_simp

lemma BcdToUint8_Uint8ToBcd: "v < 100 \<Longrightarrow> BcdToUint8 (Uint8ToBcd v) = v"
  using bcd_table by (auto simp: list_all_iff word_less_nat_alt dest!: bspec [of _ _ "unat v"])

interpretation bcd: codec "\<lambda>v. v < 100" Uint8ToBcd "\<lambda>b. Some (BcdToUint8 b)"
  by unfold_locales (simp add: BcdToUint8_Uint8ToBcd)

subsection \<open>Digit counts\<close>

lemma digits_length:
  assumes "0 \<le> x" and "x < 10 ^ Suc k" and "k = 0 \<or> 10 ^ k \<le> x"
  shows "length (dec_string (nat x)) = Suc k"
proof (cases "k = 0")
  case True
  with assms(2) have "nat x < 10" by simp
  with True show ?thesis by (simp add: dec_string.simps [of "nat x"])
next
  case False
  with assms show ?thesis
    by (intro length_dec_string) (simp_all add: le_nat_iff nat_less_iff)
qed

lemmas digits_lengths = digits_length [of _ 0] digits_length [of _ 1] digits_length [of _ 2]
  digits_length [of _ 3] digits_length [of _ 4] digits_length [of _ 5] digits_length [of _ 6]
  digits_length [of _ 7] digits_length [of _ 8] digits_length [of _ 9] digits_length [of _ 10]
  digits_length [of _ 11] digits_length [of _ 12] digits_length [of _ 13] digits_length [of _ 14]
  digits_length [of _ 15] digits_length [of _ 16] digits_length [of _ 17] digits_length [of _ 18]

lemma int32_digits_spec: "0 \<le> x \<Longrightarrow> x < 2 ^ 31 \<Longrightarrow> int32_digits x = length (dec_string (nat x))"
  by (simp add: int32_digits_def digits_lengths)

lemma int64_digits_spec: "0 \<le> x \<Longrightarrow> x < 2 ^ 63 \<Longrightarrow> int64_digits x = length (dec_string (nat x))"
  by (simp add: int64_digits_def digits_lengths)

text \<open>
  The digit counters return the number of characters that printing the same number takes, sign
  included, for every 32-bit and every 64-bit integer.
\<close>

theorem DigitCount_length:
  "unat (Int32DigitCount i) = length (int_string (sint i)) \<and>
   unat (Int64DigitCount l) = length (int_string (sint l))"
proof
  have small: "length (dec_string (nat \<bar>sint i\<bar>)) \<le> 10"
    using sint32_bounds [of i] by (intro length_dec_string_le) (simp_all add: nat_less_iff abs_less_iff)
  show "unat (Int32DigitCount i) = length (int_string (sint i))"
  proof (cases "sint i = - (2 ^ 31)")
    case True
    moreover have "length (dec_string (nat 2147483648)) = Suc 9" by (rule digits_length) simp_all
    ultimately show ?thesis by (simp add: Int32DigitCount_def int_string_def)
  next
    case False
    with sint32_bounds [of i] small show ?thesis
      by (simp add: Int32DigitCount_def int_string_def int32_digits_spec unat_word_ariths unat_of_nat_small
          abs_if split: if_splits)
  qed
next
  have small: "length (dec_string (nat \<bar>sint l\<bar>)) \<le> 19"
    using sint64_bounds [of l] by (intro length_dec_string_le) (simp_all add: nat_less_iff abs_less_iff)
  show "unat (Int64DigitCount l) = length (int_string (sint l))"
  proof (cases "sint l = - (2 ^ 63)")
    case True
    moreover have "length (dec_string (nat 9223372036854775808)) = Suc 18" by (rule digits_length) simp_all
    ultimately show ?thesis by (simp add: Int64DigitCount_def int_string_def)
  next
    case False
    with sint64_bounds [of l] small show ?thesis
      by (simp add: Int64DigitCount_def int_string_def int64_digits_spec unat_word_ariths unat_of_nat_small
          abs_if split: if_splits)
  qed
qed

subsection \<open>Octal and 16-bit hexadecimal values\<close>

definition oct_value :: "string \<Rightarrow> nat" where
  "oct_value s = foldl (\<lambda>v c. 8 * v + (code c - 48)) 0 s"

definition is_oct :: "char \<Rightarrow> bool" where
  "is_oct c \<longleftrightarrow> 48 \<le> code c \<and> code c \<le> 55"

lemma oct_loop_spec:
  "oct_loop len n v s =
     v * 8 ^ length (takeWhile is_oct (take (len - n) s)) +
     of_nat (foldl (\<lambda>v c. 8 * v + (code c - 48)) 0 (takeWhile is_oct (take (len - n) s)))"
proof (induction len n v s rule: oct_loop.induct)
  case (1 len n v)
  then show ?case by simp
next
  case (2 len n v c cs)
  show ?case
  proof (cases "n < len \<and> 48 \<le> code c \<and> code c \<le> 55")
    case True
    then have k: "len - n = Suc (len - Suc n)" by linarith
    obtain d where d: "code c - 48 = d" by blast
    with True have "d < 2 ^ 3" by auto
    then have "push_bit 3 v OR of_nat d = v * 8 + of_nat d" using push_bit_or_add [of d 3 v] by simp
    moreover have "foldl (\<lambda>v c. 8 * v + (code c - 48)) a s = a * 8 ^ length s + foldl (\<lambda>v c. 8 * v + (code c - 48)) 0 s"
      for a :: nat and s
      by (induction s rule: rev_induct) (simp_all add: algebra_simps)
    note fold = this [of d]
    ultimately show ?thesis using True 2 k d by (simp add: is_oct_def fold algebra_simps)
  next
    case False
    then show ?thesis by (cases "n < len") (auto simp: take_Cons' is_oct_def)
  qed
qed

end
