(* ===== verification/EpochCalendar.thy ===== *)
theory EpochCalendar
  imports Prelude
begin

text \<open>
  \<^verbatim>\<open>EpochToDateTimeString\<close> of \<^verbatim>\<open>src/src/utility/DataTypeConversions.cpp\<close>: the civil-from-days computation
  on a 32-bit Unix time and the strftime-style format loop. The reference calendar (leap years,
  lengths of months, days since 1970-01-01) is defined by counting, independently of the code.

  A day number is at most 49710 here, so the code's 32-bit quantities never wrap and are
  integers in the model; the write position and the width stay \<^verbatim>\<open>uint8_t\<close>.
\<close>

record civil =
  yr :: int
  mon :: int
  day :: int
  hh :: int
  mi :: int
  ss :: int

definition civil_from_days :: "int \<Rightarrow> int \<times> int \<times> int" where
  "civil_from_days days =
     (let z = days + 719468;
          era = (if z \<ge> 0 then z else z - 146096) div 146097;
          doe = z - era * 146097;
          yoe = (doe - doe div 1460 + doe div 36524 - doe div 146096) div 365;
          y = yoe + era * 400;
          doy = doe - (365 * yoe + yoe div 4 - yoe div 100);
          mp = (5 * doy + 2) div 153;
          d = doy - (153 * mp + 2) div 5 + 1;
          m = (if mp < 10 then mp + 3 else mp - 9)
      in (if m \<le> 2 then y + 1 else y, m, d))"

definition epoch_civil :: "u32 \<Rightarrow> civil" where
  "epoch_civil epoch =
     (let sec_of_day = uint epoch mod 86400;
          (y, m, d) = civil_from_days (uint epoch div 86400)
      in \<lparr>yr = (if y < 0 then 0 else y), mon = m, day = d,
          hh = sec_of_day div 3600, mi = (sec_of_day mod 3600) div 60, ss = sec_of_day mod 60\<rparr>)"

fun EpochFmtWidth :: "string \<Rightarrow> u8" where
  "EpochFmtWidth [] = 0"
| "EpochFmtWidth [c] = 1"
| "EpochFmtWidth (c # x # fmt) =
     (if c = CHR ''%''
      then (if x = CHR ''Y'' then 4
            else if x = CHR ''b'' then 3
            else if x \<in> {CHR ''y'', CHR ''m'', CHR ''d'', CHR ''H'', CHR ''M'', CHR ''S''} then 2
            else if x = CHR ''%'' then 1 else 2) + EpochFmtWidth fmt
      else 1 + EpochFmtWidth (x # fmt))"

definition digit :: "int \<Rightarrow> char" where
  "digit d = char_of (48 + nat d)"

definition month_abbr :: "int \<Rightarrow> string" where
  "month_abbr m =
     [''   '', ''Jan'', ''Feb'', ''Mar'', ''Apr'', ''May'', ''Jun'',
      ''Jul'', ''Aug'', ''Sep'', ''Oct'', ''Nov'', ''Dec''] ! (if 1 \<le> m \<and> m \<le> 12 then nat m else 0)"

text \<open>\<open>put\<close> is \<^verbatim>\<open>pString[pos++] = c\<close> with the 8-bit position.\<close>

definition put :: "char \<Rightarrow> u8 \<times> string \<Rightarrow> u8 \<times> string" where
  "put c pb = (case pb of (pos, buf) \<Rightarrow> (pos + 1, buf[unat pos := c]))"

definition puts :: "string \<Rightarrow> u8 \<times> string \<Rightarrow> u8 \<times> string" where
  "puts s pb = fold put s pb"

definition two :: "int \<Rightarrow> string" where
  "two v = [digit (v div 10), digit (v mod 10)]"

definition fmt_field :: "civil \<Rightarrow> u8 \<Rightarrow> char \<Rightarrow> u8 \<times> string \<Rightarrow> u8 \<times> string" where
  "fmt_field t maxlen c pb =
     (if c = CHR ''Y'' then
        puts [digit (yr t div 1000 mod 10), digit (yr t div 100 mod 10), digit (yr t div 10 mod 10), digit (yr t mod 10)] pb
      else if c = CHR ''y'' then puts [digit (yr t div 10 mod 10), digit (yr t mod 10)] pb
      else if c = CHR ''m'' then puts (two (mon t)) pb
      else if c = CHR ''b'' then puts (month_abbr (mon t)) pb
      else if c = CHR ''d'' then puts (two (day t)) pb
      else if c = CHR ''H'' then puts (two (hh t)) pb
      else if c = CHR ''M'' then puts (two (mi t)) pb
      else if c = CHR ''S'' then puts (two (ss t)) pb
      else if c = CHR ''%'' then puts ''%'' pb
      else (let pb = puts ''%'' pb in if fst pb + 1 < maxlen then put c pb else pb))"

function fmt_loop :: "civil \<Rightarrow> u8 \<Rightarrow> string \<Rightarrow> u8 \<times> string \<Rightarrow> u8 \<times> string" where
  "fmt_loop t maxlen fmt pb =
     (case fmt of
        [] \<Rightarrow> pb
      | c # rest \<Rightarrow>
          if \<not> fst pb + 1 < maxlen then pb
          else if c = CHR ''%'' \<and> rest \<noteq> []
          then fmt_loop t maxlen (tl rest) (fmt_field t maxlen (hd rest) pb)
          else fmt_loop t maxlen rest (put c pb))"
  by pat_completeness auto
termination
  by (relation "measure (\<lambda>(t, maxlen, fmt, pb). length fmt)") (auto simp: neq_Nil_conv)

declare fmt_loop.simps [simp del]

definition EpochToDateTimeString :: "u32 \<Rightarrow> string option \<Rightarrow> u8 \<Rightarrow> string option \<Rightarrow> string option" where
  "EpochToDateTimeString epoch pString maxlen fmt =
     (case pString of None \<Rightarrow> None
      | Some buf \<Rightarrow>
          if maxlen = 0 then Some buf
          else
            (let f = (case fmt of None \<Rightarrow> ''%Y-%m-%d %H:%M:%S'' | Some f \<Rightarrow> f);
                 buf0 = replicate (unat maxlen) NUL @ drop (unat maxlen) buf;
                 width = EpochFmtWidth f
             in if epoch = 0
                then (let n = min (unat maxlen - 1) (unat width)
                      in Some (if n > 0 then (CHR ''-'' # replicate (n - 1) CHR '' '') @ drop n buf0 else buf0))
                else if maxlen \<le> width then Some (buf0[0 := NUL])
                else (case fmt_loop (epoch_civil epoch) maxlen f (0, buf0) of
                        (pos, b) \<Rightarrow> Some (b[unat pos := NUL]))))"

subsection \<open>The reference calendar\<close>

definition leap :: "int \<Rightarrow> bool" where
  "leap y \<longleftrightarrow> 4 dvd y \<and> (\<not> 100 dvd y \<or> 400 dvd y)"

definition year_len :: "int \<Rightarrow> int" where
  "year_len y = (if leap y then 366 else 365)"

definition month_len :: "int \<Rightarrow> int \<Rightarrow> int" where
  "month_len y m = (if m = 2 then if leap y then 29 else 28
                    else if m \<in> {4, 6, 9, 11} then 30 else 31)"

definition valid_date :: "int \<Rightarrow> int \<Rightarrow> int \<Rightarrow> bool" where
  "valid_date y m d \<longleftrightarrow> 1 \<le> m \<and> m \<le> 12 \<and> 1 \<le> d \<and> d \<le> month_len y m"

text \<open>The number of days from 1970-01-01 to a date of 1970 or later.\<close>

definition days_since_1970 :: "int \<Rightarrow> int \<Rightarrow> int \<Rightarrow> int" where
  "days_since_1970 y m d =
     (\<Sum>i = 1970..<y. year_len i) + (\<Sum>j = 1..<m. month_len y j) + (d - 1)"

section \<open>Properties\<close>

subsection \<open>The year of a day\<close>

text \<open>\<open>D Y\<close> is the number of days from 1 March of year 0 to 1 March of year \<open>Y\<close>.\<close>

definition D :: "int \<Rightarrow> int" where
  "D Y = 365 * Y + Y div 4 - Y div 100 + Y div 400"

definition yoe_num :: "int \<Rightarrow> int" where
  "yoe_num doe = doe - doe div 1460 + doe div 36524 - doe div 146096"

lemma minus_div_mono: "0 < c \<Longrightarrow> a \<le> b \<Longrightarrow> (a::int) - a div c \<le> b - b div c"
proof -
  assume "0 < c" and "a \<le> b"
  have "b div c \<le> a div c + (b - a)"
  proof -
    have "1 * (b - a) \<le> c * (b - a)"
      using \<open>0 < c\<close> \<open>a \<le> b\<close> by (intro mult_right_mono) simp_all
    then have "b div c \<le> (a + c * (b - a)) div c"
      using \<open>0 < c\<close> by (intro zdiv_mono1) simp_all
    also have "\<dots> = a div c + (b - a)" using \<open>0 < c\<close> by simp
    finally show ?thesis .
  qed
  then show ?thesis by simp
qed

lemma yoe_num_mono: "a \<le> b \<Longrightarrow> yoe_num a \<le> yoe_num b"
proof -
  assume ab: "a \<le> b"
  have split: "yoe_num x = (x - x div 1460) + (x div 36524 - (x div 36524) div 4)" for x
    by (simp add: yoe_num_def zdiv_zmult2_eq [symmetric])
  have "a div 36524 \<le> b div 36524" using ab by (rule zdiv_mono1) simp
  then have "a div 36524 - a div 36524 div 4 \<le> b div 36524 - b div 36524 div 4"
    by (rule minus_div_mono [rotated]) simp
  moreover have "a - a div 1460 \<le> b - b div 1460"
    using ab by (rule minus_div_mono [rotated]) simp
  ultimately show ?thesis unfolding split by (rule add_mono [rotated])
qed

lemma yoe_table:
  "list_all (\<lambda>Y. 365 * Y \<le> yoe_num (D Y) \<and> yoe_num (D (Y + 1) - 1) \<le> 365 * Y + 364) [0..399]"
  by code_simp

lemma D_ex: "0 \<le> x \<Longrightarrow> x < D (int n) \<Longrightarrow> \<exists>Y < n. D (int Y) \<le> x \<and> x < D (int Y + 1)"
proof (induction n)
  case 0
  then show ?case by (simp add: D_def)
next
  case (Suc n)
  show ?case
  proof (cases "x < D (int n)")
    case True
    with Suc show ?thesis by (auto simp: less_Suc_eq)
  next
    case False
    with Suc.prems show ?thesis by (auto simp: algebra_simps)
  qed
qed

lemma yoe_correct:
  assumes "0 \<le> doe" and "doe < 146097"
  defines "Y \<equiv> yoe_num doe div 365"
  shows "0 \<le> Y" and "Y < 400" and "D Y \<le> doe" and "doe < D (Y + 1)"
proof -
  have "doe < D (int 400)" using assms(2) by (simp add: D_def)
  with assms(1) obtain n where n: "n < 400" "D (int n) \<le> doe" "doe < D (int n + 1)"
    using D_ex by blast
  with yoe_table have "365 * int n \<le> yoe_num (D (int n))" "yoe_num (D (int n + 1) - 1) \<le> 365 * int n + 364"
    by (auto simp: list_all_iff)
  moreover have "yoe_num (D (int n)) \<le> yoe_num doe" "yoe_num doe \<le> yoe_num (D (int n + 1) - 1)"
    using n by (auto intro: yoe_num_mono)
  ultimately have "yoe_num doe div 365 = int n" by simp
  with n show "0 \<le> Y" "Y < 400" "D Y \<le> doe" "doe < D (Y + 1)" by (simp_all add: Y_def)
qed

lemma D_era: "D (Y + era * 400) = D Y + era * 146097"
proof -
  have "(Y + era * 400) div 4 = Y div 4 + era * 100"
    using div_mult_self1 [of 4 Y "era * 100"] by (simp add: algebra_simps)
  moreover have "(Y + era * 400) div 100 = Y div 100 + era * 4"
    using div_mult_self1 [of 100 Y "era * 4"] by (simp add: algebra_simps)
  ultimately show ?thesis by (simp add: D_def)
qed

lemma D_400: "0 \<le> Y \<Longrightarrow> Y < 400 \<Longrightarrow> D Y = 365 * Y + Y div 4 - Y div 100"
  by (simp add: D_def)

lemma D_step: "D (Y + 1) - D Y = year_len (Y + 1)"
proof -
  have s: "(Y + 1) div c - Y div c = (if c dvd Y + 1 then 1 else 0)" if "1 < c" for c :: int
  proof (cases "c dvd Y + 1")
    case True
    then obtain k where k: "Y + 1 = c * k" by blast
    then have Y: "Y = c * (k - 1) + (c - 1)" by (simp add: algebra_simps)
    have "Y div c = k - 1" using that by (subst Y) simp
    moreover have "(Y + 1) div c = k" using that by (simp add: k)
    ultimately show ?thesis using True by simp
  next
    case False
    have "Y + 1 = c * (Y div c) + (Y mod c + 1)" by (simp add: algebra_simps)
    moreover have "0 \<le> Y mod c + 1" "Y mod c + 1 \<le> c"
      using that pos_mod_bound [of c Y] pos_mod_sign [of c Y] by linarith+
    moreover have "Y mod c + 1 \<noteq> c" using False calculation(1) by (metis dvd_add dvd_triv_left dvd_refl)
    ultimately have "(Y + 1) div c = Y div c"
      using int_div_pos_eq [of "Y + 1" c "Y div c" "Y mod c + 1"] by simp
    with False show ?thesis by simp
  qed
  have "400 dvd Y + 1 \<Longrightarrow> 100 dvd Y + 1" "100 dvd Y + 1 \<Longrightarrow> 4 dvd Y + 1"
    by (auto elim: dvd_trans [rotated])
  then have len: "year_len (Y + 1) = 365 + (if 4 dvd Y + 1 then 1 else 0) - (if 100 dvd Y + 1 then 1 else 0)
      + (if 400 dvd Y + 1 then 1 else 0)"
    by (auto simp only: year_len_def leap_def split: if_splits)
  have sum: "365 * (Y + 1) + a' - b' + c' - (365 * Y + a - b + c) = 365 + (a' - a) - (b' - b) + (c' - c)"
    for a b c a' b' c' :: int
    by simp
  show ?thesis unfolding D_def sum len by (simp only: s [of 4, simplified] s [of 100, simplified] s [of 400, simplified])
qed

lemma sum_year_len: "1970 \<le> y \<Longrightarrow> (\<Sum>i = 1970..<y. year_len i) = D (y - 1) - D 1969"
proof (induction y rule: int_ge_induct)
  case base
  then show ?case by simp
next
  case (step y)
  then have "{1970..<y + 1} = insert y {1970..<y}" by auto
  with step show ?case using D_step [of "y - 1"] by simp
qed

subsection \<open>The month and the day\<close>

lemma sum_month_len:
  "(\<Sum>j = 1..<(1::int). month_len y j) = 0"
  "(\<Sum>j = 1..<(2::int). month_len y j) = 31"
  "3 \<le> m \<Longrightarrow> m \<le> 12 \<Longrightarrow>
     (\<Sum>j = 1..<m. month_len y j) = (if leap y then 60 else 59) + (153 * (m - 3) + 2) div 5"
proof -
  have step: "(\<Sum>j = 1..<k + 1. month_len y j) = (\<Sum>j = 1..<k. month_len y j) + month_len y k" if "1 \<le> k" for k
  proof -
    from that have "{1..<k + 1} = insert k {1..<k}" by auto
    then show ?thesis by simp
  qed
  show s1: "(\<Sum>j = 1..<(1::int). month_len y j) = 0" by simp
  show s2: "(\<Sum>j = 1..<(2::int). month_len y j) = 31" using step [of 1] by (simp add: month_len_def)
  assume "3 \<le> m" and "m \<le> 12"
  then have "m = 3 \<or> m = 4 \<or> m = 5 \<or> m = 6 \<or> m = 7 \<or> m = 8 \<or> m = 9 \<or> m = 10 \<or> m = 11 \<or> m = 12"
    by presburger
  moreover have ml: "month_len y 2 = (if leap y then 29 else 28)" "month_len y 3 = 31" "month_len y 4 = 30"
    "month_len y 5 = 31" "month_len y 6 = 30" "month_len y 7 = 31" "month_len y 8 = 31" "month_len y 9 = 30"
    "month_len y 10 = 31" "month_len y 11 = 30"
    by (simp_all add: month_len_def)
  ultimately show "(\<Sum>j = 1..<m. month_len y j) = (if leap y then 60 else 59) + (153 * (m - 3) + 2) div 5"
    using s2 step [of 2] step [of 3] step [of 4] step [of 5] step [of 6] step [of 7] step [of 8] step [of 9]
      step [of 10] step [of 11]
    by (auto simp: ml)
qed

lemma month_of_doy:
  fixes doy :: int
  assumes "0 \<le> doy" and "doy < 366"
  defines "mp \<equiv> (5 * doy + 2) div 153"
  shows "0 \<le> mp" and "mp \<le> 11" and "(153 * mp + 2) div 5 \<le> doy" and "doy < (153 * (mp + 1) + 2) div 5"
proof -
  have mp: "153 * mp \<le> 5 * doy + 2" "5 * doy + 2 < 153 * mp + 153"
    unfolding mp_def by linarith+
  with assms(1,2) show "0 \<le> mp" "mp \<le> 11" by linarith+
  from mp(1) show "(153 * mp + 2) div 5 \<le> doy" by linarith
  define t where "t = 153 * (mp + 1) + 2"
  from mp(2) have "5 * (doy + 1) \<le> t" by (simp add: t_def)
  then have "5 * (doy + 1) div 5 \<le> t div 5" by (rule zdiv_mono1) simp
  then show "doy < (153 * (mp + 1) + 2) div 5" unfolding t_def [symmetric] by simp
qed

lemma month_day:
  fixes doy :: int
  assumes "0 \<le> doy" and "doy < year_len (Y + 1)"
  defines "mp \<equiv> (5 * doy + 2) div 153"
  defines "d \<equiv> doy - (153 * mp + 2) div 5 + 1"
  shows "1 \<le> d" and "mp < 10 \<Longrightarrow> d \<le> month_len Y (mp + 3)"
    and "10 \<le> mp \<Longrightarrow> d \<le> month_len (Y + 1) (mp - 9)"
    and "0 \<le> mp" and "mp \<le> 11" and "mp < 10 \<Longrightarrow> doy < 306"
proof -
  have "doy < 366" using assms(2) by (simp add: year_len_def split: if_splits)
  note m = month_of_doy [OF assms(1) this, folded mp_def]
  show "1 \<le> d" "0 \<le> mp" "mp \<le> 11" using m by (simp_all add: d_def)
  show "mp < 10 \<Longrightarrow> doy < 306" using m(4) zdiv_mono1 [of "153 * (mp + 1) + 2" 1532 5] by simp
  show "d \<le> month_len Y (mp + 3)" if "mp < 10"
  proof -
    from that m(1) have "mp = 0 \<or> mp = 1 \<or> mp = 2 \<or> mp = 3 \<or> mp = 4 \<or> mp = 5 \<or> mp = 6 \<or> mp = 7 \<or> mp = 8 \<or> mp = 9"
      by presburger
    then show ?thesis using m(4) by (auto simp: d_def month_len_def)
  qed
  show "d \<le> month_len (Y + 1) (mp - 9)" if "10 \<le> mp"
  proof -
    from that m(2) have "mp = 10 \<or> mp = 11" by presburger
    then show ?thesis using m(4) assms(2) by (auto simp: d_def month_len_def year_len_def split: if_splits)
  qed
qed

lemma D_mono: "a \<le> b \<Longrightarrow> D a \<le> D b"
proof (induction b rule: int_ge_induct)
  case base
  then show ?case by simp
next
  case (step b)
  have "0 \<le> year_len (b + 1)" by (simp add: year_len_def)
  with step D_step [of b] show ?case by linarith
qed

lemma D_1969: "D 1969 = 719162"
  by (simp add: D_def)

text \<open>The result of the computation in terms of the year that starts in March.\<close>

lemma civil_from_days_march:
  assumes "0 \<le> days"
  obtains Y doy mp where "days + 719468 = D Y + doy" and "0 \<le> doy" and "doy < year_len (Y + 1)"
    and "mp = (5 * doy + 2) div 153"
    and "civil_from_days days =
      (if mp < 10 then (Y, mp + 3, doy - (153 * mp + 2) div 5 + 1)
       else (Y + 1, mp - 9, doy - (153 * mp + 2) div 5 + 1))"
proof -
  define z where "z = days + 719468"
  define era where "era = z div 146097"
  define doe where "doe = z - era * 146097"
  define yoe where "yoe = yoe_num doe div 365"
  define doy where "doy = doe - (365 * yoe + yoe div 4 - yoe div 100)"
  define mp where "mp = (5 * doy + 2) div 153"
  have "0 \<le> z" using assms by (simp add: z_def)
  have "doe = z mod 146097" by (simp add: doe_def era_def minus_div_mult_eq_mod)
  then have "0 \<le> doe" "doe < 146097" by simp_all
  note yoe = yoe_correct [OF this, folded yoe_def]
  have doy: "doy = doe - D yoe" by (simp only: doy_def D_400 [OF yoe(1,2)])
  have z: "z = D (yoe + era * 400) + doy" by (simp only: D_era doy) (simp add: doe_def)
  have len: "0 \<le> doy" "doy < year_len (yoe + era * 400 + 1)"
    using yoe(3,4) D_step [of yoe] D_step [of "yoe + era * 400"] D_era [of yoe era] D_era [of "yoe + 1" era]
    unfolding doy by (simp_all add: algebra_simps)
  have mp: "0 \<le> mp" "mp \<le> 11" using month_day(4,5) [OF len] by (simp_all add: mp_def)
  have "civil_from_days days =
    (if (if mp < 10 then mp + 3 else mp - 9) \<le> 2 then yoe + era * 400 + 1 else yoe + era * 400,
     if mp < 10 then mp + 3 else mp - 9, doy - (153 * mp + 2) div 5 + 1)"
    using \<open>0 \<le> z\<close> unfolding civil_from_days_def Let_def mp_def doy_def yoe_def yoe_num_def doe_def era_def z_def
    by (simp only: if_True)
  also have "\<dots> = (if mp < 10 then (yoe + era * 400, mp + 3, doy - (153 * mp + 2) div 5 + 1)
    else (yoe + era * 400 + 1, mp - 9, doy - (153 * mp + 2) div 5 + 1))"
    using mp by simp
  finally show thesis
    using that [of "yoe + era * 400" doy mp] z len by (simp add: z_def mp_def)
qed

text \<open>
  C22. The calendar computation is right for every day from 1970-01-01 on: it returns an existing
  date of the Gregorian calendar, and counting the days from 1970-01-01 to that date (lengths of the
  years, then of the months, then days) gives the day number back.
\<close>

theorem civil_from_days_correct:
  assumes "0 \<le> days"
  shows "case civil_from_days days of (y, m, d) \<Rightarrow>
    1970 \<le> y \<and> valid_date y m d \<and> days_since_1970 y m d = days"
proof -
  obtain Y doy mp where z: "days + 719468 = D Y + doy" and doy: "0 \<le> doy" "doy < year_len (Y + 1)"
    and mp: "mp = (5 * doy + 2) div 153"
    and c: "civil_from_days days =
      (if mp < 10 then (Y, mp + 3, doy - (153 * mp + 2) div 5 + 1)
       else (Y + 1, mp - 9, doy - (153 * mp + 2) div 5 + 1))"
    by (rule civil_from_days_march [OF assms])
  note md = month_day [OF doy, folded mp]
  show ?thesis
  proof (cases "mp < 10")
    case True
    have "D 1969 < D Y" using z md(6) [OF True] assms by (simp add: D_1969)
    then have Y: "1970 \<le> Y" using D_mono [of Y 1969] by linarith
    have "(\<Sum>i = 1970..<Y. year_len i) = D Y - year_len Y - D 1969"
      using sum_year_len [OF Y] D_step [of "Y - 1"] by simp
    moreover have "(\<Sum>j = 1..<mp + 3. month_len Y j) = year_len Y - 306 + (153 * mp + 2) div 5"
      using sum_month_len(3) [of "mp + 3" Y] md(4) True by (simp add: year_len_def)
    ultimately have "days_since_1970 Y (mp + 3) (doy - (153 * mp + 2) div 5 + 1) = days"
      using z by (simp add: days_since_1970_def D_1969)
    with Y md True show ?thesis by (simp add: c valid_date_def)
  next
    case False
    have "D 1969 < D (Y + 1)" using z doy assms D_step [of Y] by (simp add: D_1969)
    then have Y: "1970 \<le> Y + 1" using D_mono [of "Y + 1" 1969] by linarith
    have years: "(\<Sum>i = 1970..<Y + 1. year_len i) = D Y - D 1969"
      using sum_year_len [OF Y] by simp
    from False md(5) have "mp = 10 \<or> mp = 11" by presburger
    then have "days_since_1970 (Y + 1) (mp - 9) (doy - (153 * mp + 2) div 5 + 1) = days"
      using z years sum_month_len(1,2) [of "Y + 1"] by (auto simp: days_since_1970_def D_1969)
    with Y md False show ?thesis by (simp add: c valid_date_def)
  qed
qed

theorem civil_from_days_correct_witness:
  "civil_from_days 19782 = (2024, 2, 29) \<and> valid_date 2024 2 29 \<and> days_since_1970 2024 2 29 = 19782"
proof -
  have "civil_from_days 19782 = (2024, 2, 29)" by code_simp
  then show ?thesis using civil_from_days_correct [of 19782] by simp
qed

subsection \<open>The format loop\<close>

text \<open>What a format stands for: the concatenation of its rendered fields and literal characters.\<close>

definition field_text :: "civil \<Rightarrow> char \<Rightarrow> string" where
  "field_text t c =
     (if c = CHR ''Y'' then [digit (yr t div 1000 mod 10), digit (yr t div 100 mod 10), digit (yr t div 10 mod 10), digit (yr t mod 10)]
      else if c = CHR ''y'' then [digit (yr t div 10 mod 10), digit (yr t mod 10)]
      else if c = CHR ''m'' then two (mon t)
      else if c = CHR ''b'' then month_abbr (mon t)
      else if c = CHR ''d'' then two (day t)
      else if c = CHR ''H'' then two (hh t)
      else if c = CHR ''M'' then two (mi t)
      else if c = CHR ''S'' then two (ss t)
      else if c = CHR ''%'' then ''%''
      else [CHR ''%'', c])"

fun render :: "civil \<Rightarrow> string \<Rightarrow> string" where
  "render t [] = []"
| "render t [c] = [c]"
| "render t (c # x # fmt) =
     (if c = CHR ''%'' then field_text t x @ render t fmt else c # render t (x # fmt))"

lemma length_month_abbr [simp]: "length (month_abbr m) = 3"
proof (cases "1 \<le> m \<and> m \<le> 12")
  case True
  then have "m \<in> {1, 2, 3, 4, 5, 6, 7, 8, 9, 10, 11, 12}" by (simp, presburger)
  then show ?thesis by (auto simp: month_abbr_def)
qed (auto simp: month_abbr_def)

lemma length_field_text:
  "length (field_text t c) =
     (if c = CHR ''Y'' then 4 else if c = CHR ''b'' then 3 else if c = CHR ''%'' then 1 else 2)"
  by (simp add: field_text_def two_def)

lemma EpochFmtWidth_render: "EpochFmtWidth fmt = of_nat (length (render t fmt))"
  by (induction t fmt rule: render.induct) (simp_all add: length_field_text)

lemma put_append:
  assumes "length out < 256"
  shows "put c (of_nat (length out), out @ x # rest) = (of_nat (length (out @ [c])), (out @ [c]) @ rest)"
  using assms by (simp add: put_def unat_of_nat_small)

lemma puts_append:
  assumes "length out + length s \<le> 256" and "length s \<le> length rest"
  shows "puts s (of_nat (length out), out @ rest) =
    (of_nat (length (out @ s)), (out @ s) @ drop (length s) rest)"
  using assms
proof (induction s arbitrary: out rest)
  case Nil
  then show ?case by (simp add: puts_def)
next
  case (Cons c s)
  then obtain x rest' where rest: "rest = x # rest'" by (cases rest) auto
  from Cons.prems have "length out < 256" by simp
  then have "puts (c # s) (of_nat (length out), out @ rest) =
      puts s (of_nat (length (out @ [c])), (out @ [c]) @ rest')"
    unfolding rest by (simp only: puts_def fold.simps o_apply put_append)
  also have "\<dots> = (of_nat (length ((out @ [c]) @ s)), ((out @ [c]) @ s) @ drop (length s) rest')"
    using Cons.prems by (intro Cons.IH) (simp_all add: rest)
  finally show ?case by (simp add: rest)
qed

lemma fmt_field_append:
  assumes "length out + length (field_text t c) < unat maxlen" and "length (field_text t c) \<le> length rest"
  shows "fmt_field t maxlen c (of_nat (length out), out @ rest) =
    (of_nat (length (out @ field_text t c)), (out @ field_text t c) @ drop (length (field_text t c)) rest)"
proof (cases "c \<in> {CHR ''Y'', CHR ''y'', CHR ''m'', CHR ''b'', CHR ''d'', CHR ''H'', CHR ''M'', CHR ''S'', CHR ''%''}")
  case True
  then have "fmt_field t maxlen c pb = puts (field_text t c) pb" for pb
    by (auto simp: fmt_field_def field_text_def)
  moreover have "length out + length (field_text t c) \<le> 256"
    using assms(1) unat_bound [of maxlen] by simp
  ultimately show ?thesis using puts_append assms(2) by simp
next
  case False
  then have text_c: "field_text t c = [CHR ''%'', c]" by (simp add: field_text_def)
  with assms(2) obtain x y rest' where rest: "rest = x # y # rest'"
    by (cases rest rule: remdups_adj.cases) auto
  from assms(1) text_c unat_bound [of maxlen] have n: "length out + 2 < unat maxlen" "length out + 2 < 256" by simp_all
  have "(of_nat (length (out @ ''%'')) + 1 :: u8) < maxlen"
    using n by (simp add: word_less_nat_alt unat_word_ariths unat_of_nat_small)
  moreover have "puts ''%'' (of_nat (length out), out @ rest) = (of_nat (length (out @ ''%'')), (out @ ''%'') @ y # rest')"
    using puts_append [of out "''%''" rest] n by (simp add: rest)
  ultimately have "fmt_field t maxlen c (of_nat (length out), out @ rest) =
      put c (of_nat (length (out @ ''%'')), (out @ ''%'') @ y # rest')"
    using False by (simp add: fmt_field_def)
  then show ?thesis using put_append [of "out @ ''%''" c y rest'] n by (simp add: text_c rest)
qed

lemma fmt_loop_render:
  assumes "length out + length (render t fmt) < unat maxlen" and "length (render t fmt) \<le> length rest"
  shows "fmt_loop t maxlen fmt (of_nat (length out), out @ rest) =
    (of_nat (length (out @ render t fmt)), (out @ render t fmt) @ drop (length (render t fmt)) rest)"
  using assms
proof (induction t fmt arbitrary: out rest rule: render.induct)
  case (1 t)
  then show ?case by (simp add: fmt_loop.simps)
next
  case (2 t c)
  then obtain x rest' where rest: "rest = x # rest'" by (cases rest) auto
  from 2 unat_bound [of maxlen] have n: "length out + 1 < unat maxlen" "length out + 1 < 256" by simp_all
  then have "of_nat (length out) + 1 < maxlen"
    by (simp add: word_less_nat_alt unat_word_ariths unat_of_nat_small)
  with n show ?case using put_append [of out c x rest'] by (simp add: fmt_loop.simps rest)
next
  case (3 t c x fmt)
  have "0 < length (field_text t x)" by (simp add: length_field_text)
  then have "0 < length (render t (c # x # fmt))" by auto
  with 3(3) have "length out + 1 < unat maxlen" by linarith
  with unat_bound [of maxlen] have n: "length out + 1 < unat maxlen" "length out + 1 < 256" by simp_all
  then have guard: "of_nat (length out) + 1 < maxlen"
    by (simp add: word_less_nat_alt unat_word_ariths unat_of_nat_small)
  show ?case
  proof (cases "c = CHR ''%''")
    case True
    then have "fmt_loop t maxlen (c # x # fmt) (of_nat (length out), out @ rest) =
        fmt_loop t maxlen fmt (fmt_field t maxlen x (of_nat (length out), out @ rest))"
      using guard by (subst fmt_loop.simps) simp
    also have "fmt_field t maxlen x (of_nat (length out), out @ rest) =
        (of_nat (length (out @ field_text t x)), (out @ field_text t x) @ drop (length (field_text t x)) rest)"
      using 3(3,4) True by (intro fmt_field_append) simp_all
    also have "fmt_loop t maxlen fmt \<dots> = (of_nat (length ((out @ field_text t x) @ render t fmt)),
        ((out @ field_text t x) @ render t fmt) @ drop (length (render t fmt)) (drop (length (field_text t x)) rest))"
      using 3(3,4) True by (intro 3(1)) simp_all
    finally show ?thesis using True by (simp add: add.commute)
  next
    case False
    obtain r rest' where rest: "rest = r # rest'" using 3(4) False by (cases rest) auto
    have "fmt_loop t maxlen (c # x # fmt) (of_nat (length out), out @ rest) =
        fmt_loop t maxlen (x # fmt) (of_nat (length (out @ [c])), (out @ [c]) @ rest')"
      using guard False n put_append [of out c r rest'] by (subst fmt_loop.simps) (simp add: rest)
    also have "\<dots> = (of_nat (length ((out @ [c]) @ render t (x # fmt))),
        ((out @ [c]) @ render t (x # fmt)) @ drop (length (render t (x # fmt))) rest')"
      using 3(3,4) False by (intro 3(2)) (simp_all add: rest)
    finally show ?thesis using False by (simp add: rest)
  qed
qed

text \<open>Formatting a non-zero time never truncates and never overflows.  For every format whose
  text has fewer than 256 characters and every buffer of at least \<open>maxlen\<close> bytes, the routine
  either clears the first \<open>maxlen\<close> bytes (text and terminator do not fit) or stores
  exactly the rendered format followed by zeroes; bytes from \<open>maxlen\<close> on are unchanged in
  both cases.\<close>

theorem EpochToDateTimeString_render:
  assumes "epoch \<noteq> 0" and "0 < maxlen" and "unat maxlen \<le> length buf"
    and "length (render (epoch_civil epoch) f) < 256"
  shows "EpochToDateTimeString epoch (Some buf) maxlen (Some f) =
    (let s = render (epoch_civil epoch) f; s' = (if length s < unat maxlen then s else [])
     in Some (s' @ replicate (unat maxlen - length s') NUL @ drop (unat maxlen) buf))"
proof -
  define t where "t = epoch_civil epoch"
  define buf0 where "buf0 = replicate (unat maxlen) NUL @ drop (unat maxlen) buf"
  define L where "L = length (render t f)"
  have L: "unat (EpochFmtWidth f) = L"
    using assms(4) by (simp add: EpochFmtWidth_render [of f t] unat_of_nat_small L_def t_def)
  have pos: "0 < unat maxlen" using assms(2) by (simp add: word_less_nat_alt)
  show ?thesis
  proof (cases "L < unat maxlen")
    case True
    then have "fmt_loop t maxlen f (0, buf0) = (of_nat L, render t f @ drop L buf0)"
      using fmt_loop_render [of "[]" t f maxlen buf0] by (simp add: L_def buf0_def)
    moreover have "drop L buf0 = NUL # replicate (unat maxlen - Suc L) NUL @ drop (unat maxlen) buf"
      using True by (simp add: buf0_def Suc_diff_Suc flip: replicate_Suc append_Cons)
    moreover have "unat (of_nat L :: u8) = L"
      using assms(4) by (simp add: unat_of_nat_small L_def t_def)
    moreover have "replicate (unat maxlen - L) NUL = NUL # replicate (unat maxlen - Suc L) NUL"
      using True by (simp add: Suc_diff_Suc flip: replicate_Suc)
    ultimately show ?thesis
      using True assms(1,2) L by (simp add: EpochToDateTimeString_def Let_def word_le_nat_alt
          buf0_def [symmetric] t_def [symmetric] L_def [symmetric] list_update_append)
  next
    case False
    moreover have "buf0[0 := NUL] = buf0"
      using pos by (cases "unat maxlen") (simp_all add: buf0_def)
    ultimately show ?thesis
      using assms(1,2) L by (simp add: EpochToDateTimeString_def Let_def word_le_nat_alt
          buf0_def t_def [symmetric] L_def [symmetric])
  qed
qed

theorem EpochToDateTimeString_render_witness:
  "EpochToDateTimeString 1700000000 (Some (replicate 24 CHR ''x'')) 20 (Some ''%Y-%m-%d %H:%M:%S'') =
     Some (''2023-11-14 22:13:20'' @ [NUL] @ ''xxxx'')"
proof -
  have r: "render (epoch_civil 1700000000) ''%Y-%m-%d %H:%M:%S'' = ''2023-11-14 22:13:20''" by code_simp
  show ?thesis
    unfolding EpochToDateTimeString_render [of 1700000000 20 "replicate 24 CHR ''x''" "''%Y-%m-%d %H:%M:%S''",
        simplified r, simplified]
    by code_simp
qed

end
