(* ===== verification/RingBuf.thy ===== *)
theory RingBuf
  imports Prelude
begin

text \<open>
  The byte ring buffer of \<^verbatim>\<open>utility/queue/ringbuf.cpp\<close>. The three pointers into the buffer memory are
  the memory itself (\<open>p_o\<close>) and the offsets of the read and the write pointer from its start;
  \<^verbatim>\<open>size_t\<close> counters are natural numbers, which never pass \<open>rb_size\<close>. A return value of -1 is
  \<open>None\<close>. The buffer implements the bounded queue interface \<open>fifo\<close>.
\<close>

section \<open>Model\<close>

record RINGBUF =
  p_o :: "byte list"
  p_r :: nat
  p_w :: nat
  fill_cnt :: nat
  rb_size :: nat

definition RINGBUF_Init :: "byte list option \<Rightarrow> nat \<Rightarrow> RINGBUF option" where
  "RINGBUF_Init buf n =
     (case buf of None \<Rightarrow> None
      | Some m \<Rightarrow> if n < 2 then None
                else Some \<lparr>p_o = m, p_r = 0, p_w = 0, fill_cnt = 0, rb_size = n\<rparr>)"

definition RINGBUF_Put :: "RINGBUF \<Rightarrow> byte \<Rightarrow> RINGBUF option" where
  "RINGBUF_Put r c =
     (if fill_cnt r \<ge> rb_size r then None
      else
        (let r = r\<lparr>fill_cnt := fill_cnt r + 1\<rparr>;
             r = r\<lparr>p_o := (p_o r)[p_w r := c], p_w := p_w r + 1\<rparr>
         in Some (if p_w r \<ge> rb_size r then r\<lparr>p_w := 0\<rparr> else r)))"

definition RINGBUF_Get :: "RINGBUF \<Rightarrow> (byte \<times> RINGBUF) option" where
  "RINGBUF_Get r =
     (if fill_cnt r \<le> 0 then None
      else
        (let r = r\<lparr>fill_cnt := fill_cnt r - 1\<rparr>;
             c = p_o r ! p_r r;
             r = r\<lparr>p_r := p_r r + 1\<rparr>
         in Some (c, if p_r r \<ge> rb_size r then r\<lparr>p_r := 0\<rparr> else r)))"

text \<open>
  The invariant: both pointers are inside the memory, and the write pointer is \<open>fill_cnt\<close> slots
  ahead of the read pointer. The contents are read off from the read pointer on.
\<close>

definition rb_ok :: "RINGBUF \<Rightarrow> bool" where
  "rb_ok r \<longleftrightarrow> rb_size r \<le> length (p_o r) \<and> p_r r < rb_size r \<and> fill_cnt r \<le> rb_size r \<and>
     p_w r = (p_r r + fill_cnt r) mod rb_size r"

definition rb_contents :: "RINGBUF \<Rightarrow> byte list" where
  "rb_contents r = map (\<lambda>i. p_o r ! ((p_r r + i) mod rb_size r)) [0..<fill_cnt r]"

section \<open>The buffer is a bounded queue\<close>

lemma length_rb_contents [simp]: "length (rb_contents r) = fill_cnt r"
  by (simp add: rb_contents_def)

lemma RINGBUF_Init_ok:
  assumes "RINGBUF_Init (Some m) n = Some r" and "n \<le> length m"
  shows "rb_ok r" and "rb_contents r = []" and "rb_size r = n"
  using assms by (auto simp: RINGBUF_Init_def rb_ok_def rb_contents_def split: if_splits)

lemma wrap_Suc: "i < n \<Longrightarrow> (if n \<le> Suc i then 0 else Suc i) = Suc i mod n"
  by (auto simp: not_le dest: le_antisym [of n "Suc i"])

lemma mod_add_distinct:
  assumes "i < j" and "j < n"
  shows "(p + i) mod n \<noteq> (p + j) mod (n::nat)"
proof
  assume "(p + i) mod n = (p + j) mod n"
  then have "n dvd (p + j) - (p + i)" using assms by (metis mod_eq_dvd_iff_nat nat_add_left_cancel_le less_imp_le)
  then show False using assms by (auto dest: dvd_imp_le)
qed

lemma RINGBUF_Put_Some:
  assumes "RINGBUF_Put r c = Some r'"
  shows "fill_cnt r < rb_size r" and "fill_cnt r' = Suc (fill_cnt r)" and "rb_size r' = rb_size r"
    and "p_r r' = p_r r" and "p_o r' = (p_o r)[p_w r := c]"
    and "p_w r' = (if rb_size r \<le> Suc (p_w r) then 0 else Suc (p_w r))"
  using assms by (auto simp: RINGBUF_Put_def Let_def split: if_splits)

lemma RINGBUF_Get_Some:
  assumes "RINGBUF_Get r = Some (c, r')"
  shows "fill_cnt r = Suc (fill_cnt r')" and "rb_size r' = rb_size r"
    and "p_w r' = p_w r" and "p_o r' = p_o r" and "c = p_o r ! p_r r"
    and "p_r r' = (if rb_size r \<le> Suc (p_r r) then 0 else Suc (p_r r))"
  using assms by (auto simp: RINGBUF_Get_def Let_def split: if_splits)

lemma RINGBUF_Put_ok:
  assumes "rb_ok r" and "RINGBUF_Put r c = Some r'"
  shows "rb_ok r'"
proof -
  note put = RINGBUF_Put_Some [OF assms(2)]
  have "p_w r < rb_size r" using assms(1) by (simp add: rb_ok_def)
  then have "p_w r' = Suc (p_w r) mod rb_size r" using put(6) by (simp add: wrap_Suc)
  then show ?thesis using assms(1) put by (simp add: rb_ok_def mod_Suc_eq)
qed

lemma RINGBUF_Put_contents:
  assumes "rb_ok r" and "RINGBUF_Put r c = Some r'"
  shows "rb_contents r' = rb_contents r @ [c]"
proof -
  note put = RINGBUF_Put_Some [OF assms(2)]
  let ?n = "rb_size r"
  have n: "0 < ?n" "?n \<le> length (p_o r)" "p_w r = (p_r r + fill_cnt r) mod ?n" "p_w r < ?n"
    using assms(1) by (auto simp: rb_ok_def)
  have "(p_o r)[p_w r := c] ! ((p_r r + i) mod ?n) = p_o r ! ((p_r r + i) mod ?n)" if "i < fill_cnt r" for i
  proof -
    have "(p_r r + i) mod ?n \<noteq> (p_r r + fill_cnt r) mod ?n"
      using mod_add_distinct that put(1) by blast
    then show ?thesis by (simp add: n(3))
  qed
  moreover have "(p_o r)[p_w r := c] ! ((p_r r + fill_cnt r) mod ?n) = c"
    using n(2,4) by (simp flip: n(3))
  ultimately show ?thesis using put(2-5) by (simp add: rb_contents_def)
qed

lemma RINGBUF_Get_ok:
  assumes "rb_ok r" and "RINGBUF_Get r = Some (c, r')"
  shows "rb_ok r'" and "rb_contents r = c # rb_contents r'"
proof -
  note get = RINGBUF_Get_Some [OF assms(2)]
  have n: "p_r r < rb_size r" "rb_size r \<le> length (p_o r)" "fill_cnt r \<le> rb_size r"
    "p_w r = (p_r r + fill_cnt r) mod rb_size r"
    using assms(1) by (auto simp: rb_ok_def)
  have pr: "p_r r' = Suc (p_r r) mod rb_size r" using get(6) n(1) by (simp add: wrap_Suc)
  show "rb_ok r'" using n get(1-5) by (simp add: rb_ok_def pr mod_add_left_eq)
  have "[0..<fill_cnt r] = 0 # map Suc [0..<fill_cnt r']"
    by (simp only: get(1) upt_conv_Cons [OF zero_less_Suc] map_Suc_upt)
  then show "rb_contents r = c # rb_contents r'"
    using n(1) get(2-5) by (simp add: rb_contents_def pr mod_add_left_eq)
qed

interpretation rb: fifo rb_ok rb_contents rb_size RINGBUF_Put RINGBUF_Get
proof
  show "RINGBUF_Put r c = None \<longleftrightarrow> length (rb_contents r) \<ge> rb_size r" for r c
    by (auto simp: RINGBUF_Put_def Let_def)
  show "RINGBUF_Get r = None \<longleftrightarrow> rb_contents r = []" for r
    by (auto simp: RINGBUF_Get_def Let_def simp flip: length_0_conv)
  show "length (rb_contents r) \<le> rb_size r" if "rb_ok r" for r
    using that by (simp add: rb_ok_def)
  show "rb_contents r' = rb_contents r @ [c]" if "rb_ok r" "RINGBUF_Put r c = Some r'" for r c r'
    using that by (rule RINGBUF_Put_contents)
  show "rb_ok r' \<and> rb_size r' = rb_size r" if "rb_ok r" "RINGBUF_Put r c = Some r'" for r c r'
    using that by (metis RINGBUF_Put_ok RINGBUF_Put_Some(3))
  show "rb_contents r = c # rb_contents r'" if "rb_ok r" "RINGBUF_Get r = Some (c, r')" for r c r'
    using that by (rule RINGBUF_Get_ok)
  show "rb_ok r' \<and> rb_size r' = rb_size r" if "rb_ok r" "RINGBUF_Get r = Some (c, r')" for r c r'
    using that by (metis RINGBUF_Get_ok(1) RINGBUF_Get_Some(2))
qed

end
