(* ===== verification/Proto.thy ===== *)
theory Proto
  imports RingBuf "HOL-Library.Sublist"
begin

text \<open>
  The packet framing of \<^verbatim>\<open>utility/queue/proto.cpp\<close> and the packet queue of
  \<^verbatim>\<open>utility/queue/queue.cpp\<close> built on it. A packet travels as a start byte, its bytes with the three
  reserved values escaped, and an end byte. Buffers are byte lists, C results -1 and 0 are integers.
  The parser on the stack of \<^verbatim>\<open>PROTO_ParseRb\<close> is not cleared, so its earlier value is an argument.
\<close>

unbundle bit_operations_syntax

section \<open>Model\<close>

text \<open>\<open>fired\<close> counts the calls of the completion callback; \<open>callback\<close> says whether it is non-null.\<close>

record PROTO_PARSER =
  buf :: "byte list"
  bufSize :: u16
  dataLen :: u16
  isEsc :: bool
  isBegin :: bool
  callback :: bool
  fired :: nat

definition PROTO_Init :: "PROTO_PARSER \<Rightarrow> bool \<Rightarrow> byte list \<Rightarrow> u16 \<Rightarrow> PROTO_PARSER" where
  "PROTO_Init parser completeCallback b n =
     parser\<lparr>buf := b, bufSize := n, dataLen := 0, callback := completeCallback, isEsc := False\<rparr>"

definition PROTO_ParseByte :: "PROTO_PARSER \<Rightarrow> byte \<Rightarrow> int \<times> PROTO_PARSER" where
  "PROTO_ParseByte p v =
     (if v = 0x7D then (-1, p\<lparr>isEsc := True\<rparr>)
      else if v = 0x7E then (-1, p\<lparr>dataLen := 0, isEsc := False, isBegin := True\<rparr>)
      else if v = 0x7F then
        (0, (if callback p then p\<lparr>fired := fired p + 1\<rparr> else p)\<lparr>isBegin := False\<rparr>)
      else if \<not> isBegin p then (-1, p)
      else
        (let (v, p) = (if isEsc p then (v XOR 0x20, p\<lparr>isEsc := False\<rparr>) else (v, p))
         in (-1, if dataLen p < bufSize p
                 then p\<lparr>buf := (buf p)[unat (dataLen p) := v], dataLen := dataLen p + 1\<rparr>
                 else p)))"

fun PROTO_Parse :: "PROTO_PARSER \<Rightarrow> byte list \<Rightarrow> int \<times> PROTO_PARSER" where
  "PROTO_Parse p [] = (0, p)"
| "PROTO_Parse p (v # vs) = PROTO_Parse (snd (PROTO_ParseByte p v)) vs"

text \<open>The loop of \<^verbatim>\<open>PROTO_ParseRb\<close>; every turn takes a byte out of the ring buffer.\<close>

function parse_rb :: "RINGBUF \<Rightarrow> PROTO_PARSER \<Rightarrow> bool \<times> RINGBUF \<times> PROTO_PARSER" where
  "parse_rb r p =
     (case RINGBUF_Get r of
        None \<Rightarrow> (False, r, p)
      | Some (c, r) \<Rightarrow>
          (case PROTO_ParseByte p c of
             (res, p) \<Rightarrow> if res = 0 then (True, r, p) else parse_rb r p))"
  by pat_completeness auto
termination
  by (relation "measure (\<lambda>(r, p). fill_cnt r)") (auto dest: RINGBUF_Get_Some)

declare parse_rb.simps [simp del]

definition PROTO_ParseRb ::
  "PROTO_PARSER \<Rightarrow> RINGBUF \<Rightarrow> byte list \<Rightarrow> u16 \<Rightarrow> u16 \<Rightarrow> int \<times> RINGBUF \<times> byte list \<times> u16" where
  "PROTO_ParseRb stack r bufOut len maxBufLen =
     (case parse_rb r (PROTO_Init stack False bufOut maxBufLen) of
        (done, r', proto) \<Rightarrow>
          if done then (0, r', buf proto, dataLen proto) else (-1, r', buf proto, len))"

text \<open>
  \<^verbatim>\<open>PROTO_Add\<close> appends to the output one byte at a time while \<open>bufSize\<close> lasts. The two length
  bytes at the start of the packet are read and then sent with it; the target is little endian.
  \<open>None\<close> is a read past the end of the packet.
\<close>

fun add_loop :: "nat \<Rightarrow> byte list \<Rightarrow> int \<Rightarrow> u16 \<Rightarrow> byte list \<Rightarrow> (int \<times> byte list) option" where
  "add_loop 0 packet n i out = Some (if n < 1 then (-1, out) else (uint i, out @ [0x7F]))"
| "add_loop (Suc len) [] n i out = None"
| "add_loop (Suc len) (v # packet) n i out =
     (if v = 0x7D \<or> v = 0x7E \<or> v = 0x7F
      then if n < 2 then Some (-1, out) else add_loop len packet (n - 2) (i + 2) (out @ [0x7D, v XOR 0x20])
      else if n < 1 then Some (-1, out) else add_loop len packet (n - 1) (i + 1) (out @ [v]))"

definition PROTO_Add :: "byte list \<Rightarrow> int \<Rightarrow> (int \<times> byte list) option" where
  "PROTO_Add packet n =
     (case packet of
        lo # hi # _ \<Rightarrow>
          if n < 1 then Some (-1, [])
          else add_loop (unat lo + 256 * unat hi) packet (n - 1) 2 [0x7E]
      | _ \<Rightarrow> None)"

fun addrb_loop :: "byte list \<Rightarrow> RINGBUF \<Rightarrow> u16 \<Rightarrow> int \<times> RINGBUF" where
  "addrb_loop [] r i =
     (case RINGBUF_Put r 0x7F of None \<Rightarrow> (-1, r) | Some r \<Rightarrow> (uint i, r))"
| "addrb_loop (v # packet) r i =
     (if v = 0x7D \<or> v = 0x7E \<or> v = 0x7F
      then (case RINGBUF_Put r 0x7D of None \<Rightarrow> (-1, r)
            | Some r \<Rightarrow> (case RINGBUF_Put r (v XOR 0x20) of None \<Rightarrow> (-1, r)
                       | Some r \<Rightarrow> addrb_loop packet r (i + 2)))
      else (case RINGBUF_Put r v of None \<Rightarrow> (-1, r)
            | Some r \<Rightarrow> addrb_loop packet r (i + 1)))"

text \<open>The packet argument holds the \<open>len\<close> bytes of the C call.\<close>

definition PROTO_AddRb :: "RINGBUF \<Rightarrow> byte list \<Rightarrow> int \<times> RINGBUF" where
  "PROTO_AddRb r packet =
     (case RINGBUF_Put r 0x7E of None \<Rightarrow> (-1, r) | Some r \<Rightarrow> addrb_loop packet r 2)"

record QUEUE =
  qbuf :: "byte list"
  rbuf :: RINGBUF

text \<open>\<open>QUEUE_Init\<close> gets the fresh memory and, since it ignores a failure of
  \<^verbatim>\<open>RINGBUF_Init\<close>, the queue's earlier value.\<close>

definition QUEUE_Init :: "QUEUE \<Rightarrow> byte list \<Rightarrow> QUEUE" where
  "QUEUE_Init q mem =
     (case RINGBUF_Init (Some mem) (length mem) of
        None \<Rightarrow> q\<lparr>qbuf := mem\<rparr>
      | Some r \<Rightarrow> q\<lparr>qbuf := mem, rbuf := r\<rparr>)"

definition QUEUE_Puts :: "QUEUE \<Rightarrow> byte list \<Rightarrow> int \<times> QUEUE" where
  "QUEUE_Puts q packet = (case PROTO_AddRb (rbuf q) packet of (i, r) \<Rightarrow> (i, q\<lparr>rbuf := r\<rparr>))"

definition QUEUE_Gets ::
  "PROTO_PARSER \<Rightarrow> QUEUE \<Rightarrow> byte list \<Rightarrow> u16 \<Rightarrow> u16 \<Rightarrow> int \<times> QUEUE \<times> byte list \<times> u16" where
  "QUEUE_Gets stack q buffer len maxLen =
     (case PROTO_ParseRb stack (rbuf q) buffer len maxLen of (i, r, b, n) \<Rightarrow> (i, q\<lparr>rbuf := r\<rparr>, b, n))"

definition QUEUE_IsEmpty :: "QUEUE \<Rightarrow> bool" where
  "QUEUE_IsEmpty q \<longleftrightarrow> fill_cnt (rbuf q) \<le> 0"

section \<open>Frames\<close>

definition special :: "byte \<Rightarrow> bool" where
  "special v \<longleftrightarrow> v = 0x7D \<or> v = 0x7E \<or> v = 0x7F"

definition stuff :: "byte \<Rightarrow> byte list" where
  "stuff v = (if special v then [0x7D, v XOR 0x20] else [v])"

definition frame :: "byte list \<Rightarrow> byte list" where
  "frame packet = 0x7E # concat (map stuff packet) @ [0x7F]"

lemma escaped_not_special:
  assumes "special v"
  shows "v XOR 0x20 \<noteq> (0x7D :: byte)" and "v XOR 0x20 \<noteq> (0x7E :: byte)" and "v XOR 0x20 \<noteq> (0x7F :: byte)"
    and "(v XOR 0x20) XOR 0x20 = v"
  using assms by (auto simp: special_def)

subsection \<open>Writing\<close>

lemma addrb_loop_put_seq:
  assumes "rb_ok r"
  shows "addrb_loop packet r i =
    (case put_seq RINGBUF_Put r (concat (map stuff packet) @ [0x7F]) of
       (fits, r') \<Rightarrow> (if fits then uint (i + of_nat (length (concat (map stuff packet)))) else -1, r'))"
  using assms
proof (induction packet arbitrary: r i)
  case Nil
  then show ?case by (simp split: option.split)
next
  case (Cons v packet)
  show ?case
  proof (cases "special v")
    case True
    then have st: "stuff v = [0x7D, v XOR 0x20]" by (simp add: stuff_def)
    have "rb_ok r''" if "RINGBUF_Put r 0x7D = Some r'" "RINGBUF_Put r' (v XOR 0x20) = Some r''" for r' r''
      using that Cons.prems by (blast dest: rb.put_invar)
    with True st Cons.IH show ?thesis
      by (simp add: special_def add.assoc split: option.split prod.split)
  next
    case False
    then have st: "stuff v = [v]" by (simp add: stuff_def)
    have "rb_ok r'" if "RINGBUF_Put r v = Some r'" for r'
      using that Cons.prems by (blast dest: rb.put_invar)
    with False st Cons.IH show ?thesis
      by (simp add: special_def add.assoc split: option.split prod.split)
  qed
qed

lemma PROTO_AddRb_put_seq:
  assumes "rb_ok r"
  shows "PROTO_AddRb r packet =
    (case put_seq RINGBUF_Put r (frame packet) of
       (fits, r') \<Rightarrow> (if fits then uint (of_nat (length (frame packet)) :: u16) else -1, r'))"
proof (cases "RINGBUF_Put r 0x7E")
  case (Some r')
  with assms have "rb_ok r'" by (blast dest: rb.put_invar)
  with Some show ?thesis
    by (simp add: PROTO_AddRb_def frame_def addrb_loop_put_seq algebra_simps split: prod.split)
qed (simp add: PROTO_AddRb_def frame_def)

lemma uint_nonneg: "uint w \<noteq> -1"
  using uint_ge_0 [of w] by linarith

lemma PROTO_AddRb_spec:
  assumes "rb_ok r" and "PROTO_AddRb r packet = (i, r')"
  shows "rb_ok r'" and "rb_size r' = rb_size r"
    and "i \<noteq> -1 \<longleftrightarrow> fill_cnt r + length (frame packet) \<le> rb_size r"
    and "rb_contents r' = rb_contents r @ take (rb_size r - fill_cnt r) (frame packet)"
  using rb.put_seq_spec [OF assms(1), of "frame packet"] assms(2) uint_nonneg [of "of_nat (length (frame packet)) :: u16"]
  by (auto simp: PROTO_AddRb_put_seq [OF assms(1)] split: prod.splits if_splits)

subsection \<open>Reading\<close>

text \<open>The effect of a list of bytes on the parser, up to the first end byte.\<close>

definition parse_bytes :: "PROTO_PARSER \<Rightarrow> byte list \<Rightarrow> PROTO_PARSER" where
  "parse_bytes p vs = snd (PROTO_Parse p vs)"

lemma parse_bytes_simps [simp]:
  "parse_bytes p [] = p"
  "parse_bytes p (v # vs) = parse_bytes (snd (PROTO_ParseByte p v)) vs"
  by (simp_all add: parse_bytes_def)

lemma parse_bytes_append [simp]: "parse_bytes p (us @ vs) = parse_bytes (parse_bytes p us) vs"
  by (induction us arbitrary: p) simp_all

lemma PROTO_ParseByte_result: "fst (PROTO_ParseByte p v) = (if v = 0x7F then 0 else -1)"
  by (simp add: PROTO_ParseByte_def Let_def split: prod.split)

text \<open>The bytes of a parser's output so far.\<close>

definition parsed :: "PROTO_PARSER \<Rightarrow> byte list" where
  "parsed p = take (unat (dataLen p)) (buf p)"

definition parser_ok :: "PROTO_PARSER \<Rightarrow> bool" where
  "parser_ok p \<longleftrightarrow> dataLen p \<le> bufSize p \<and> unat (bufSize p) \<le> length (buf p)"

lemma PROTO_Init_ok: "unat n \<le> length b \<Longrightarrow> parser_ok (PROTO_Init st cb b n)"
  by (simp add: parser_ok_def PROTO_Init_def)

lemma PROTO_ParseByte_ok:
  assumes "parser_ok p"
  shows "parser_ok (snd (PROTO_ParseByte p v))" and "bufSize (snd (PROTO_ParseByte p v)) = bufSize p"
    and "length (buf (snd (PROTO_ParseByte p v))) = length (buf p)"
  using assms by (auto simp: parser_ok_def PROTO_ParseByte_def Let_def inc_le)

lemma parse_bytes_ok:
  assumes "parser_ok p"
  shows "parser_ok (parse_bytes p vs) \<and> bufSize (parse_bytes p vs) = bufSize p \<and>
    length (buf (parse_bytes p vs)) = length (buf p)"
  using assms
proof (induction vs arbitrary: p)
  case (Cons v vs)
  show ?case using Cons.IH [OF PROTO_ParseByte_ok(1) [OF Cons.prems, of v]] PROTO_ParseByte_ok [OF Cons.prems, of v]
    by simp
qed simp

text \<open>One data byte: stored while there is room, dropped after.\<close>

lemma parse_stuff:
  assumes "parser_ok p" and "isBegin p" and "\<not> isEsc p"
  shows "isBegin (parse_bytes p (stuff v))" and "\<not> isEsc (parse_bytes p (stuff v))"
    and "parsed (parse_bytes p (stuff v)) =
      (if length (parsed p) < unat (bufSize p) then parsed p @ [v] else parsed p)"
proof -
  have len: "length (parsed p) = unat (dataLen p)" "unat (dataLen p) \<le> unat (bufSize p)" "unat (bufSize p) \<le> length (buf p)"
    using assms(1) by (auto simp: parsed_def parser_ok_def word_le_nat_alt)
  have step: "parse_bytes p (stuff v) =
      (if dataLen p < bufSize p then p\<lparr>buf := (buf p)[unat (dataLen p) := v], dataLen := dataLen p + 1\<rparr> else p)"
    using assms(2,3) escaped_not_special [of v]
    by (auto simp: stuff_def PROTO_ParseByte_def Let_def special_def)
  show "isBegin (parse_bytes p (stuff v))" "\<not> isEsc (parse_bytes p (stuff v))"
    using assms(2,3) by (simp_all add: step)
  show "parsed (parse_bytes p (stuff v)) = (if length (parsed p) < unat (bufSize p) then parsed p @ [v] else parsed p)"
  proof (cases "dataLen p < bufSize p")
    case True
    then have "unat (dataLen p + 1) = Suc (unat (dataLen p))"
      by (rule unat_inc)
    with True len show ?thesis
      by (simp add: step parsed_def word_less_nat_alt take_Suc_conv_app_nth)
  qed (simp add: step len word_less_nat_alt)
qed

lemma parse_stuffs:
  assumes "parser_ok p" and "isBegin p" and "\<not> isEsc p"
  shows "parsed (parse_bytes p (concat (map stuff packet))) = take (unat (bufSize p)) (parsed p @ packet)"
  using assms
proof (induction packet arbitrary: p)
  case Nil
  then show ?case by (simp add: parsed_def parser_ok_def word_le_nat_alt)
next
  case (Cons v packet)
  note st = parse_stuff [OF Cons.prems, of v]
  have "bufSize (parse_bytes p (stuff v)) = bufSize p" "parser_ok (parse_bytes p (stuff v))"
    using parse_bytes_ok [OF Cons.prems(1)] by auto
  with Cons.IH [OF _ st(1,2)] st(3) have eq: "parsed (parse_bytes p (concat (map stuff (v # packet)))) =
      take (unat (bufSize p)) ((if length (parsed p) < unat (bufSize p) then parsed p @ [v] else parsed p) @ packet)"
    by simp
  show ?case
  proof (cases "length (parsed p) < unat (bufSize p)")
    case True
    then have "unat (bufSize p) - length (parsed p) = Suc (unat (bufSize p) - Suc (length (parsed p)))" by simp
    with True eq show ?thesis by simp
  qed (use eq in simp)
qed

text \<open>Whatever came before, a start byte begins a packet afresh.\<close>

lemma parse_frame:
  assumes "parser_ok p"
  shows "parsed (parse_bytes p (pre @ frame packet)) = take (unat (bufSize p)) packet"
proof -
  define q where "q = snd (PROTO_ParseByte (parse_bytes p pre) 0x7E)"
  have "parser_ok (parse_bytes p pre)" and size: "bufSize (parse_bytes p pre) = bufSize p"
    using parse_bytes_ok [OF assms] by auto
  then have "parser_ok q" "bufSize q = bufSize p"
    using PROTO_ParseByte_ok unfolding q_def by auto
  moreover have "isBegin q" "\<not> isEsc q" "parsed q = []"
    by (simp_all add: q_def PROTO_ParseByte_def parsed_def)
  ultimately have "parsed (parse_bytes q (concat (map stuff packet))) = take (unat (bufSize p)) packet"
    using parse_stuffs by simp
  moreover have "parsed (snd (PROTO_ParseByte u 0x7F)) = parsed u" for u
    by (simp add: PROTO_ParseByte_def parsed_def)
  ultimately show ?thesis by (simp add: frame_def q_def)
qed

lemma parse_rb_packet:
  assumes "rb_ok r" and "rb_contents r = pre @ 0x7F # rest" and "0x7F \<notin> set pre"
  shows "\<exists>r'. parse_rb r p = (True, r', parse_bytes p (pre @ [0x7F])) \<and> rb_ok r' \<and>
    rb_contents r' = rest \<and> rb_size r' = rb_size r"
  using assms
proof (induction pre arbitrary: r p)
  case Nil
  from Nil.prems obtain r' where "RINGBUF_Get r = Some (0x7F, r')" "rb_contents r' = rest" "rb_ok r'"
    "rb_size r' = rb_size r"
    by (auto elim: rb.get_hd)
  moreover from this PROTO_ParseByte_result [of p "0x7F"]
  have "parse_rb r p = (True, r', parse_bytes p [0x7F])"
    by (cases "PROTO_ParseByte p 0x7F") (simp add: parse_rb.simps [of r p])
  ultimately show ?case by auto
next
  case (Cons v pre)
  from Cons.prems(1,2) obtain r1 where r1: "RINGBUF_Get r = Some (v, r1)" "rb_contents r1 = pre @ 0x7F # rest"
    "rb_ok r1" "rb_size r1 = rb_size r"
    by (auto elim: rb.get_hd)
  from r1(1) Cons.prems(3) PROTO_ParseByte_result [of p v]
  have "parse_rb r p = parse_rb r1 (snd (PROTO_ParseByte p v))"
    by (cases "PROTO_ParseByte p v") (simp add: parse_rb.simps [of r p])
  with Cons.IH [OF r1(3,2), of "snd (PROTO_ParseByte p v)"] Cons.prems(3) r1(4) show ?case by simp
qed

lemma parse_rb_none:
  assumes "rb_ok r" and "0x7F \<notin> set (rb_contents r)"
  shows "\<exists>r'. parse_rb r p = (False, r', parse_bytes p (rb_contents r)) \<and> rb_ok r' \<and>
    rb_contents r' = [] \<and> rb_size r' = rb_size r"
  using assms
proof (induction "rb_contents r" arbitrary: r p)
  case Nil
  then have "RINGBUF_Get r = None" using rb.get_None by metis
  then have "parse_rb r p = (False, r, p)" by (subst parse_rb.simps) simp
  with Nil show ?case by simp
next
  case (Cons v vs)
  from Cons.prems(1) Cons.hyps(2) [symmetric] obtain r1 where r1: "RINGBUF_Get r = Some (v, r1)" "rb_contents r1 = vs"
    "rb_ok r1" "rb_size r1 = rb_size r"
    by (rule rb.get_hd)
  have v: "v \<noteq> 0x7F" "0x7F \<notin> set (rb_contents r1)" using Cons.prems(2) r1(2) by (auto simp flip: Cons.hyps(2))
  from r1(1) v(1) PROTO_ParseByte_result [of p v]
  have "parse_rb r p = parse_rb r1 (snd (PROTO_ParseByte p v))"
    by (cases "PROTO_ParseByte p v") (simp add: parse_rb.simps [of r p])
  with Cons.hyps(1) [OF r1(2) [symmetric] r1(3) v(2), of "snd (PROTO_ParseByte p v)"] r1(2,4) show ?case
    by (simp flip: Cons.hyps(2))
qed

subsection \<open>The packets a byte sequence holds\<close>

text \<open>
  Each packet is a frame behind bytes without an end mark; a frame that was cut off because the
  buffer was full is such a run of bytes.
\<close>

fun holds_packets :: "byte list \<Rightarrow> byte list list \<Rightarrow> bool" where
  "holds_packets xs [] \<longleftrightarrow> 0x7F \<notin> set xs"
| "holds_packets xs (p # ps) \<longleftrightarrow>
     (\<exists>pre rest. xs = pre @ frame p @ rest \<and> 0x7F \<notin> set pre \<and> holds_packets rest ps)"

lemma frame_body_no_end: "0x7F \<notin> set (0x7E # concat (map stuff packet))"
  using escaped_not_special by (auto simp: stuff_def special_def)

lemma cut_frame_no_end:
  assumes "n < length (frame packet)"
  shows "0x7F \<notin> set (take n (frame packet))"
proof -
  have "take n (frame packet) = take n (0x7E # concat (map stuff packet))"
    using assms by (simp add: frame_def take_Cons')
  then show ?thesis using frame_body_no_end by (metis in_set_takeD)
qed

lemma holds_packets_append_junk:
  assumes "holds_packets xs ps" and "0x7F \<notin> set ys"
  shows "holds_packets (xs @ ys) ps"
  using assms
proof (induction ps arbitrary: xs)
  case (Cons p ps)
  then obtain pre rest where "xs = pre @ frame p @ rest" "0x7F \<notin> set pre" "holds_packets rest ps" by auto
  with Cons have "xs @ ys = pre @ frame p @ (rest @ ys)" "holds_packets (rest @ ys) ps" by simp_all
  with \<open>0x7F \<notin> set pre\<close> show ?case by auto
qed simp

lemma holds_packets_append_frame:
  assumes "holds_packets xs ps"
  shows "holds_packets (xs @ frame p) (ps @ [p])"
  using assms
proof (induction ps arbitrary: xs)
  case Nil
  then show ?case by (simp, intro exI [of _ xs] exI [of _ "[]"]) simp
next
  case (Cons q ps)
  then obtain pre rest where "xs = pre @ frame q @ rest" "0x7F \<notin> set pre" "holds_packets rest ps" by auto
  with Cons have "xs @ frame p = pre @ frame q @ (rest @ frame p)" "holds_packets (rest @ frame p) (ps @ [p])" by simp_all
  with \<open>0x7F \<notin> set pre\<close> show ?case by auto
qed

lemma QUEUE_Puts_packets:
  assumes "rb_ok (rbuf q)" and "holds_packets (rb_contents (rbuf q)) ps" and "QUEUE_Puts q p = (i, q')"
  shows "rb_ok (rbuf q') \<and> holds_packets (rb_contents (rbuf q')) (if i = -1 then ps else ps @ [p])"
proof -
  from assms(3) have "PROTO_AddRb (rbuf q) p = (i, rbuf q')"
    by (auto simp: QUEUE_Puts_def split: prod.splits)
  note add = PROTO_AddRb_spec [OF assms(1) this]
  show ?thesis
  proof (cases "i = -1")
    case True
    with add(3) have "rb_size (rbuf q) - fill_cnt (rbuf q) < length (frame p)"
      using assms(1) unfolding rb_ok_def by linarith
    with add(1,4) True show ?thesis
      using assms(2) by (simp add: holds_packets_append_junk cut_frame_no_end)
  next
    case False
    with add(3) have "length (frame p) \<le> rb_size (rbuf q) - fill_cnt (rbuf q)" by simp
    with add(1,4) False show ?thesis
      using assms(2) by (simp add: holds_packets_append_frame)
  qed
qed

lemma QUEUE_Gets_packets:
  assumes "rb_ok (rbuf q)" and "holds_packets (rb_contents (rbuf q)) ps" and "unat maxLen \<le> length b"
    and "QUEUE_Gets stack q b len maxLen = (i, q', b', len')"
  shows "rb_ok (rbuf q') \<and> holds_packets (rb_contents (rbuf q')) (tl ps) \<and>
    (case ps of [] \<Rightarrow> i = -1 \<and> len' = len
     | p # _ \<Rightarrow> i = 0 \<and> take (unat len') b' = take (unat maxLen) p)"
proof -
  define p0 where "p0 = PROTO_Init stack False b maxLen"
  have p0: "parser_ok p0" "bufSize p0 = maxLen"
    using assms(3) PROTO_Init_ok by (auto simp: p0_def PROTO_Init_def)
  show ?thesis
  proof (cases ps)
    case Nil
    with assms(1,2) obtain r' where "parse_rb (rbuf q) p0 = (False, r', parse_bytes p0 (rb_contents (rbuf q)))"
      "rb_ok r'" "rb_contents r' = []"
      using parse_rb_none [of "rbuf q" p0] by auto
    with Nil assms(4) show ?thesis by (auto simp: QUEUE_Gets_def PROTO_ParseRb_def p0_def)
  next
    case (Cons p qs)
    with assms(2) obtain pre rest where
      c: "rb_contents (rbuf q) = pre @ frame p @ rest" "0x7F \<notin> set pre" "holds_packets rest qs" by auto
    define body where "body = pre @ 0x7E # concat (map stuff p)"
    have "rb_contents (rbuf q) = body @ 0x7F # rest" "0x7F \<notin> set body"
      using c(1,2) frame_body_no_end [of p] by (auto simp: body_def frame_def)
    then obtain r' where "parse_rb (rbuf q) p0 = (True, r', parse_bytes p0 (body @ [0x7F]))"
      "rb_ok r'" "rb_contents r' = rest"
      using parse_rb_packet [OF assms(1)] by blast
    moreover have "body @ [0x7F] = pre @ frame p" by (simp add: body_def frame_def)
    ultimately show ?thesis
      using assms(4) Cons c(3) parse_frame [OF p0(1), of pre p] p0(2)
      by (auto simp: QUEUE_Gets_def PROTO_ParseRb_def parsed_def simp flip: p0_def)
  qed
qed

section \<open>Properties\<close>

text \<open>A history of queue calls and what they returned.\<close>

datatype qop = Puts "byte list" | Gets PROTO_PARSER "byte list" u16 u16
datatype qres = Put_res int | Get_res int "byte list"

fun run_queue :: "qop list \<Rightarrow> QUEUE \<Rightarrow> qres list" where
  "run_queue [] q = []"
| "run_queue (Puts p # ops) q = (case QUEUE_Puts q p of (i, q) \<Rightarrow> Put_res i # run_queue ops q)"
| "run_queue (Gets stack b len maxLen # ops) q =
     (case QUEUE_Gets stack q b len maxLen of
        (i, q, b, n) \<Rightarrow> Get_res i (take (unat n) b) # run_queue ops q)"

text \<open>What a queue of packets answers: an accepted packet joins the end, a read takes the first.\<close>

fun queue_answers :: "qop list \<Rightarrow> qres list \<Rightarrow> byte list list \<Rightarrow> bool" where
  "queue_answers [] [] ps \<longleftrightarrow> True"
| "queue_answers (Puts p # ops) (Put_res i # rs) ps \<longleftrightarrow>
     queue_answers ops rs (if i = -1 then ps else ps @ [p])"
| "queue_answers (Gets stack b len maxLen # ops) (Get_res i out # rs) ps \<longleftrightarrow>
     (case ps of
        [] \<Rightarrow> i = -1 \<and> queue_answers ops rs []
      | p # ps \<Rightarrow> i = 0 \<and> out = take (unat maxLen) p \<and> queue_answers ops rs ps)"
| "queue_answers _ _ _ \<longleftrightarrow> False"

fun qop_ok :: "qop \<Rightarrow> bool" where
  "qop_ok (Puts p) \<longleftrightarrow> True"
| "qop_ok (Gets stack b len maxLen) \<longleftrightarrow> unat maxLen \<le> length b"

lemma run_queue_answers:
  assumes "rb_ok (rbuf q)" and "holds_packets (rb_contents (rbuf q)) ps" and "list_all qop_ok ops"
  shows "queue_answers ops (run_queue ops q) ps"
  using assms
proof (induction ops arbitrary: q ps)
  case (Cons op ops)
  show ?case
  proof (cases op)
    case (Puts p)
    obtain i q' where "QUEUE_Puts q p = (i, q')" by fastforce
    with Puts Cons QUEUE_Puts_packets [OF Cons.prems(1,2)] show ?thesis by simp
  next
    case (Gets stack b len maxLen)
    obtain i q' b' n where "QUEUE_Gets stack q b len maxLen = (i, q', b', n)" by (metis prod_cases4)
    with Gets Cons QUEUE_Gets_packets [OF Cons.prems(1,2) _ this] show ?thesis
      by (cases ps) simp_all
  qed
qed simp



text \<open>A packet is accepted exactly when its frame fits: the call returns the frame length
  (at 16 bits) and appends the whole frame, or returns -1 and appends as much of the frame as there
  was room for. The invariant of the ring buffer is kept in both cases.\<close>

theorem QUEUE_Puts_accepts:
  assumes "rb_ok (rbuf q)"
  shows "\<exists>i q'. QUEUE_Puts q packet = (i, q') \<and> rb_ok (rbuf q') \<and>
    (let room = rb_size (rbuf q) - fill_cnt (rbuf q); n = length (frame packet) in
     i = (if n \<le> room then int (n mod 2 ^ 16) else -1) \<and>
     rb_contents (rbuf q') = rb_contents (rbuf q) @ take room (frame packet))"
proof -
  obtain i r where add: "PROTO_AddRb (rbuf q) packet = (i, r)" by fastforce
  note spec = PROTO_AddRb_spec [OF assms add]
  have "i = -1 \<or> i = uint (of_nat (length (frame packet)) :: u16)"
    using add by (auto simp: PROTO_AddRb_put_seq [OF assms] split: prod.splits)
  moreover have "uint (of_nat (length (frame packet)) :: u16) = int (length (frame packet) mod 2 ^ 16)"
    by (simp add: uint_nat unat_of_nat take_bit_eq_mod)
  moreover have "length (frame packet) \<le> rb_size (rbuf q) - fill_cnt (rbuf q) \<longleftrightarrow>
      fill_cnt (rbuf q) + length (frame packet) \<le> rb_size (rbuf q)"
    using assms unfolding rb_ok_def by linarith
  ultimately show ?thesis
    using add spec by (auto simp: QUEUE_Puts_def Let_def)
qed

theorem QUEUE_Puts_accepts_witness:
  "rb_ok \<lparr>p_o = [0, 0, 0, 0], p_r = 3, p_w = 1, fill_cnt = 2, rb_size = 4\<rparr> \<and>
   fst (QUEUE_Puts \<lparr>qbuf = [], rbuf = \<lparr>p_o = [0, 0, 0, 0], p_r = 3, p_w = 1, fill_cnt = 2, rb_size = 4\<rparr>\<rparr> [7]) = -1"
proof -
  have ok: "rb_ok \<lparr>p_o = [0, 0, 0, 0], p_r = 3, p_w = 1, fill_cnt = 2, rb_size = 4\<rparr>"
    by (simp add: rb_ok_def)
  show ?thesis
    using QUEUE_Puts_accepts [of "\<lparr>qbuf = [], rbuf = \<lparr>p_o = [0, 0, 0, 0], p_r = 3, p_w = 1, fill_cnt = 2, rb_size = 4\<rparr>\<rparr>" "[7]"] ok
    by (auto simp: Let_def frame_def stuff_def special_def)
qed

subsection \<open>Framing into a plain buffer\<close>

lemma add_loop_spec:
  assumes "len \<le> length packet" and "0 \<le> n"
  shows "\<exists>i w. add_loop len packet n k out = Some (i, out @ w) \<and> int (length w) \<le> n \<and>
    (let body = concat (map stuff (take len packet)) in
     if int (length body) + 1 \<le> n then w = body @ [0x7F] \<and> i = uint (k + of_nat (length body))
     else i = -1 \<and> prefix w body)"
  using assms
proof (induction len packet n k out rule: add_loop.induct)
  case (3 len v packet n i out)
  show ?case
  proof (cases "special v")
    case True
    then have st: "stuff v = [0x7D, v XOR 0x20]" by (simp add: stuff_def)
    show ?thesis
    proof (cases "n < 2")
      case True
      with \<open>special v\<close> 3 st show ?thesis by (auto simp: special_def Let_def)
    next
      case False
      with \<open>special v\<close> 3 obtain j w where
        "add_loop len packet (n - 2) (i + 2) (out @ [0x7D, v XOR 0x20]) = Some (j, (out @ [0x7D, v XOR 0x20]) @ w)"
        "int (length w) \<le> n - 2"
        "let body = concat (map stuff (take len packet)) in
         if int (length body) + 1 \<le> n - 2 then w = body @ [0x7F] \<and> j = uint (i + 2 + of_nat (length body))
         else j = -1 \<and> prefix w body"
        by (auto simp: special_def)
      with \<open>special v\<close> False st show ?thesis
        by (auto simp: special_def Let_def add.assoc intro!: exI [of _ "stuff v @ w"] split: if_splits)
    qed
  next
    case False
    then have st: "stuff v = [v]" by (simp add: stuff_def)
    show ?thesis
    proof (cases "n < 1")
      case True
      with \<open>\<not> special v\<close> 3 st show ?thesis by (auto simp: special_def Let_def)
    next
      case F: False
      with False 3 obtain j w where
        "add_loop len packet (n - 1) (i + 1) (out @ [v]) = Some (j, (out @ [v]) @ w)"
        "int (length w) \<le> n - 1"
        "let body = concat (map stuff (take len packet)) in
         if int (length body) + 1 \<le> n - 1 then w = body @ [0x7F] \<and> j = uint (i + 1 + of_nat (length body))
         else j = -1 \<and> prefix w body"
        by (auto simp: special_def)
      with False F st show ?thesis
        by (auto simp: special_def Let_def add.assoc intro!: exI [of _ "v # w"] split: if_splits)
    qed
  qed
qed (auto simp: Let_def)

text \<open>Framing into a plain buffer. For a packet that is as long as its two length bytes say, \<^verbatim>\<open>PROTO_Add\<close>
  never writes more bytes than the buffer has. It returns -1 exactly when the frame of the packet
  (length bytes included) does not fit; otherwise the frame is written, its length returned, and a
  parser of any earlier state that is fed the bytes has stored the packet, cut to its own buffer.\<close>

theorem PROTO_Add_frame:
  assumes "packet = lo # hi # data" and "len = unat lo + 256 * unat hi" and "len \<le> length packet" and "0 \<le> n"
    and "unat m \<le> length b"
  shows "\<exists>i out. PROTO_Add packet n = Some (i, out) \<and> int (length out) \<le> n \<and>
    (if int (length (frame (take len packet))) \<le> n
     then i = int (length (frame (take len packet)) mod 2 ^ 16) \<and> out = frame (take len packet) \<and>
       parsed (snd (PROTO_Parse (PROTO_Init st cb b m) out)) = take (unat m) (take len packet)
     else i = -1)"
proof (cases "n < 1")
  case True
  with assms(1,4) show ?thesis by (simp add: PROTO_Add_def frame_def)
next
  case False
  define body where "body = concat (map stuff (take len packet))"
  have add: "PROTO_Add packet n = add_loop len packet (n - 1) 2 [0x7E]"
    using False by (simp add: PROTO_Add_def assms(1,2))
  from False obtain i w where w: "add_loop len packet (n - 1) 2 [0x7E] = Some (i, [0x7E] @ w)" "int (length w) \<le> n - 1"
    "if int (length body) + 1 \<le> n - 1 then w = body @ [0x7F] \<and> i = uint (2 + of_nat (length body) :: u16) else i = -1 \<and> prefix w body"
    using add_loop_spec [OF assms(3), of "n - 1" 2 "[0x7E]"] by (auto simp: body_def Let_def)
  have frame: "frame (take len packet) = 0x7E # body @ [0x7F]" by (simp add: frame_def body_def)
  have parse: "parsed (snd (PROTO_Parse (PROTO_Init st cb b m) (0x7E # body @ [0x7F]))) = take (unat m) (take len packet)"
  proof -
    have "bufSize (PROTO_Init st cb b m) = m" by (simp add: PROTO_Init_def)
    with parse_frame [OF PROTO_Init_ok [OF assms(5), of st cb], of "[]" "take len packet"] show ?thesis
      by (simp only: parse_bytes_def frame append_Nil)
  qed
  have "uint (2 + of_nat (length body) :: u16) = int ((2 + length body) mod 2 ^ 16)"
    using uint_of_nat_mod [of "2 + length body", where 'w = 16] by simp
  with w add parse show ?thesis by (auto simp: frame)
qed

theorem PROTO_Add_frame_witness:
  "PROTO_Add [4, 0, 0x7E, 9] 10 = Some (7, [0x7E, 4, 0, 0x7D, 0x5E, 9, 0x7F]) \<and>
   PROTO_Add [4, 0, 0x7E, 9] 4 = Some (-1, [0x7E, 4, 0])"
proof -
  let ?g = "\<lparr>buf = [], bufSize = 0, dataLen = 5, isEsc = True, isBegin = True, callback = False, fired = 0\<rparr>"
  have f: "frame [4, 0, 0x7E, 9] = [0x7E, 4, 0, 0x7D, 0x5E, 9, 0x7F]"
    by (simp add: frame_def stuff_def special_def)
  have "PROTO_Add [4, 0, 0x7E, 9] 10 = Some (7, [0x7E, 4, 0, 0x7D, 0x5E, 9, 0x7F])"
    using PROTO_Add_frame [of "[4, 0, 0x7E, 9]" 4 0 "[0x7E, 9]" 4 10 0 "[]" ?g False] by (simp add: f)
  moreover have "PROTO_Add [4, 0, 0x7E, 9] 4 = Some (-1, [0x7E, 4, 0])" by code_simp
  ultimately show ?thesis by simp
qed

end
