(* ===== verification/TaskScheduler.thy ===== *)
theory TaskScheduler
  imports Prelude "HOL-Library.Multiset" "HOL-Library.Sublist"
begin

text \<open>
  The cooperative scheduler of \<^verbatim>\<open>utility/TaskScheduler.cpp\<close>: registration and identifiers, signals, the
  score of a task, the order of a tick, the tick itself and the removal of expired tasks. Times are
  64-bit words that wrap; an \<^verbatim>\<open>int\<close> has 32 bits. Callbacks, clocks and the device's yield are
  an environment acting on an abstract world; a callback may change the scheduler. A reference into
  the task vector is an index: the vector keeps its place up to the capacity it reserves.
\<close>

section \<open>Model\<close>

subsection \<open>Data\<close>

datatype task_mode_t = TASK_MODE_INLINE | TASK_MODE_COOPERATIVE | TASK_MODE_PREEMPTIVE
datatype task_policy_t = TASK_POLICY_FIFO | TASK_POLICY_ROUNDROBIN | TASK_POLICY_DEADLINE | TASK_POLICY_FAIRSHARE
datatype task_state_t = TASK_STATE_READY | TASK_STATE_RUNNING | TASK_STATE_SLEEPING | TASK_STATE_STOPPED | TASK_STATE_ZOMBIE

text \<open>Signals travel as bytes (\<^verbatim>\<open>enum Signal : uint8_t\<close>).\<close>

abbreviation (input) "SIG_NONE \<equiv> (0 :: u8)"
abbreviation (input) "SIG_KILL \<equiv> (9 :: u8)"
abbreviation (input) "SIG_TERM \<equiv> (15 :: u8)"
abbreviation (input) "SIG_CONT \<equiv> (18 :: u8)"
abbreviation (input) "SIG_STOP \<equiv> (19 :: u8)"

text \<open>A callback is named by a number; \<open>None\<close> is the null callback.\<close>

record task_t =
  m_task_id :: int
  m_max_attempts :: int
  m_duration :: u64
  m_last_millis :: u64
  m_task :: "nat option"
  m_task_priority :: u8
  m_task_exec_us :: u32
  m_task_mode :: task_mode_t
  m_task_policy :: task_policy_t
  m_name :: "string option"
  m_owner :: u8
  m_state :: task_state_t
  m_nice :: int
  m_created_ms :: u64
  m_run_count :: u32
  m_total_exec_us :: u64
  m_pending_sig :: u8

definition clear_task :: task_t where
  "clear_task = \<lparr>m_task_id = -1, m_max_attempts = 0, m_duration = 0, m_last_millis = 0, m_task = None,
     m_task_priority = 0, m_task_exec_us = 0, m_task_mode = TASK_MODE_INLINE,
     m_task_policy = TASK_POLICY_FIFO, m_name = None, m_owner = 0, m_state = TASK_STATE_READY,
     m_nice = 0, m_created_ms = 0, m_run_count = 0, m_total_exec_us = 0, m_pending_sig = SIG_NONE\<rparr>"

text \<open>\<open>m_util\<close> says whether the utility interface has been set.\<close>

record sched =
  m_tasks :: "task_t list"
  m_max_tasks :: u8
  m_rebase_start_priotask :: bool
  m_util :: bool

definition TaskScheduler :: sched where
  "TaskScheduler = \<lparr>m_tasks = [], m_max_tasks = 25, m_rebase_start_priotask = False, m_util = False\<rparr>"

subsection \<open>Registration\<close>

fun find_task :: "task_t list \<Rightarrow> int \<Rightarrow> nat \<Rightarrow> int" where
  "find_task [] tid i = -1"
| "find_task (t # ts) tid i = (if m_task_id t = tid then int i else find_task ts tid (Suc i))"

definition is_registered_task :: "sched \<Rightarrow> int \<Rightarrow> int" where
  "is_registered_task s tid = find_task (m_tasks s) tid 0"

definition get_task :: "sched \<Rightarrow> int \<Rightarrow> task_t option" where
  "get_task s tid = find (\<lambda>t. m_task_id t = tid) (m_tasks s)"

definition get_unique_task_id :: "sched \<Rightarrow> int" where
  "get_unique_task_id s =
     (case find (\<lambda>i. \<not> list_ex (\<lambda>t. m_task_id t = i) (m_tasks s)) [1..uint (m_max_tasks s) - 1] of
        None \<Rightarrow> -1 | Some i \<Rightarrow> i)"

definition register_task ::
  "u64 \<Rightarrow> nat option \<Rightarrow> u64 \<Rightarrow> u8 \<Rightarrow> u64 \<Rightarrow> int \<Rightarrow> string option \<Rightarrow> u8 \<Rightarrow> sched \<Rightarrow> int \<times> sched" where
  "register_task now fn duration priority lst max_attempts name owner s =
     (if length (m_tasks s) < unat (m_max_tasks s)
      then
        (let t = clear_task\<lparr>m_task := fn, m_duration := duration, m_task_priority := priority,
                   m_last_millis := lst, m_max_attempts := max_attempts, m_task_exec_us := 0,
                   m_task_id := get_unique_task_id s, m_state := TASK_STATE_SLEEPING,
                   m_created_ms := (if m_util s then now else 0), m_name := name, m_owner := owner\<rparr>
         in (m_task_id t, s\<lparr>m_tasks := m_tasks s @ [t]\<rparr>))
      else (-1, s))"

definition upd :: "nat \<Rightarrow> (task_t \<Rightarrow> task_t) \<Rightarrow> sched \<Rightarrow> sched" where
  "upd k f s = s\<lparr>m_tasks := (m_tasks s)[k := f (m_tasks s ! k)]\<rparr>"

definition updateInterval ::
  "u64 \<Rightarrow> int \<Rightarrow> nat option \<Rightarrow> u64 \<Rightarrow> u8 \<Rightarrow> u64 \<Rightarrow> int \<Rightarrow> string option \<Rightarrow> u8 \<Rightarrow> sched \<Rightarrow> int \<times> sched" where
  "updateInterval now tid fn duration priority lst max_attempts name owner s =
     (let i = is_registered_task s tid in
      if i > -1 then
        (tid, upd (nat i) (\<lambda>t. t\<lparr>m_task := fn, m_duration := duration, m_task_priority := priority,
           m_last_millis := (if lst = 0 then m_last_millis t else lst),
           m_max_attempts := max_attempts,
           m_name := (if name \<noteq> None then name else m_name t), m_owner := owner\<rparr>) s)
      else register_task now fn duration priority lst max_attempts name owner s)"

definition setTimeout :: "u64 \<Rightarrow> nat option \<Rightarrow> u64 \<Rightarrow> u64 \<Rightarrow> u8 \<Rightarrow> string option \<Rightarrow> u8 \<Rightarrow> sched \<Rightarrow> int \<times> sched" where
  "setTimeout now fn duration now_millis priority name owner s =
     register_task now fn duration priority now_millis 1 name owner s"

definition updateTimeout :: "u64 \<Rightarrow> int \<Rightarrow> nat option \<Rightarrow> u64 \<Rightarrow> u64 \<Rightarrow> u8 \<Rightarrow> sched \<Rightarrow> int \<times> sched" where
  "updateTimeout now tid fn duration now_millis priority s =
     updateInterval now tid fn duration priority now_millis 1 None 0 s"

definition setInterval :: "u64 \<Rightarrow> nat option \<Rightarrow> u64 \<Rightarrow> u64 \<Rightarrow> u8 \<Rightarrow> string option \<Rightarrow> u8 \<Rightarrow> sched \<Rightarrow> int \<times> sched" where
  "setInterval now fn duration now_millis priority name owner s =
     register_task now fn duration priority now_millis (-1) name owner s"

definition remove_task :: "int \<Rightarrow> sched \<Rightarrow> bool \<times> sched" where
  "remove_task tid s =
     (list_ex (\<lambda>t. m_task_id t = tid) (m_tasks s),
      s\<lparr>m_tasks := map (\<lambda>t. if m_task_id t = tid
           then t\<lparr>m_duration := 10, m_task_priority := 0, m_max_attempts := 0, m_task := None,
                  m_state := TASK_STATE_ZOMBIE\<rparr> else t) (m_tasks s)\<rparr>)"

definition clearTimeout :: "int \<Rightarrow> sched \<Rightarrow> bool \<times> sched" where
  "clearTimeout tid s = remove_task tid s"

definition clearInterval :: "int \<Rightarrow> sched \<Rightarrow> bool \<times> sched" where
  "clearInterval tid s = remove_task tid s"

definition setMaxTasksLimit :: "u8 \<Rightarrow> sched \<Rightarrow> sched" where
  "setMaxTasksLimit n s = s\<lparr>m_max_tasks := n\<rparr>"

definition setUtilityInterface :: "bool \<Rightarrow> sched \<Rightarrow> sched" where
  "setUtilityInterface u s = s\<lparr>m_util := u\<rparr>"

definition rebaseAndRestartPrioTasks :: "sched \<Rightarrow> sched" where
  "rebaseAndRestartPrioTasks s = s\<lparr>m_rebase_start_priotask := True\<rparr>"

text \<open>The setters of one task, found by its identifier.\<close>

definition with_task :: "int \<Rightarrow> (task_t \<Rightarrow> task_t) \<Rightarrow> sched \<Rightarrow> bool \<times> sched" where
  "with_task tid f s = (let i = is_registered_task s tid in if i < 0 then (False, s) else (True, upd (nat i) f s))"

definition setTaskName :: "int \<Rightarrow> string option \<Rightarrow> sched \<Rightarrow> bool \<times> sched" where
  "setTaskName tid name = with_task tid (\<lambda>t. t\<lparr>m_name := name\<rparr>)"

definition setTaskOwner :: "int \<Rightarrow> u8 \<Rightarrow> sched \<Rightarrow> bool \<times> sched" where
  "setTaskOwner tid owner = with_task tid (\<lambda>t. t\<lparr>m_owner := owner\<rparr>)"

definition setTaskNice :: "int \<Rightarrow> int \<Rightarrow> sched \<Rightarrow> bool \<times> sched" where
  "setTaskNice tid nice =
     with_task tid (\<lambda>t. t\<lparr>m_nice := (let nice = (if nice < -20 then -20 else nice) in if nice > 19 then 19 else nice)\<rparr>)"

definition getTaskOwner :: "int \<Rightarrow> sched \<Rightarrow> u8" where
  "getTaskOwner tid s = (let i = is_registered_task s tid in if i < 0 then 0 else m_owner (m_tasks s ! nat i))"

definition sendSignal :: "int \<Rightarrow> u8 \<Rightarrow> sched \<Rightarrow> bool \<times> sched" where
  "sendSignal tid sig = with_task tid (\<lambda>t. t\<lparr>m_pending_sig := sig\<rparr>)"

definition signalled :: "string \<Rightarrow> u8 \<Rightarrow> bool \<Rightarrow> task_t \<Rightarrow> bool" where
  "signalled name requester is_root t \<longleftrightarrow>
     m_state t \<noteq> TASK_STATE_ZOMBIE \<and> m_name t = Some name \<and> (is_root \<or> m_owner t = requester)"

definition sendSignalByName :: "string option \<Rightarrow> u8 \<Rightarrow> u8 \<Rightarrow> bool \<Rightarrow> sched \<Rightarrow> nat \<times> sched" where
  "sendSignalByName name sig requester is_root s =
     (case name of
        None \<Rightarrow> (0, s)
      | Some nm \<Rightarrow>
          if nm = [] then (0, s)
          else (length (filter (signalled nm requester is_root) (m_tasks s)),
                s\<lparr>m_tasks := map (\<lambda>t. if signalled nm requester is_root t then t\<lparr>m_pending_sig := sig\<rparr> else t) (m_tasks s)\<rparr>))"

subsection \<open>Scores and the order of a tick\<close>

text \<open>
  The floating-point platform: \<open>fp_log\<close> is the C expression \<^verbatim>\<open>(int)floor(log2((double)x + 1.0))\<close> where
  rounding or a negative argument decides it, \<open>fp_int\<close> the conversion of a \<^verbatim>\<open>double\<close> outside the
  range of \<^verbatim>\<open>int\<close>. Below \<open>2 ^ 47\<close> doubles of 53 bits compute the logarithm exactly.
\<close>

record platform =
  fp_log :: "int \<Rightarrow> int"
  fp_int :: "int \<Rightarrow> int"

fun ilog2 :: "nat \<Rightarrow> nat" where
  "ilog2 n = (if n < 2 then 0 else Suc (ilog2 (n div 2)))"

declare ilog2.simps [simp del]

definition flog2 :: "platform \<Rightarrow> int \<Rightarrow> int" where
  "flog2 P x = (if 0 \<le> x \<and> x < 2 ^ 47 then int (ilog2 (nat x + 1)) else fp_log P x)"

definition double_to_int :: "platform \<Rightarrow> int \<Rightarrow> int" where
  "double_to_int P x = (if - (2 ^ 31) \<le> x \<and> x < 2 ^ 31 then x else fp_int P x)"

definition next_due :: "task_t \<Rightarrow> u64" where
  "next_due t = m_last_millis t + m_duration t"

definition policy_boost :: "task_policy_t \<Rightarrow> int" where
  "policy_boost p = (case p of TASK_POLICY_DEADLINE \<Rightarrow> 640 | TASK_POLICY_FAIRSHARE \<Rightarrow> 480 | _ \<Rightarrow> 320)"

text \<open>Division of \<^verbatim>\<open>int\<close> by a positive constant, towards zero.\<close>

definition cdiv :: "int \<Rightarrow> int \<Rightarrow> int" where
  "cdiv a b = (if a \<ge> 0 then a div b else - (- a div b))"

definition policy_part :: "platform \<Rightarrow> task_t \<Rightarrow> u64 \<Rightarrow> int" where
  "policy_part P t now =
     (let overdue = now \<ge> next_due t;
          lateness = (if overdue then now - next_due t else 0);
          earlyness = (if overdue then 0 else sint (next_due t - now));
          recentness = sint (now - m_last_millis t);
          policy_cap = 50
      in case m_task_policy t of
           TASK_POLICY_ROUNDROBIN \<Rightarrow> min (flog2 P recentness) policy_cap
         | TASK_POLICY_DEADLINE \<Rightarrow> max 0 (policy_cap - min (flog2 P earlyness) policy_cap)
         | TASK_POLICY_FAIRSHARE \<Rightarrow> max 0 (policy_cap - min (flog2 P (uint (m_task_exec_us t))) policy_cap)
         | TASK_POLICY_FIFO \<Rightarrow> min (cdiv (sint (ucast lateness :: 32 word)) 100) policy_cap)"

definition computeScore :: "platform \<Rightarrow> task_t \<Rightarrow> u64 \<Rightarrow> int" where
  "computeScore P t now =
     (let priority_weight = 100; effective_priority = uint (m_task_priority t) - m_nice t
      in double_to_int P (effective_priority * priority_weight + policy_boost (m_task_policy t) * policy_part P t now))"

definition swap_needed :: "platform \<Rightarrow> u64 \<Rightarrow> task_t \<Rightarrow> task_t \<Rightarrow> bool" where
  "swap_needed P now ti tj =
     (let si = computeScore P ti now; sj = computeScore P tj now in
      if si \<noteq> sj then sj > si
      else if abs (sint (next_due ti - next_due tj)) > 3 then next_due tj < next_due ti
      else m_task_exec_us ti > m_task_exec_us tj)"

text \<open>One turn of the inner loop of the exchange sort over the index array, then both loops.\<close>

definition exchange :: "(nat \<Rightarrow> nat \<Rightarrow> bool) \<Rightarrow> nat \<Rightarrow> nat \<Rightarrow> nat list \<Rightarrow> nat list" where
  "exchange swp i j xs = (if swp (xs ! i) (xs ! j) then xs[i := xs ! j, j := xs ! i] else xs)"

definition exchange_pass :: "(nat \<Rightarrow> nat \<Rightarrow> bool) \<Rightarrow> nat \<Rightarrow> nat \<Rightarrow> nat list \<Rightarrow> nat list" where
  "exchange_pass swp n i xs = fold (exchange swp i) [Suc i..<n] xs"

definition getSortedTaskList :: "platform \<Rightarrow> u64 \<Rightarrow> task_t list \<Rightarrow> nat list" where
  "getSortedTaskList P now ts =
     fold (exchange_pass (\<lambda>a b. swap_needed P now (ts ! a) (ts ! b)) (length ts)) [0..<length ts] [0..<length ts]"

subsection \<open>A tick\<close>

record 'w env =
  millis_now :: "'w \<Rightarrow> u64 \<times> 'w"
  micros_now :: "'w \<Rightarrow> u64 \<times> 'w"
  dev_yield :: "'w \<Rightarrow> 'w"
  call :: "nat \<Rightarrow> 'w \<times> sched \<Rightarrow> 'w \<times> sched"

text \<open>The pending signal of a task is consumed; the flag says that the task was killed.\<close>

definition consume_signal :: "task_t \<Rightarrow> task_t \<times> bool" where
  "consume_signal t =
     (let sig = m_pending_sig t; t = t\<lparr>m_pending_sig := SIG_NONE\<rparr> in
      if sig = SIG_KILL \<or> sig = SIG_TERM
      then (t\<lparr>m_task := None, m_max_attempts := 0, m_state := TASK_STATE_ZOMBIE\<rparr>, True)
      else if sig = SIG_STOP then (t\<lparr>m_state := TASK_STATE_STOPPED\<rparr>, False)
      else if sig = SIG_CONT \<and> m_state t = TASK_STATE_STOPPED then (t\<lparr>m_state := TASK_STATE_SLEEPING\<rparr>, False)
      else (t, False))"

text \<open>The catch-up loop runs at most four rounds (the first argument).\<close>

fun catchup :: "nat \<Rightarrow> u64 \<Rightarrow> u64 \<Rightarrow> u64 \<Rightarrow> u64" where
  "catchup 0 start duration lst = lst"
| "catchup (Suc n) start duration lst =
     (if start - lst \<ge> duration then catchup n start duration (lst + duration) else lst)"

definition due :: "u64 \<Rightarrow> task_t \<Rightarrow> bool" where
  "due start t \<longleftrightarrow> m_max_attempts t \<noteq> 0 \<and> start - m_last_millis t \<ge> m_duration t"

definition run_callback :: "'w env \<Rightarrow> nat \<Rightarrow> nat \<Rightarrow> 'w \<times> sched \<Rightarrow> 'w \<times> sched" where
  "run_callback E f k = (\<lambda>(w, s).
     let s = upd k (\<lambda>t. t\<lparr>m_state := TASK_STATE_RUNNING\<rparr>) s;
         (us0, w) = micros_now E w;
         (w, s) = call E f (w, s);
         (us1, w) = micros_now E w;
         exec = ucast (us1 - us0) :: u32
     in (w, upd k (\<lambda>t. t\<lparr>m_task_exec_us := exec, m_total_exec_us := m_total_exec_us t + ucast exec,
                          m_run_count := m_run_count t + 1, m_state := TASK_STATE_SLEEPING\<rparr>) s))"

definition settle :: "u64 \<Rightarrow> task_t \<Rightarrow> task_t" where
  "settle start t =
     (let t = t\<lparr>m_last_millis := (if m_last_millis t = 0 then start
                                  else catchup 4 start (m_duration t) (m_last_millis t))\<rparr>;
          t = t\<lparr>m_max_attempts := (if m_max_attempts t > 0 then m_max_attempts t - 1 else m_max_attempts t)\<rparr>
      in if m_max_attempts t = 0 then t\<lparr>m_state := TASK_STATE_ZOMBIE\<rparr> else t)"

definition dispatch :: "'w env \<Rightarrow> u64 \<Rightarrow> nat \<Rightarrow> 'w \<times> sched \<Rightarrow> 'w \<times> sched" where
  "dispatch E start k = (\<lambda>(w, s).
     let t = m_tasks s ! k in
     if due start t
     then (let (w, s) = (case m_task t of None \<Rightarrow> (w, s) | Some f \<Rightarrow> run_callback E f k (w, s))
           in (w, upd k (settle start) s))
     else (w, s))"

text \<open>The loop over the sorted indices. \<open>ctx\<close> is the build option for contextual execution, under
  which tasks of another mode are left to their own scheduler.\<close>

fun tick :: "'w env \<Rightarrow> bool \<Rightarrow> nat list \<Rightarrow> 'w \<times> sched \<Rightarrow> 'w \<times> sched" where
  "tick E ctx [] ws = ws"
| "tick E ctx (k # ks) (w, s) =
     (let (start, w) = millis_now E w in
      if ctx \<and> m_task_mode (m_tasks s ! k) \<noteq> TASK_MODE_INLINE then tick E ctx ks (w, s)
      else
        (let (t, killed) = consume_signal (m_tasks s ! k); s = upd k (\<lambda>_. t) s in
         if killed \<or> m_state t = TASK_STATE_STOPPED then tick E ctx ks (w, s)
         else
           (let s = upd k (\<lambda>t. if start < m_last_millis t then t\<lparr>m_last_millis := start\<rparr> else t) s;
                (w, s) = dispatch E start k (w, s);
                w = (if m_util s then dev_yield E w else w)
            in if m_rebase_start_priotask s then (w, s\<lparr>m_rebase_start_priotask := False\<rparr>)
               else tick E ctx ks (w, s))))"

text \<open>The removal loop advances its index after an erase as well.\<close>

fun remove_expired :: "task_t list \<Rightarrow> task_t list" where
  "remove_expired [] = []"
| "remove_expired [t] = (if m_max_attempts t = 0 then [] else [t])"
| "remove_expired (t # u # ts) =
     (if m_max_attempts t = 0 then u # remove_expired ts else t # remove_expired (u # ts))"

definition remove_expired_tasks :: "sched \<Rightarrow> sched" where
  "remove_expired_tasks s = s\<lparr>m_tasks := remove_expired (m_tasks s)\<rparr>"

definition handle_tasks :: "platform \<Rightarrow> 'w env \<Rightarrow> bool \<Rightarrow> 'w \<times> sched \<Rightarrow> 'w \<times> sched" where
  "handle_tasks P E ctx = (\<lambda>(w, s).
     if \<not> m_util s then (w, s)
     else
       (let (now, w) = millis_now E w;
            ks = getSortedTaskList P now (m_tasks s);
            (w, s) = tick E ctx ks (w, s\<lparr>m_rebase_start_priotask := True\<rparr>)
        in (w, remove_expired_tasks s)))"

section \<open>The order of a tick\<close>

lemma length_exchange [simp]: "length (exchange swp i j xs) = length xs"
  by (simp add: exchange_def)

lemma length_exchange_fold [simp]: "length (fold (exchange swp i) js xs) = length xs"
  by (induction js arbitrary: xs) simp_all

lemma length_exchange_pass [simp]: "length (exchange_pass swp n i xs) = length xs"
  by (simp add: exchange_pass_def)

lemma mset_exchange:
  assumes "i < length xs" and "j < length xs"
  shows "mset (exchange swp i j xs) = mset xs"
  using mset_swap [OF assms(2,1)] by (simp add: exchange_def)

text \<open>What a comparison must satisfy for the exchange sort to order by a key.\<close>

locale exchange_order =
  fixes key :: "nat \<Rightarrow> int"
    and swp :: "nat \<Rightarrow> nat \<Rightarrow> bool"
  assumes swap_up: "swp a b \<Longrightarrow> key a \<le> key b"
    and keep_down: "\<not> swp a b \<Longrightarrow> key b \<le> key a"
begin

lemma exchange_keys:
  assumes "i < j" and "j < length xs"
  shows "key (exchange swp i j xs ! j) \<le> key (exchange swp i j xs ! i)"
    and "key (xs ! i) \<le> key (exchange swp i j xs ! i)"
    and "k \<noteq> i \<Longrightarrow> k \<noteq> j \<Longrightarrow> exchange swp i j xs ! k = xs ! k"
  using assms swap_up [of "xs ! i" "xs ! j"] keep_down [of "xs ! i" "xs ! j"]
  by (auto simp: exchange_def nth_list_update)

lemma exchange_all:
  assumes "i < j" and "j < length xs" and "\<forall>k. i \<le> k \<and> k < length xs \<longrightarrow> Q (xs ! k)"
  shows "\<forall>k. i \<le> k \<and> k < length xs \<longrightarrow> Q (exchange swp i j xs ! k)"
  using assms by (auto simp: exchange_def nth_list_update)

lemma pass_invariant:
  assumes "Suc i \<le> j" and "j \<le> length xs" and "\<forall>k. i \<le> k \<and> k < length xs \<longrightarrow> Q (xs ! k)"
  shows "mset (fold (exchange swp i) [Suc i..<j] xs) = mset xs \<and>
    (\<forall>k < i. fold (exchange swp i) [Suc i..<j] xs ! k = xs ! k) \<and>
    (\<forall>k. i < k \<and> k < j \<longrightarrow> key (fold (exchange swp i) [Suc i..<j] xs ! k) \<le> key (fold (exchange swp i) [Suc i..<j] xs ! i)) \<and>
    (\<forall>k. i \<le> k \<and> k < length xs \<longrightarrow> Q (fold (exchange swp i) [Suc i..<j] xs ! k))"
  using assms(1,2)
proof (induction j rule: dec_induct)
  case base
  then show ?case using assms(3) by simp
next
  case (step j)
  define zs where "zs = fold (exchange swp i) [Suc i..<j] xs"
  have eq: "fold (exchange swp i) [Suc i..<Suc j] xs = exchange swp i j zs"
    using step.hyps by (simp add: zs_def)
  have ij: "i < j" "j < length zs" and len: "length zs = length xs"
    using step.hyps step.prems by (auto simp: zs_def)
  have IH: "mset zs = mset xs" "\<forall>k < i. zs ! k = xs ! k" "\<forall>k. i < k \<and> k < j \<longrightarrow> key (zs ! k) \<le> key (zs ! i)"
    "\<forall>k. i \<le> k \<and> k < length zs \<longrightarrow> Q (zs ! k)"
    using step.IH step.prems by (simp_all add: zs_def)
  have "mset (exchange swp i j zs) = mset xs" using ij IH(1) by (simp add: mset_exchange)
  moreover have "\<forall>k < i. exchange swp i j zs ! k = xs ! k"
    using IH(2) exchange_keys(3) [OF ij] ij(1) by simp
  moreover have "key (exchange swp i j zs ! k) \<le> key (exchange swp i j zs ! i)" if "i < k" "k < Suc j" for k
  proof (cases "k = j")
    case False
    with that IH(3) have "key (zs ! k) \<le> key (zs ! i)" by simp
    with False that show ?thesis using exchange_keys(2,3) [OF ij] by fastforce
  qed (use exchange_keys(1) [OF ij] in simp)
  ultimately show ?case unfolding eq using exchange_all [OF ij IH(4)] len by simp
qed

lemma passes_sorted:
  assumes "m \<le> length xs"
  shows "mset (fold (exchange_pass swp (length xs)) [0..<m] xs) = mset xs \<and>
    (\<forall>a b. a < m \<and> a < b \<and> b < length xs \<longrightarrow>
       key (fold (exchange_pass swp (length xs)) [0..<m] xs ! b) \<le> key (fold (exchange_pass swp (length xs)) [0..<m] xs ! a))"
  using assms
proof (induction m)
  case (Suc m)
  define zs where "zs = fold (exchange_pass swp (length xs)) [0..<m] xs"
  define ys where "ys = fold (exchange swp m) [Suc m..<length xs] zs"
  have eq: "fold (exchange_pass swp (length xs)) [0..<Suc m] xs = ys"
    by (simp add: exchange_pass_def zs_def ys_def)
  have IH: "mset zs = mset xs" "\<forall>a b. a < m \<and> a < b \<and> b < length xs \<longrightarrow> key (zs ! b) \<le> key (zs ! a)"
    using Suc by (simp_all add: zs_def)
  then have len: "length zs = length xs" by (metis size_mset)
  have pass: "mset ys = mset zs" "\<forall>k < m. ys ! k = zs ! k" "\<forall>k. m < k \<and> k < length xs \<longrightarrow> key (ys ! k) \<le> key (ys ! m)"
    "\<forall>k. m \<le> k \<and> k < length xs \<longrightarrow> Q (ys ! k)" if "\<forall>k. m \<le> k \<and> k < length zs \<longrightarrow> Q (zs ! k)" for Q
    using pass_invariant [of m "length xs" zs, OF _ _ that] Suc.prems len by (simp_all add: ys_def)
  have "key (ys ! b) \<le> key (ys ! a)" if ab: "a < Suc m" "a < b" "b < length xs" for a b
  proof (cases "a = m \<or> b < m")
    case True
    then show ?thesis using pass(2,3) [of "\<lambda>_. True"] IH(2) ab by auto
  next
    case False
    then have "\<forall>k. m \<le> k \<and> k < length zs \<longrightarrow> key (zs ! k) \<le> key (zs ! a)"
      using IH(2) ab len by simp
    then show ?thesis using pass(2,4) [of "\<lambda>x. key x \<le> key (zs ! a)"] False ab by simp
  qed
  then show ?case unfolding eq using pass(1) [of "\<lambda>_. True"] IH(1) by simp
qed simp

end

interpretation es: exchange_order "\<lambda>a. computeScore P (ts ! a) now" "\<lambda>a b. swap_needed P now (ts ! a) (ts ! b)"
  for P ts now
  by unfold_locales (auto simp: swap_needed_def Let_def split: if_splits)

text \<open>The order of a tick: the index array is a permutation of the task indices, and the scores
  along it never increase. This holds whatever the tie-breaking by due time and execution time
  decides, although that comparison is not transitive.\<close>

theorem getSortedTaskList_sorted:
  "mset (getSortedTaskList P now ts) = mset [0..<length ts] \<and>
   sorted_wrt (\<lambda>a b. computeScore P (ts ! a) now \<ge> computeScore P (ts ! b) now) (getSortedTaskList P now ts)"
proof -
  have "length (getSortedTaskList P now ts) = length ts"
    using es.passes_sorted [of "length ts" "[0..<length ts]" P now ts]
    by (metis diff_zero getSortedTaskList_def length_upt order_refl size_mset)
  then show ?thesis
    using es.passes_sorted [of "length ts" "[0..<length ts]" P now ts]
    by (simp add: getSortedTaskList_def sorted_wrt_iff_nth_less)
qed

section \<open>Identifiers\<close>

abbreviation ids :: "sched \<Rightarrow> int list" where
  "ids s \<equiv> map m_task_id (m_tasks s)"

lemma get_unique_task_id_cases:
  obtains (full) "get_unique_task_id s = -1" and "{1..<uint (m_max_tasks s)} \<subseteq> set (ids s)"
  | (fresh) "1 \<le> get_unique_task_id s" and "get_unique_task_id s < uint (m_max_tasks s)"
      and "get_unique_task_id s \<notin> set (ids s)"
proof (cases "find (\<lambda>i. \<not> list_ex (\<lambda>t. m_task_id t = i) (m_tasks s)) [1..uint (m_max_tasks s) - 1]")
  case None
  then have "{1..<uint (m_max_tasks s)} \<subseteq> set (ids s)"
    by (fastforce simp: find_None_iff list_ex_iff)
  with None full show ?thesis by (simp add: get_unique_task_id_def)
next
  case (Some i)
  then have "i \<in> set [1..uint (m_max_tasks s) - 1]" "\<not> list_ex (\<lambda>t. m_task_id t = i) (m_tasks s)"
    by (auto simp: find_Some_iff)
  with Some fresh show ?thesis by (auto simp: get_unique_task_id_def list_ex_iff)
qed

lemma get_unique_task_id_fresh:
  assumes "distinct (ids s)" and "length (m_tasks s) < unat (m_max_tasks s)"
  shows "get_unique_task_id s \<notin> set (ids s)"
proof (cases s rule: get_unique_task_id_cases)
  case full
  have "nat (int n - 1) = n - 1" for n by arith
  from this [of "unat (m_max_tasks s)"]
  have "card (insert (-1) {1..<uint (m_max_tasks s)}) = Suc (unat (m_max_tasks s) - 1)" by simp
  also have "\<dots> = unat (m_max_tasks s)" using assms(2) by linarith
  also have "\<dots> > length (ids s)" using assms(2) by simp
  finally have "\<not> insert (-1) {1..<uint (m_max_tasks s)} \<subseteq> set (ids s)"
    by (metis List.finite_set card_length card_mono leD le_trans)
  with full show ?thesis by auto
qed

lemma register_task_cases:
  obtains (refused) "length (m_tasks s) \<ge> unat (m_max_tasks s)"
    and "register_task now fn d p l a nm ow s = (-1, s)"
  | (added) t where "length (m_tasks s) < unat (m_max_tasks s)" and "m_task_id t = get_unique_task_id s"
    and "m_task t = fn" and "m_max_attempts t = a"
    and "register_task now fn d p l a nm ow s = (m_task_id t, s\<lparr>m_tasks := m_tasks s @ [t]\<rparr>)"
proof (cases "length (m_tasks s) < unat (m_max_tasks s)")
  case True
  define t where "t = clear_task\<lparr>m_task := fn, m_duration := d, m_task_priority := p,
    m_last_millis := l, m_max_attempts := a, m_task_exec_us := 0,
    m_task_id := get_unique_task_id s, m_state := TASK_STATE_SLEEPING,
    m_created_ms := (if m_util s then now else 0), m_name := nm, m_owner := ow\<rparr>"
  have "register_task now fn d p l a nm ow s = (m_task_id t, s\<lparr>m_tasks := m_tasks s @ [t]\<rparr>)"
    using True by (simp only: register_task_def Let_def t_def if_True)
  with True added [of t] show ?thesis by (simp add: t_def)
qed (use refused in \<open>simp add: register_task_def\<close>)

text \<open>Registration. When the table is full the call returns -1 and changes nothing. Otherwise
  exactly one task is appended, and its identifier, the returned value, is used by no other task. The
  identifier is a number below the limit while one of those is free, and is -1, the value for
  failure, when all of them are taken: the last free slot gets a task that the caller is told was
  not registered.\<close>

theorem register_task_fresh:
  assumes "distinct (ids s)" and "register_task now fn d p l a nm ow s = (r, s')"
  shows "distinct (ids s') \<and>
    (if length (m_tasks s) < unat (m_max_tasks s)
     then (\<exists>t. m_tasks s' = m_tasks s @ [t] \<and> m_task_id t = r \<and> m_task t = fn \<and> m_max_attempts t = a) \<and>
       r \<notin> set (ids s) \<and>
       (if {1..<uint (m_max_tasks s)} \<subseteq> set (ids s) then r = -1 else 1 \<le> r \<and> r < uint (m_max_tasks s))
     else r = -1 \<and> s' = s)"
proof (rule register_task_cases [of s now fn d p l a nm ow])
  assume "length (m_tasks s) \<ge> unat (m_max_tasks s)" and "register_task now fn d p l a nm ow s = (-1, s)"
  with assms show ?thesis by simp
next
  fix t
  assume added: "length (m_tasks s) < unat (m_max_tasks s)" "m_task_id t = get_unique_task_id s"
    "m_task t = fn" "m_max_attempts t = a"
    "register_task now fn d p l a nm ow s = (m_task_id t, s\<lparr>m_tasks := m_tasks s @ [t]\<rparr>)"
  then have "r = get_unique_task_id s" using assms(2) by simp
  moreover have "get_unique_task_id s \<notin> set (ids s)" using get_unique_task_id_fresh assms(1) added(1) .
  ultimately show ?thesis using added assms
    by (cases s rule: get_unique_task_id_cases) auto
qed

theorem register_task_fresh_witness:
  "fst (register_task 0 (Some 4) 10 0 0 1 None 0 (TaskScheduler\<lparr>m_max_tasks := 2\<rparr>)) = 1 \<and>
   (let s = snd (register_task 0 (Some 4) 10 0 0 1 None 0 (TaskScheduler\<lparr>m_max_tasks := 2\<rparr>));
        (r, s') = register_task 0 (Some 5) 10 0 0 1 None 0 s
    in r = -1 \<and> length (m_tasks s') = 2 \<and> distinct (ids s'))"
proof -
  define s where "s = snd (register_task 0 (Some 4) 10 0 0 1 None 0 (TaskScheduler\<lparr>m_max_tasks := 2\<rparr>))"
  obtain r s' where reg: "register_task 0 (Some 5) 10 0 0 1 None 0 s = (r, s')" by fastforce
  have s: "m_max_tasks s = 2" "ids s = [1]" "length (m_tasks s) = 1"
    unfolding s_def by code_simp+
  have "distinct (ids s)" "{1..<2::int} = {1}" by (auto simp: s(2))
  then have all: "{1..<uint (m_max_tasks s)} \<subseteq> set (ids s)" unfolding s(1,2) by simp
  have room: "length (m_tasks s) < unat (m_max_tasks s)" by (simp add: s(1,3))
  have "r = -1 \<and> length (m_tasks s') = 2 \<and> distinct (ids s')"
    using register_task_fresh [OF \<open>distinct (ids s)\<close> reg] all room s(3)
    by (metis length_append_singleton One_nat_def numeral_2_eq_2)
  moreover have "fst (register_task 0 (Some 4) 10 0 0 1 None 0 (TaskScheduler\<lparr>m_max_tasks := 2\<rparr>)) = 1" by code_simp
  ultimately show ?thesis using reg by (simp flip: s_def)
qed

subsection \<open>Identifiers over a run\<close>

lemma ids_upd: "(\<And>t. m_task_id (f t) = m_task_id t) \<Longrightarrow> ids (upd k f s) = ids s"
  by (cases "k < length (m_tasks s)") (auto simp: upd_def list_eq_iff_nth_eq nth_list_update)

lemma ids_with_task: "(\<And>t. m_task_id (f t) = m_task_id t) \<Longrightarrow> ids (snd (with_task tid f s)) = ids s"
  by (simp add: with_task_def Let_def ids_upd)

text \<open>The calls by which the rest of the framework, callbacks included, changes the scheduler.\<close>

inductive sched_call :: "sched \<Rightarrow> sched \<Rightarrow> bool" where
  register: "sched_call s (snd (register_task now fn d p l a nm ow s))"
| update: "sched_call s (snd (updateInterval now tid fn d p l a nm ow s))"
| remove: "sched_call s (snd (remove_task tid s))"
| name: "sched_call s (snd (setTaskName tid nm s))"
| owner: "sched_call s (snd (setTaskOwner tid ow s))"
| nice: "sched_call s (snd (setTaskNice tid n s))"
| signal: "sched_call s (snd (sendSignal tid sig s))"
| signal_name: "sched_call s (snd (sendSignalByName nm sig ow root s))"
| limit: "sched_call s (setMaxTasksLimit m s)"
| util: "sched_call s (setUtilityInterface u s)"
| rebase: "sched_call s (rebaseAndRestartPrioTasks s)"

lemma sched_call_ids:
  assumes "sched_call s s'" and "distinct (ids s)"
  shows "distinct (ids s')"
  using assms
proof cases
  case (register now fn d p l a nm ow)
  then show ?thesis
    using assms(2) get_unique_task_id_fresh [of s]
    by (cases rule: register_task_cases [of s now fn d p l a nm ow]) auto
next
  case (update now tid fn d p l a nm ow)
  have "distinct (ids (snd (register_task now fn d p l a nm ow s)))"
    using assms(2) get_unique_task_id_fresh [of s]
    by (cases rule: register_task_cases [of s now fn d p l a nm ow]) auto
  with update assms(2) show ?thesis by (simp add: updateInterval_def Let_def ids_upd)
next
  case (remove tid)
  have "ids s' = ids s" by (simp add: remove remove_task_def)
  with assms(2) show ?thesis by simp
next
  case (signal_name nm sig ow root)
  have "ids s' = ids s" by (simp add: signal_name sendSignalByName_def split: option.split)
  with assms(2) show ?thesis by simp
qed (simp_all add: setTaskName_def setTaskOwner_def setTaskNice_def sendSignal_def ids_with_task
    setMaxTasksLimit_def setUtilityInterface_def rebaseAndRestartPrioTasks_def)

lemma ids_consume_signal [simp]: "m_task_id (fst (consume_signal t)) = m_task_id t"
  by (simp add: consume_signal_def Let_def)

lemma ids_settle [simp]: "m_task_id (settle start t) = m_task_id t"
  by (simp add: settle_def Let_def)

lemma dispatch_ids:
  assumes "\<And>f w s. distinct (ids s) \<Longrightarrow> distinct (ids (snd (call E f (w, s))))" and "distinct (ids s)"
  shows "distinct (ids (snd (dispatch E start k (w, s))))"
proof -
  have "distinct (ids (snd (run_callback E f k (w, s))))" for f
    using assms(1) [of "upd k (\<lambda>t. t\<lparr>m_state := TASK_STATE_RUNNING\<rparr>) s"] assms(2)
    by (simp add: run_callback_def Let_def ids_upd split: prod.split) (metis snd_conv)
  then show ?thesis
    using assms(2) by (auto simp: dispatch_def Let_def ids_upd split: prod.split option.split) (metis snd_conv)+
qed

lemma tick_ids:
  assumes "\<And>f w s. distinct (ids s) \<Longrightarrow> distinct (ids (snd (call E f (w, s))))" and "distinct (ids s)"
  shows "distinct (ids (snd (tick E ctx ks (w, s))))"
  using assms(2)
proof (induction ks arbitrary: w s)
  case (Cons k ks)
  obtain start w1 where w1: "millis_now E w = (start, w1)" by fastforce
  obtain t killed where t: "consume_signal (m_tasks s ! k) = (t, killed)" by fastforce
  define s1 where "s1 = upd k (\<lambda>_. t) s"
  define s2 where "s2 = upd k (\<lambda>t. if start < m_last_millis t then t\<lparr>m_last_millis := start\<rparr> else t) s1"
  have "m_task_id t = m_task_id (m_tasks s ! k)" using ids_consume_signal t by (metis fst_conv)
  then have s1: "ids s1 = ids s"
    by (cases "k < length (m_tasks s)") (auto simp: s1_def upd_def map_update list_update_same_conv list_update_beyond)
  then have s2: "ids s2 = ids s" by (simp add: s2_def ids_upd)
  obtain w3 s3 where s3: "dispatch E start k (w1, s2) = (w3, s3)" by fastforce
  have "distinct (ids s3)" using dispatch_ids [OF assms(1), of s2 start k w1] s3 s2 Cons.prems by simp
  then show ?case
    using Cons w1 t s3 s1 by (cases ctx) (simp_all add: Let_def flip: s1_def s2_def)
qed simp

lemma subseq_remove_expired: "subseq (remove_expired ts) ts"
  by (induction ts rule: remove_expired.induct) auto

lemma handle_tasks_ids:
  assumes "\<And>f w s. distinct (ids s) \<Longrightarrow> distinct (ids (snd (call E f (w, s))))" and "distinct (ids s)"
  shows "distinct (ids (snd (handle_tasks P E ctx (w, s))))"
proof (cases "m_util s")
  case True
  obtain now w1 where w1: "millis_now E w = (now, w1)" by fastforce
  obtain w2 s2 where tick: "tick E ctx (getSortedTaskList P now (m_tasks s)) (w1, s\<lparr>m_rebase_start_priotask := True\<rparr>) = (w2, s2)"
    by fastforce
  have "distinct (ids (s\<lparr>m_rebase_start_priotask := True\<rparr>))" using assms(2) by simp
  from tick_ids [OF assms(1) this, of ctx "getSortedTaskList P now (m_tasks s)" w1]
  have "distinct (ids s2)" unfolding tick by simp
  then have "distinct (map m_task_id (remove_expired (m_tasks s2)))"
    using subseq_map [OF subseq_remove_expired] by (metis in_set_subseqs subseqs_distinctD)
  then show ?thesis using True w1 tick by (simp add: handle_tasks_def remove_expired_tasks_def)
qed (use assms(2) in \<open>simp add: handle_tasks_def\<close>)

text \<open>Histories of calls and ticks. A tick may run callbacks, each of which makes any number of
  calls; clocks, yield and the world are arbitrary.\<close>

inductive sched_run :: "platform \<Rightarrow> sched \<Rightarrow> bool" for P where
  start: "sched_run P TaskScheduler"
| step: "sched_run P s \<Longrightarrow> sched_call s s' \<Longrightarrow> sched_run P s'"
| tick: "sched_run P s \<Longrightarrow> (\<forall>f w s. sched_call\<^sup>*\<^sup>* s (snd (call E f (w, s)))) \<Longrightarrow>
    sched_run P (snd (handle_tasks P (E :: nat env) ctx (w, s)))"

lemma sched_calls_ids:
  assumes "sched_call\<^sup>*\<^sup>* s s'" and "distinct (ids s)"
  shows "distinct (ids s')"
  using assms by (induction rule: rtranclp_induct) (auto dest: sched_call_ids)

text \<open>C2. In every state the scheduler can reach by calls and by ticks whose callbacks make calls,
  identifiers are unique, so that looking a task up by its identifier finds exactly that task.\<close>

theorem sched_run_unique_ids:
  assumes "sched_run P s"
  shows "distinct (ids s) \<and> (\<forall>t \<in> set (m_tasks s). get_task s (m_task_id t) = Some t)"
proof -
  have d: "distinct (ids s)"
    using assms
  proof induction
    case (tick s E ctx w)
    have "distinct (ids (snd (call E f (w, s))))" if "distinct (ids s)" for f w s
      using tick(2) that sched_calls_ids by blast
    with handle_tasks_ids [of E s P ctx w] tick.IH show ?case by blast
  qed (auto simp: TaskScheduler_def intro: sched_call_ids)
  moreover have "find (\<lambda>u. m_task_id u = m_task_id t) ts = Some t"
    if "distinct (map m_task_id ts)" and "t \<in> set ts" for t ts
    using that by (induction ts) auto
  ultimately show ?thesis unfolding get_task_def by blast
qed

theorem sched_run_unique_ids_witness:
  "\<exists>s. sched_run \<lparr>fp_log = id, fp_int = id\<rparr> s \<and> length (m_tasks s) = 1 \<and> distinct (ids s)"
proof -
  let ?s = "snd (register_task 0 (Some 4) 10 0 0 1 None 0 TaskScheduler)"
  have "sched_run \<lparr>fp_log = id, fp_int = id\<rparr> ?s"
    by (rule sched_run.step [OF sched_run.start sched_call.register])
  moreover have "length (m_tasks ?s) = 1" by code_simp
  ultimately show ?thesis using sched_run_unique_ids by blast
qed

section \<open>Expired tasks\<close>

abbreviation live :: "task_t \<Rightarrow> bool" where
  "live t \<equiv> m_max_attempts t \<noteq> 0"

abbreviation expired :: "task_t \<Rightarrow> bool" where
  "expired t \<equiv> m_max_attempts t = 0"

lemma remove_expired_live: "filter live (remove_expired ts) = filter live ts"
  by (induction ts rule: remove_expired.induct) auto

lemma remove_expired_count_le: "length (filter expired (remove_expired ts)) \<le> length (filter expired ts)"
  using subseq_remove_expired by (metis list_emb_length subseq_filter)

lemma remove_expired_count:
  assumes "filter expired ts \<noteq> []"
  shows "length (filter expired (remove_expired ts)) < length (filter expired ts)"
  using assms
proof (induction ts rule: remove_expired.induct)
  case (3 t u ts)
  then show ?case using remove_expired_count_le [of ts] by auto
qed (auto split: if_splits)

text \<open>The removal loop skips the task after each one it erases, but it never drops a live task and
  never reorders them, each call removes at least one expired task while there is any, and so as many
  calls as there are expired tasks leave exactly the live ones.\<close>

theorem remove_expired_tasks_live:
  "filter live (m_tasks (remove_expired_tasks s)) = filter live (m_tasks s) \<and>
   m_tasks ((remove_expired_tasks ^^ length (filter expired (m_tasks s))) s) = filter live (m_tasks s)"
proof -
  have "(remove_expired ^^ n) ts = filter live ts" if "length (filter expired ts) \<le> n" for n ts
    using that
  proof (induction n arbitrary: ts)
    case 0
    then show ?case by (simp add: filter_empty_conv filter_id_conv)
  next
    case (Suc n)
    have "length (filter expired (remove_expired ts)) \<le> n"
      using remove_expired_count [of ts] remove_expired_count_le [of ts] Suc.prems
      by (cases "filter expired ts = []") auto
    then show ?case using Suc.IH by (simp add: funpow_swap1 remove_expired_live del: funpow.simps(2) add: funpow_Suc_right)
  qed
  moreover have "m_tasks ((remove_expired_tasks ^^ n) s) = (remove_expired ^^ n) (m_tasks s)" for n
    by (induction n) (simp_all add: remove_expired_tasks_def)
  ultimately show ?thesis by (simp add: remove_expired_tasks_def remove_expired_live)
qed

section \<open>Timing\<close>

lemma catchup_spec:
  assumes "lst \<le> start"
  shows "\<exists>j \<le> n. unat (catchup n start d lst) = unat lst + j * unat d \<and> catchup n start d lst \<le> start \<and>
    (j < n \<longrightarrow> start - catchup n start d lst < d) \<and> (0 < n \<and> d \<le> start - lst \<longrightarrow> 0 < j)"
  using assms
proof (induction n arbitrary: lst)
  case (Suc n)
  show ?case
  proof (cases "d \<le> start - lst")
    case True
    then have "unat lst + unat d \<le> unat start"
      using Suc.prems by (simp add: word_le_nat_alt unat_sub)
    then have sum: "unat (lst + d) = unat lst + unat d"
      using unat_bound [of start] by (simp add: unat_word_ariths)
    with \<open>unat lst + unat d \<le> unat start\<close> have "lst + d \<le> start" by (simp add: word_le_nat_alt)
    from Suc.IH [OF this] obtain j where "j \<le> n"
      "unat (catchup n start d (lst + d)) = unat (lst + d) + j * unat d" "catchup n start d (lst + d) \<le> start"
      "j < n \<longrightarrow> start - catchup n start d (lst + d) < d" by blast
    then show ?thesis using True sum by (intro exI [of _ "Suc j"]) simp
  next
    case False
    then show ?thesis using Suc.prems by (intro exI [of _ 0]) simp
  qed
qed simp

text \<open>After a due task has run, its reference time moves forward by one to four whole periods and
  never past the start of the tick, so the task keeps its phase and does not drift; unless all four
  rounds were needed, less than a period is left. A positive number of attempts goes down by one, and
  the task becomes a zombie exactly when none is left.\<close>

theorem settle_keeps_phase:
  assumes "due start t" and "m_last_millis t \<le> start" and "m_last_millis t \<noteq> 0"
  shows "\<exists>j. 1 \<le> j \<and> j \<le> 4 \<and> unat (m_last_millis (settle start t)) = unat (m_last_millis t) + j * unat (m_duration t) \<and>
      m_last_millis (settle start t) \<le> start \<and> (j < 4 \<longrightarrow> start - m_last_millis (settle start t) < m_duration t) \<and>
      m_max_attempts (settle start t) = (if m_max_attempts t > 0 then m_max_attempts t - 1 else m_max_attempts t) \<and>
      (m_state (settle start t) = TASK_STATE_ZOMBIE \<longleftrightarrow> m_max_attempts t = 1 \<or> m_state t = TASK_STATE_ZOMBIE)"
proof -
  obtain j where j: "j \<le> 4" "0 < j"
    "unat (catchup 4 start (m_duration t) (m_last_millis t)) = unat (m_last_millis t) + j * unat (m_duration t)"
    "catchup 4 start (m_duration t) (m_last_millis t) \<le> start"
    "j < 4 \<longrightarrow> start - catchup 4 start (m_duration t) (m_last_millis t) < m_duration t"
    using catchup_spec [OF assms(2), of 4 "m_duration t"] assms(1) by (auto simp: due_def)
  moreover have "m_last_millis (settle start t) = catchup 4 start (m_duration t) (m_last_millis t)"
    using assms(3) by (simp add: settle_def Let_def)
  moreover have "m_state (settle start t) = TASK_STATE_ZOMBIE \<longleftrightarrow> m_max_attempts t = 1 \<or> m_state t = TASK_STATE_ZOMBIE"
    "m_max_attempts (settle start t) = (if m_max_attempts t > 0 then m_max_attempts t - 1 else m_max_attempts t)"
    using assms(1) by (auto simp: settle_def Let_def due_def)
  ultimately show ?thesis by (intro exI [of _ j]) simp
qed

theorem settle_keeps_phase_witness:
  "m_last_millis (settle 135 (clear_task\<lparr>m_duration := 10, m_last_millis := 103, m_max_attempts := 2\<rparr>)) = 133 \<and>
   m_max_attempts (settle 135 (clear_task\<lparr>m_duration := 10, m_last_millis := 103, m_max_attempts := 2\<rparr>)) = 1"
proof -
  let ?t = "clear_task\<lparr>m_duration := 10, m_last_millis := 103, m_max_attempts := 2\<rparr>"
  have "due 135 ?t" "m_last_millis ?t \<le> 135" "m_last_millis ?t \<noteq> 0" by (simp_all add: due_def clear_task_def)
  from settle_keeps_phase [OF this] have "m_max_attempts (settle 135 ?t) = 1" by auto
  moreover have "m_last_millis (settle 135 ?t) = 133" by code_simp
  ultimately show ?thesis by simp
qed

section \<open>Which callback a tick runs\<close>

text \<open>Tasks the loop passes over: left to another scheduler, killed by their pending signal, or stopped.\<close>

definition skipped :: "bool \<Rightarrow> task_t \<Rightarrow> bool" where
  "skipped ctx t \<longleftrightarrow> (ctx \<and> m_task_mode t \<noteq> TASK_MODE_INLINE) \<or>
     m_pending_sig t \<in> {SIG_KILL, SIG_TERM, SIG_STOP} \<or>
     (m_state t = TASK_STATE_STOPPED \<and> m_pending_sig t \<noteq> SIG_CONT)"

text \<open>Tasks with attempts left whose period is over; a reference time in the future counts as now.\<close>

definition eligible :: "u64 \<Rightarrow> task_t \<Rightarrow> bool" where
  "eligible now t \<longleftrightarrow> m_max_attempts t \<noteq> 0 \<and>
     m_duration t \<le> (if now < m_last_millis t then 0 else now - m_last_millis t)"

lemma consume_signal_skipped:
  "skipped ctx t \<longleftrightarrow> (ctx \<and> m_task_mode t \<noteq> TASK_MODE_INLINE) \<or> snd (consume_signal t) \<or>
     m_state (fst (consume_signal t)) = TASK_STATE_STOPPED"
  by (auto simp: skipped_def consume_signal_def Let_def)

lemma consume_signal_kept:
  assumes "\<not> snd (consume_signal t)"
  shows "m_task (fst (consume_signal t)) = m_task t" and "m_max_attempts (fst (consume_signal t)) = m_max_attempts t"
    and "m_duration (fst (consume_signal t)) = m_duration t" and "m_last_millis (fst (consume_signal t)) = m_last_millis t"
  using assms by (auto simp: consume_signal_def Let_def)

lemma tick_skip:
  assumes "skipped ctx (m_tasks s ! k)"
  shows "\<exists>t. \<forall>E w now. millis_now E w = (now, w) \<longrightarrow> tick E ctx (k # ks) (w, s) = tick E ctx ks (w, upd k (\<lambda>_. t) s)"
proof (cases "ctx \<and> m_task_mode (m_tasks s ! k) \<noteq> TASK_MODE_INLINE")
  case True
  moreover have "upd k (\<lambda>_. m_tasks s ! k) s = s" by (simp add: upd_def)
  ultimately show ?thesis by (intro exI [of _ "m_tasks s ! k"]) simp
next
  case False
  with assms consume_signal_skipped
  have "snd (consume_signal (m_tasks s ! k)) \<or> m_state (fst (consume_signal (m_tasks s ! k))) = TASK_STATE_STOPPED"
    by blast
  with False show ?thesis
    by (intro exI [of _ "fst (consume_signal (m_tasks s ! k))"]) (auto simp: Let_def split: prod.split)
qed

text \<open>The task the loop stops at, with its signal consumed and its reference time adjusted.\<close>

definition prepared :: "u64 \<Rightarrow> task_t \<Rightarrow> task_t" where
  "prepared now t =
     (let t = fst (consume_signal t) in if now < m_last_millis t then t\<lparr>m_last_millis := now\<rparr> else t)"

lemma due_prepared:
  assumes "\<not> skipped ctx t"
  shows "due now (prepared now t) = eligible now t" and "m_task (prepared now t) = m_task t"
  using assms consume_signal_kept [of t] consume_signal_skipped
  by (auto simp: due_def eligible_def prepared_def Let_def)

lemma tick_stop:
  assumes "millis_now E w = (now, w)" and "\<not> skipped ctx (m_tasks s ! k)" and "k < length (m_tasks s)"
  shows "tick E ctx (k # ks) (w, s) =
    (let (w, s) = dispatch E now k (w, upd k (\<lambda>_. prepared now (m_tasks s ! k)) s);
         w = (if m_util s then dev_yield E w else w)
     in if m_rebase_start_priotask s then (w, s\<lparr>m_rebase_start_priotask := False\<rparr>) else tick E ctx ks (w, s))"
proof -
  have "upd k (\<lambda>t. if now < m_last_millis t then t\<lparr>m_last_millis := now\<rparr> else t) (upd k (\<lambda>_. fst (consume_signal (m_tasks s ! k))) s) =
      upd k (\<lambda>_. prepared now (m_tasks s ! k)) s"
    using assms(3) by (simp add: upd_def prepared_def Let_def)
  with assms(1,2) show ?thesis
    by (auto simp: consume_signal_skipped Let_def split: prod.split)
qed

lemma dispatch_not_due:
  assumes "\<not> due now (m_tasks s ! k)"
  shows "dispatch E now k (w, s) = (w, s)"
  using assms by (simp add: dispatch_def Let_def)

lemma dispatch_only:
  assumes "\<And>f. due now (m_tasks s ! k) \<Longrightarrow> m_task (m_tasks s ! k) = Some f \<Longrightarrow> c f = call E f"
  shows "dispatch (E\<lparr>call := c\<rparr>) now k (w, s) = dispatch E now k (w, s)"
  using assms by (auto simp: dispatch_def run_callback_def Let_def split: option.split)

lemma upd_rebase [simp]:
  "m_rebase_start_priotask (upd k f s) = m_rebase_start_priotask s" "m_util (upd k f s) = m_util s"
  "length (m_tasks (upd k f s)) = length (m_tasks s)" "k' \<noteq> k \<Longrightarrow> m_tasks (upd k f s) ! k' = m_tasks s ! k'"
  by (simp_all add: upd_def)

lemma dispatch_rebase:
  assumes "\<And>f w s. m_rebase_start_priotask (snd (call E f (w, s))) = m_rebase_start_priotask s"
  shows "m_rebase_start_priotask (snd (dispatch E now k (w, s))) = m_rebase_start_priotask s"
proof -
  have "m_rebase_start_priotask (snd (run_callback E f k (w, s))) = m_rebase_start_priotask s" for f
    by (simp add: run_callback_def Let_def case_prod_beta assms)
  then show ?thesis by (simp add: dispatch_def Let_def case_prod_beta split: option.split)
qed

lemma tick_only_selected:
  assumes "\<And>w. millis_now E w = (now, w)"
    and "\<And>f w s. m_rebase_start_priotask (snd (call E f (w, s))) = m_rebase_start_priotask s"
    and "distinct ks" and "set ks \<subseteq> {..<length (m_tasks s)}" and "m_rebase_start_priotask s"
    and "\<And>k f. find (\<lambda>k. \<not> skipped ctx (m_tasks s ! k)) ks = Some k \<Longrightarrow> eligible now (m_tasks s ! k) \<Longrightarrow>
      m_task (m_tasks s ! k) = Some f \<Longrightarrow> c f = call E f"
  shows "tick (E\<lparr>call := c\<rparr>) ctx ks (w, s) = tick E ctx ks (w, s)"
  using assms(3-)
proof (induction ks arbitrary: s)
  case (Cons k ks)
  have clock: "millis_now E w = (now, w)" "millis_now (E\<lparr>call := c\<rparr>) w = (now, w)" by (simp_all add: assms(1))
  show ?case
  proof (cases "skipped ctx (m_tasks s ! k)")
    case True
    from tick_skip [OF True] obtain t where
      "\<forall>(E :: 'a env) w now. millis_now E w = (now, w) \<longrightarrow> tick E ctx (k # ks) (w, s) = tick E ctx ks (w, upd k (\<lambda>_. t) s)" ..
    note t = this [rule_format, OF clock(1)] this [rule_format, OF clock(2)]
    have same: "m_tasks (upd k (\<lambda>_. t) s) ! l = m_tasks s ! l" if "l \<in> set ks" for l
      using Cons.prems(1) that by (metis distinct.simps(2) upd_rebase(4))
    have fnd: "find (\<lambda>l. \<not> skipped ctx (m_tasks (upd k (\<lambda>_. t) s) ! l)) ks = find (\<lambda>l. \<not> skipped ctx (m_tasks s ! l)) ks"
      by (rule find_cong) (simp_all add: same)
    have mem: "l \<in> set ks" if "find (\<lambda>l. \<not> skipped ctx (m_tasks s ! l)) ks = Some l" for l
      using that by (auto simp: find_Some_iff)
    have "c f = call E f" if "find (\<lambda>l. \<not> skipped ctx (m_tasks (upd k (\<lambda>_. t) s) ! l)) ks = Some l"
      "eligible now (m_tasks (upd k (\<lambda>_. t) s) ! l)" "m_task (m_tasks (upd k (\<lambda>_. t) s) ! l) = Some f" for l f
      using Cons.prems(4) [of l f] that True fnd same mem by simp
    then show ?thesis unfolding t using Cons.prems(1-3) by (intro Cons.IH) simp_all
  next
    case False
    define s1 where "s1 = upd k (\<lambda>_. prepared now (m_tasks s ! k)) s"
    have k: "k < length (m_tasks s)" "m_tasks s1 ! k = prepared now (m_tasks s ! k)"
      using Cons.prems(2) by (auto simp: s1_def upd_def)
    have disp: "dispatch (E\<lparr>call := c\<rparr>) now k (w, s1) = dispatch E now k (w, s1)"
      using Cons.prems(4) False due_prepared [OF False] by (intro dispatch_only) (simp add: k(2))
    have "m_rebase_start_priotask (snd (dispatch E now k (w, s1)))"
      using dispatch_rebase [OF assms(2)] Cons.prems(3) by (simp add: s1_def)
    then show ?thesis
      using tick_stop [OF clock(1) False k(1)] tick_stop [OF clock(2) False k(1)] disp
      by (simp add: Let_def case_prod_beta flip: s1_def)
  qed
qed simp

lemma sorted_indices:
  "distinct (getSortedTaskList P now ts)" "set (getSortedTaskList P now ts) = {..<length ts}"
proof -
  have "mset (getSortedTaskList P now ts) = mset [0..<length ts]"
    using es.passes_sorted [of "length ts" "[0..<length ts]" P now ts] by (simp add: getSortedTaskList_def)
  then show "distinct (getSortedTaskList P now ts)" "set (getSortedTaskList P now ts) = {..<length ts}"
    by (metis distinct_upt mset_eq_imp_distinct_iff) (metis \<open>mset _ = mset _\<close> atLeast0LessThan set_mset_mset set_upt)
qed



lemma handle_tasks_first:
  assumes "\<And>w. millis_now E w = (now, w)" and "m_util s"
    and "getSortedTaskList P now (m_tasks s) = k # ks" and "\<not> skipped ctx (m_tasks s ! k)"
    and "\<And>f w s. m_rebase_start_priotask (snd (call E f (w, s))) = m_rebase_start_priotask s"
  shows "handle_tasks P E ctx (w, s) =
    (let (w, s) = dispatch E now k (w, upd k (\<lambda>_. prepared now (m_tasks s ! k)) (s\<lparr>m_rebase_start_priotask := True\<rparr>))
     in (if m_util s then dev_yield E w else w, remove_expired_tasks (s\<lparr>m_rebase_start_priotask := False\<rparr>)))"
proof -
  have "k \<in> set (getSortedTaskList P now (m_tasks s))" using assms(3) by simp
  then have k: "k < length (m_tasks (s\<lparr>m_rebase_start_priotask := True\<rparr>))" by (simp add: sorted_indices(2))
  have skip: "\<not> skipped ctx (m_tasks (s\<lparr>m_rebase_start_priotask := True\<rparr>) ! k)" using assms(4) by simp
  have "m_rebase_start_priotask (snd (dispatch E now k (w, upd k (\<lambda>_. prepared now (m_tasks s ! k)) (s\<lparr>m_rebase_start_priotask := True\<rparr>))))"
    using dispatch_rebase [OF assms(5)] by simp
  then show ?thesis
    using tick_stop [OF assms(1) skip k, of ks] assms(1-3)
    by (simp add: handle_tasks_def Let_def case_prod_beta)
qed



section \<open>Priorities\<close>

text \<open>Lateness of a first-in first-out task as the score sees it.\<close>

lemma fifo_part:
  assumes "m_task_policy t = TASK_POLICY_FIFO" and "now < next_due t \<or> unat (now - next_due t) < 2 ^ 31"
  shows "0 \<le> policy_part P t now" and "policy_part P t now \<le> 50" and "now < next_due t \<Longrightarrow> policy_part P t now = 0"
proof -
  define l where "l = (if now \<ge> next_due t then now - next_due t else 0)"
  have "unat l < 2 ^ 31" using assms(2) by (auto simp: l_def)
  then have "unat (ucast l :: 32 word) = unat l"
    by (simp only: unsigned_ucast_eq) (simp add: take_bit_nat_eq_self)
  with \<open>unat l < 2 ^ 31\<close> have "sint (ucast l :: 32 word) = int (unat l)"
    using sint_small [of "ucast l :: 32 word"] by simp
  moreover have "policy_part P t now = min (cdiv (sint (ucast l :: 32 word)) 100) 50"
    using assms(1) by (simp add: policy_part_def Let_def l_def)
  ultimately have part: "policy_part P t now = min (int (unat l) div 100) 50" by (simp add: cdiv_def)
  have "0 \<le> int (unat l) div 100" by (rule div_int_pos_iff [THEN iffD2]) simp
  then show "0 \<le> policy_part P t now" "policy_part P t now \<le> 50" unfolding part by linarith+
  show "policy_part P t now = 0" if "now < next_due t" using that by (simp add: part l_def)
qed

lemma score_range:
  assumes "0 \<le> (x :: int)" and "x < 256" and "-20 \<le> n" and "n \<le> 19" and "0 \<le> q" and "q \<le> 50"
  shows "- 2147483648 \<le> (x - n) * 100 + 320 * q \<and> (x - n) * 100 + 320 * q < 2147483648"
  using assms by (simp add: algebra_simps)

lemma fifo_score:
  assumes "m_task_policy t = TASK_POLICY_FIFO" and "now < next_due t \<or> unat (now - next_due t) < 2 ^ 31"
    and "-20 \<le> m_nice t" and "m_nice t \<le> 19"
  shows "computeScore P t now = 100 * (uint (m_task_priority t) - m_nice t) + 320 * policy_part P t now"
proof -
  have "uint (m_task_priority t) < 256" using unsigned_less [of "m_task_priority t"] by simp
  moreover have "0 \<le> uint (m_task_priority t)" by simp
  ultimately have "- 2147483648 \<le> (uint (m_task_priority t) - m_nice t) * 100 + 320 * policy_part P t now \<and>
    (uint (m_task_priority t) - m_nice t) * 100 + 320 * policy_part P t now < 2147483648"
    using assms(3,4) fifo_part(1,2) [OF assms(1,2), of P] by (intro score_range)
  then show ?thesis
    unfolding computeScore_def Let_def double_to_int_def policy_boost_def assms(1) by simp
qed



end
