(* ===== verification/Mqtt_Msg.thy ===== *)
theory Mqtt_Msg
  imports Prelude
begin

text \<open>
  The MQTT message codec of \<^verbatim>\<open>transports/mqtt/Mqtt_msg.cpp\<close>: the builders that write a control packet
  into the connection's buffer and the accessors the client applies to a packet it received. Strings
  and payloads are byte lists. The connection and its buffer are present (\<^verbatim>\<open>mqtt_msg_init\<close> accepts
  no null buffer); the buffer list is the memory behind \<^verbatim>\<open>buffer\<close>. The data pointer of the finished
  message is its offset in the buffer. Where the C code shifts or adds out of the range of \<^verbatim>\<open>int\<close>, or copies outside its
  objects, the result is \<open>None\<close>.
\<close>

unbundle bit_operations_syntax

section \<open>Model\<close>

record mqtt_connection_t =
  msg_data :: nat
  msg_length :: nat
  message_id :: u16
  buffer :: "byte list"
  buffer_length :: nat

record mqtt_connect_info_t =
  client_id :: "byte list option"
  username :: "byte list option"
  password :: "byte list option"
  will_topic :: "byte list option"
  will_message :: "byte list option"
  keepalive :: u16
  will_qos :: u8
  will_retain :: bool
  clean_session :: bool

abbreviation (input) "MQTT_MSG_TYPE_CONNECT \<equiv> (1 :: u8)"
abbreviation (input) "MQTT_MSG_TYPE_PUBLISH \<equiv> (3 :: u8)"
abbreviation (input) "MQTT_MSG_TYPE_PUBACK \<equiv> (4 :: u8)"
abbreviation (input) "MQTT_MSG_TYPE_PUBREC \<equiv> (5 :: u8)"
abbreviation (input) "MQTT_MSG_TYPE_PUBREL \<equiv> (6 :: u8)"
abbreviation (input) "MQTT_MSG_TYPE_PUBCOMP \<equiv> (7 :: u8)"
abbreviation (input) "MQTT_MSG_TYPE_SUBSCRIBE \<equiv> (8 :: u8)"
abbreviation (input) "MQTT_MSG_TYPE_SUBACK \<equiv> (9 :: u8)"
abbreviation (input) "MQTT_MSG_TYPE_UNSUBSCRIBE \<equiv> (10 :: u8)"
abbreviation (input) "MQTT_MSG_TYPE_UNSUBACK \<equiv> (11 :: u8)"
abbreviation (input) "MQTT_MSG_TYPE_PINGREQ \<equiv> (12 :: u8)"
abbreviation (input) "MQTT_MSG_TYPE_PINGRESP \<equiv> (13 :: u8)"
abbreviation (input) "MQTT_MSG_TYPE_DISCONNECT \<equiv> (14 :: u8)"

definition mqtt_get_type :: "byte list \<Rightarrow> u8" where
  "mqtt_get_type b = drop_bit 4 (b ! 0 AND 0xf0)"

definition mqtt_get_dup :: "byte list \<Rightarrow> u8" where
  "mqtt_get_dup b = drop_bit 3 (b ! 0 AND 0x08)"

definition mqtt_get_qos :: "byte list \<Rightarrow> u8" where
  "mqtt_get_qos b = drop_bit 1 (b ! 0 AND 0x06)"

definition mqtt_get_retain :: "byte list \<Rightarrow> u8" where
  "mqtt_get_retain b = b ! 0 AND 0x01"

subsection \<open>Writing into the buffer\<close>

text \<open>Bytes are stored at the end of the message, which grows by their number.\<close>

definition store :: "byte list \<Rightarrow> mqtt_connection_t \<Rightarrow> mqtt_connection_t" where
  "store bs c = c\<lparr>buffer := take (msg_length c) (buffer c) @ bs @ drop (msg_length c + length bs) (buffer c),
                  msg_length := msg_length c + length bs\<rparr>"

definition append_string :: "byte list \<Rightarrow> mqtt_connection_t \<Rightarrow> mqtt_connection_t option" where
  "append_string s c =
     (if msg_length c + length s + 2 > buffer_length c then None
      else Some (store ([of_nat (length s div 256), of_nat (length s mod 256)] @ s) c))"

text \<open>The loop that replaces a zero identifier by the next of the connection's counter.\<close>

function id_loop :: "u16 \<Rightarrow> u16 \<Rightarrow> u16 \<times> u16" where
  "id_loop mid counter = (if mid = 0 then id_loop (counter + 1) (counter + 1) else (mid, counter))"
  by pat_completeness auto
termination
proof (relation "measure (\<lambda>(mid, counter). if mid = 0 then if counter + 1 = 0 then 2 else 1 else (0 :: nat))")
  fix mid counter :: u16
  assume "mid = 0"
  then show "((counter + 1, counter + 1), (mid, counter)) \<in> measure (\<lambda>(mid, counter). if mid = 0 then if counter + 1 = 0 then 2 else 1 else (0 :: nat))"
    by simp
qed simp

declare id_loop.simps [simp del]

text \<open>The returned identifier is zero when there is no room.\<close>

definition append_message_id :: "u16 \<Rightarrow> mqtt_connection_t \<Rightarrow> u16 \<times> mqtt_connection_t" where
  "append_message_id mid c =
     (let (mid, counter) = id_loop mid (message_id c); c = c\<lparr>message_id := counter\<rparr> in
      if msg_length c + 2 > buffer_length c then (0, c)
      else (mid, store [ucast (drop_bit 8 mid), ucast (mid AND 0xff)] c))"

definition init_message :: "mqtt_connection_t \<Rightarrow> mqtt_connection_t" where
  "init_message c = c\<lparr>msg_length := 3\<rparr>"

definition fail_message :: "mqtt_connection_t \<Rightarrow> mqtt_connection_t" where
  "fail_message c = c\<lparr>msg_data := 0, msg_length := 0\<rparr>"

definition header_byte :: "u8 \<Rightarrow> u8 \<Rightarrow> u8 \<Rightarrow> u8 \<Rightarrow> byte" where
  "header_byte type dup qos retain =
     push_bit 4 (type AND 0x0f) OR push_bit 3 (dup AND 1) OR push_bit 1 (qos AND 3) OR (retain AND 1)"

definition fini_message :: "u8 \<Rightarrow> u8 \<Rightarrow> u8 \<Rightarrow> u8 \<Rightarrow> mqtt_connection_t \<Rightarrow> mqtt_connection_t" where
  "fini_message type dup qos retain c =
     (let remaining_length = msg_length c - 3 in
      if remaining_length > 127
      then c\<lparr>buffer := (buffer c)[0 := header_byte type dup qos retain,
                                  1 := 0x80 OR of_nat (remaining_length mod 128),
                                  2 := of_nat (remaining_length div 128)],
             msg_length := remaining_length + 3, msg_data := 0\<rparr>
      else c\<lparr>buffer := (buffer c)[1 := header_byte type dup qos retain, 2 := of_nat remaining_length],
             msg_length := remaining_length + 2, msg_data := 1\<rparr>)"

definition mqtt_msg_init :: "mqtt_connection_t \<Rightarrow> byte list option \<Rightarrow> u16 \<Rightarrow> mqtt_connection_t" where
  "mqtt_msg_init c buf n =
     (case buf of None \<Rightarrow> c
      | Some b \<Rightarrow> \<lparr>msg_data = 0, msg_length = 0, message_id = 0, buffer = b, buffer_length = unat n\<rparr>)"

subsection \<open>Reading a message\<close>

text \<open>The loop over the length field: the accumulated length and the index behind the field.\<close>

function varint :: "byte list \<Rightarrow> nat \<Rightarrow> nat \<Rightarrow> int \<Rightarrow> (int \<times> nat) option" where
  "varint b len i totlen =
     (if i < len
      then
        (let v = uint (b ! i AND 0x7f) * 2 ^ (7 * (i - 1)) in
         if 7 * (i - 1) \<ge> 32 \<or> totlen + v \<ge> 2 ^ 31 then None
         else if b ! i AND 0x80 = 0 then Some (totlen + v, i + 1)
         else varint b len (i + 1) (totlen + v))
      else Some (totlen, i))"
  by pat_completeness auto
termination
  by (relation "measure (\<lambda>(b, len, i, totlen). len - i)") auto

declare varint.simps [simp del]

definition mqtt_get_total_length :: "byte list \<Rightarrow> nat \<Rightarrow> int option" where
  "mqtt_get_total_length b len =
     (if len < 1 then Some (-1)
      else (case varint b len 1 0 of None \<Rightarrow> None | Some (totlen, i) \<Rightarrow> Some (totlen + int i)))"

definition be16 :: "byte list \<Rightarrow> nat \<Rightarrow> nat" where
  "be16 b i = unat (b ! i) * 256 + unat (b ! (i + 1))"

text \<open>The accessors of a publication return the offset and the length of the part, or \<open>None\<close> for
  a null pointer.\<close>

definition mqtt_get_publish_topic :: "byte list \<Rightarrow> nat \<Rightarrow> (nat \<times> nat) option option" where
  "mqtt_get_publish_topic b len =
     (case varint b len 1 0 of
        None \<Rightarrow> None
      | Some (totlen, i) \<Rightarrow> Some
          (if i + 2 \<ge> len then None
           else (let topiclen = be16 b i; i = i + 2 in
                 if i + topiclen > len then None else Some (i, topiclen))))"

definition mqtt_get_publish_data :: "byte list \<Rightarrow> nat \<Rightarrow> (nat \<times> nat) option option" where
  "mqtt_get_publish_data b blength =
     (case varint b blength 1 0 of
        None \<Rightarrow> None
      | Some (tot, i) \<Rightarrow> Some
          (let totlen = tot + int i in
           if i + 2 \<ge> blength then None
           else
             (let topiclen = be16 b i; i = i + 2 in
              if i + topiclen \<ge> blength then None
              else
                (let i = i + topiclen in
                 if mqtt_get_qos b > 0 \<and> i + 2 \<ge> blength then None
                 else
                   (let i = (if mqtt_get_qos b > 0 then i + 2 else i) in
                    if totlen < int i then None
                    else Some (i, if totlen \<le> int blength then nat (totlen - int i) else blength - i))))))"

function skip_varint :: "byte list \<Rightarrow> nat \<Rightarrow> nat \<Rightarrow> nat" where
  "skip_varint b len i =
     (if i < len then if b ! i AND 0x80 = 0 then i + 1 else skip_varint b len (i + 1) else i)"
  by pat_completeness auto
termination
  by (relation "measure (\<lambda>(b, len, i). len - i)") auto

declare skip_varint.simps [simp del]

definition id_at :: "byte list \<Rightarrow> nat \<Rightarrow> u16" where
  "id_at b i = push_bit 8 (ucast (b ! i)) OR ucast (b ! (i + 1))"

definition mqtt_get_id :: "byte list \<Rightarrow> nat \<Rightarrow> u16" where
  "mqtt_get_id b len =
     (if len < 1 then 0
      else if mqtt_get_type b = MQTT_MSG_TYPE_PUBLISH then
        (let i = skip_varint b len 1 in
         if i + 2 \<ge> len then 0
         else
           (let topiclen = be16 b i; i = i + 2 in
            if i + topiclen \<ge> len then 0
            else
              (let i = i + topiclen in
               if mqtt_get_qos b > 0 then if i + 2 \<ge> len then 0 else id_at b i
               else 0)))
      else if mqtt_get_type b \<in> set [MQTT_MSG_TYPE_PUBACK, MQTT_MSG_TYPE_PUBREC, MQTT_MSG_TYPE_PUBREL, MQTT_MSG_TYPE_PUBCOMP,
             MQTT_MSG_TYPE_SUBACK, MQTT_MSG_TYPE_UNSUBACK, MQTT_MSG_TYPE_SUBSCRIBE, MQTT_MSG_TYPE_UNSUBSCRIBE]
      then if len \<ge> 4 \<and> b ! 1 AND 0x80 = 0 then id_at b 2 else 0
      else 0)"

subsection \<open>Building a message\<close>

definition given :: "byte list option \<Rightarrow> bool" where
  "given s \<longleftrightarrow> s \<noteq> None \<and> s \<noteq> Some []"

text \<open>
  Progress of a CONNECT: a string did not fit (the message fails), a null pointer was passed to
  \<^verbatim>\<open>strlen\<close>, or the connection so far. The flags byte of the variable header is at offset 10.
\<close>

datatype building = Failed mqtt_connection_t | Crashed | Building mqtt_connection_t

definition or_flags :: "u8 \<Rightarrow> mqtt_connection_t \<Rightarrow> mqtt_connection_t" where
  "or_flags f c = c\<lparr>buffer := (buffer c)[10 := buffer c ! 10 OR f]\<rparr>"

definition append_next :: "byte list option \<Rightarrow> building \<Rightarrow> building" where
  "append_next s b =
     (case b of
        Building c \<Rightarrow>
          (case s of None \<Rightarrow> Crashed
           | Some s \<Rightarrow> (case append_string s c of None \<Rightarrow> Failed c | Some c \<Rightarrow> Building c))
      | _ \<Rightarrow> b)"

definition set_flags :: "u8 \<Rightarrow> building \<Rightarrow> building" where
  "set_flags f b = (case b of Building c \<Rightarrow> Building (or_flags f c) | _ \<Rightarrow> b)"

definition append_will :: "mqtt_connect_info_t \<Rightarrow> building \<Rightarrow> building" where
  "append_will info b =
     (if given (will_topic info)
      then set_flags (push_bit 3 (will_qos info AND 3)) (set_flags (if will_retain info then 0x20 else 0) (set_flags 0x04
             (append_next (will_message info) (append_next (will_topic info) b))))
      else b)"

definition append_given :: "byte list option \<Rightarrow> u8 \<Rightarrow> building \<Rightarrow> building" where
  "append_given s flag b = (if given s then set_flags flag (append_next s b) else b)"

definition connect_header :: "mqtt_connect_info_t \<Rightarrow> byte list" where
  "connect_header info =
     [0, 4, 0x4D, 0x51, 0x54, 0x54, 4, 0, ucast (drop_bit 8 (keepalive info)), ucast (keepalive info AND 0xff)]"

definition mqtt_msg_connect :: "mqtt_connect_info_t \<Rightarrow> mqtt_connection_t \<Rightarrow> mqtt_connection_t option" where
  "mqtt_msg_connect info c =
     (let c = init_message c in
      if msg_length c + 10 > buffer_length c then Some (fail_message c)
      else
        (let c = store (connect_header info) c;
             c = or_flags (if clean_session info then 0x02 else 0) c
         in if \<not> given (client_id info) then Some (fail_message c)
            else
              (case append_given (password info) 0x40 (append_given (username info) 0x80
                      (append_will info (append_next (client_id info) (Building c)))) of
                 Failed c \<Rightarrow> Some (fail_message c)
               | Crashed \<Rightarrow> None
               | Building c \<Rightarrow> Some (fini_message MQTT_MSG_TYPE_CONNECT 0 0 0 c))))"

text \<open>
  A publication. \<open>data\<close> is the memory behind the data pointer, \<open>mid0\<close> the value at the caller's
  identifier variable before the call; the sum of lengths is computed in 32-bit \<^verbatim>\<open>size_t\<close>.
\<close>

definition mqtt_msg_publish ::
  "byte list option \<Rightarrow> byte list option \<Rightarrow> u32 \<Rightarrow> u8 \<Rightarrow> u8 \<Rightarrow> u16 \<Rightarrow> mqtt_connection_t \<Rightarrow> (u16 \<times> mqtt_connection_t) option" where
  "mqtt_msg_publish topic data data_length qos retain mid0 c =
     (let c = init_message c in
      if \<not> given topic then Some (mid0, fail_message c)
      else
        (case data of
           None \<Rightarrow> Some (mid0, fail_message c)
         | Some [] \<Rightarrow> None
         | Some (d # ds) \<Rightarrow>
             if d = 0 then Some (mid0, fail_message c)
             else
               (case append_string (the topic) c of
                  None \<Rightarrow> Some (mid0, fail_message c)
                | Some c \<Rightarrow>
                    (let (mid, c) = (if qos > 0 then append_message_id 0 c else (0, c)) in
                     if qos > 0 \<and> mid = 0 then Some (mid, fail_message c)
                     else if of_nat (msg_length c) + data_length > of_nat (buffer_length c) then Some (mid, fail_message c)
                     else if unat data_length > length (d # ds) \<or> msg_length c + unat data_length > length (buffer c) then None
                     else Some (mid, fini_message MQTT_MSG_TYPE_PUBLISH 0 qos retain
                                       (store (take (unat data_length) (d # ds)) c))))))"

definition ack_message :: "u8 \<Rightarrow> u8 \<Rightarrow> u16 \<Rightarrow> mqtt_connection_t \<Rightarrow> mqtt_connection_t" where
  "ack_message type qos mid c =
     (let c = init_message c; (mid, c) = append_message_id mid c in
      if mid = 0 then fail_message c else fini_message type 0 qos 0 c)"

definition mqtt_msg_puback :: "u16 \<Rightarrow> mqtt_connection_t \<Rightarrow> mqtt_connection_t" where
  "mqtt_msg_puback = ack_message MQTT_MSG_TYPE_PUBACK 0"

definition mqtt_msg_pubrec :: "u16 \<Rightarrow> mqtt_connection_t \<Rightarrow> mqtt_connection_t" where
  "mqtt_msg_pubrec = ack_message MQTT_MSG_TYPE_PUBREC 0"

definition mqtt_msg_pubrel :: "u16 \<Rightarrow> mqtt_connection_t \<Rightarrow> mqtt_connection_t" where
  "mqtt_msg_pubrel = ack_message MQTT_MSG_TYPE_PUBREL 1"

definition mqtt_msg_pubcomp :: "u16 \<Rightarrow> mqtt_connection_t \<Rightarrow> mqtt_connection_t" where
  "mqtt_msg_pubcomp = ack_message MQTT_MSG_TYPE_PUBCOMP 0"

definition mqtt_msg_subscribe :: "byte list option \<Rightarrow> u8 \<Rightarrow> u16 \<Rightarrow> mqtt_connection_t \<Rightarrow> u16 \<times> mqtt_connection_t" where
  "mqtt_msg_subscribe topic qos mid0 c =
     (let c = init_message c in
      if \<not> given topic then (mid0, fail_message c)
      else
        (let (mid, c) = append_message_id 0 c in
         if mid = 0 then (mid, fail_message c)
         else (case append_string (the topic) c of
                 None \<Rightarrow> (mid, fail_message c)
               | Some c \<Rightarrow>
                   if msg_length c + 1 > buffer_length c then (mid, fail_message c)
                   else (mid, fini_message MQTT_MSG_TYPE_SUBSCRIBE 0 1 0 (store [qos] c)))))"

definition mqtt_msg_unsubscribe :: "byte list option \<Rightarrow> u16 \<Rightarrow> mqtt_connection_t \<Rightarrow> u16 \<times> mqtt_connection_t" where
  "mqtt_msg_unsubscribe topic mid0 c =
     (let c = init_message c in
      if \<not> given topic then (mid0, fail_message c)
      else
        (let (mid, c) = append_message_id 0 c in
         if mid = 0 then (mid, fail_message c)
         else (case append_string (the topic) c of
                 None \<Rightarrow> (mid, fail_message c)
               | Some c \<Rightarrow> (mid, fini_message MQTT_MSG_TYPE_UNSUBSCRIBE 0 1 0 c))))"

definition mqtt_msg_pingreq :: "mqtt_connection_t \<Rightarrow> mqtt_connection_t" where
  "mqtt_msg_pingreq c = fini_message MQTT_MSG_TYPE_PINGREQ 0 0 0 (init_message c)"

definition mqtt_msg_pingresp :: "mqtt_connection_t \<Rightarrow> mqtt_connection_t" where
  "mqtt_msg_pingresp c = fini_message MQTT_MSG_TYPE_PINGRESP 0 0 0 (init_message c)"

definition mqtt_msg_disconnect :: "mqtt_connection_t \<Rightarrow> mqtt_connection_t" where
  "mqtt_msg_disconnect c = fini_message MQTT_MSG_TYPE_DISCONNECT 0 0 0 (init_message c)"

section \<open>The message in the buffer\<close>

text \<open>A connection whose buffer has the length it says, with room for a fixed header; the finished
  message as the client sends it; and the bytes behind the header of a message in progress.\<close>

definition conn_ok :: "mqtt_connection_t \<Rightarrow> bool" where
  "conn_ok c \<longleftrightarrow> length (buffer c) = buffer_length c \<and> 3 \<le> buffer_length c \<and> buffer_length c < 2 ^ 16"

definition message :: "mqtt_connection_t \<Rightarrow> byte list" where
  "message c = take (msg_length c) (drop (msg_data c) (buffer c))"

definition building_ok :: "mqtt_connection_t \<Rightarrow> bool" where
  "building_ok c \<longleftrightarrow> conn_ok c \<and> 3 \<le> msg_length c \<and> msg_length c \<le> buffer_length c"

definition body :: "mqtt_connection_t \<Rightarrow> byte list" where
  "body c = take (msg_length c - 3) (drop 3 (buffer c))"

text \<open>The remaining-length field as \<open>fini_message\<close> writes it, and a whole packet.\<close>

definition length_field :: "nat \<Rightarrow> byte list" where
  "length_field r = (if r > 127 then [0x80 OR of_nat (r mod 128), of_nat (r div 128)] else [of_nat r])"

definition packet :: "u8 \<Rightarrow> u8 \<Rightarrow> u8 \<Rightarrow> byte list \<Rightarrow> byte list" where
  "packet type qos retain b = header_byte type 0 qos retain # length_field (length b) @ b"

definition mqtt_string :: "byte list \<Rightarrow> byte list" where
  "mqtt_string s = [of_nat (length s div 256), of_nat (length s mod 256)] @ s"

definition mqtt_id :: "u16 \<Rightarrow> byte list" where
  "mqtt_id mid = [ucast (drop_bit 8 mid), ucast (mid AND 0xff)]"

lemma building_init: "conn_ok c \<Longrightarrow> building_ok (init_message c) \<and> body (init_message c) = []"
  by (simp add: building_ok_def conn_ok_def init_message_def body_def)

lemma store_ok:
  assumes "building_ok c" and "msg_length c + length bs \<le> buffer_length c"
  shows "building_ok (store bs c)" and "body (store bs c) = body c @ bs"
    and "msg_length (store bs c) = msg_length c + length bs" and "buffer_length (store bs c) = buffer_length c"
proof -
  have c: "length (buffer c) = buffer_length c" "3 \<le> msg_length c" "msg_length c \<le> length (buffer c)" "conn_ok c"
    using assms(1) by (simp_all add: building_ok_def conn_ok_def)
  obtain k where k: "msg_length c = 3 + k" using c(2) le_Suc_ex by blast
  define p where "p = take 3 (buffer c)"
  define q where "q = take k (drop 3 (buffer c))"
  define r where "r = drop (msg_length c + length bs) (buffer c)"
  have pq: "take (msg_length c) (buffer c) = p @ q" "length p = 3" "length q = k"
    using c(3) by (simp_all add: k p_def q_def take_add)
  have st: "buffer (store bs c) = p @ q @ bs @ r" "msg_length (store bs c) = 3 + (k + length bs)"
    using pq(1) by (simp_all add: store_def k r_def)
  show "body (store bs c) = body c @ bs"
    using pq(2,3) unfolding body_def st by (simp add: k q_def)
  have "length (buffer (store bs c)) = length (buffer c)"
    using c assms(2) k pq(2,3) unfolding st by (simp add: r_def)
  then show "building_ok (store bs c)"
    using assms c(4) unfolding building_ok_def conn_ok_def by (simp add: store_def)
qed (simp_all add: store_def)

lemma message_id_store [simp]: "message_id (store bs c) = message_id c"
  by (simp add: store_def)

lemma length_body: "building_ok c \<Longrightarrow> length (body c) = msg_length c - 3"
  by (auto simp: building_ok_def conn_ok_def body_def intro!: min_absorb2)

lemma append_string_cases:
  assumes "building_ok c"
  obtains (no_room) "append_string s c = None" and "msg_length c + length (mqtt_string s) > buffer_length c"
  | (appended) c' where "append_string s c = Some c'" and "building_ok c'" and "body c' = body c @ mqtt_string s"
    and "msg_length c' = msg_length c + length (mqtt_string s)" and "buffer_length c' = buffer_length c" and "message_id c' = message_id c"
proof (cases "msg_length c + length (mqtt_string s) > buffer_length c")
  case True
  then show ?thesis by (intro no_room) (simp_all add: append_string_def mqtt_string_def)
next
  case False
  then have "append_string s c = Some (store (mqtt_string s) c)"
    by (simp add: append_string_def mqtt_string_def)
  with False show ?thesis
    using store_ok [OF assms, of "mqtt_string s"] by (intro appended [of "store (mqtt_string s) c"]) simp_all
qed

lemma fini_message_packet:
  assumes "building_ok c"
  shows "message (fini_message type 0 qos retain c) = packet type qos retain (body c)"
    and "conn_ok (fini_message type 0 qos retain c)"
    and "msg_data (fini_message type 0 qos retain c) + msg_length (fini_message type 0 qos retain c) \<le> buffer_length c"
proof -
  obtain a b d rest where buf: "buffer c = a # b # d # rest" "msg_length c - 3 \<le> length rest"
    using assms by (cases "buffer c" rule: remdups_adj.cases; cases "tl (tl (buffer c))") (auto simp: building_ok_def conn_ok_def)
  then have body: "body c = take (msg_length c - 3) rest" "length (body c) = msg_length c - 3"
    by (auto simp: body_def)
  show "message (fini_message type 0 qos retain c) = packet type qos retain (body c)"
    unfolding packet_def body(2) length_field_def
    by (simp add: fini_message_def message_def Let_def buf(1) body(1) numeral_2_eq_2 numeral_3_eq_3)
  show "conn_ok (fini_message type 0 qos retain c)"
    "msg_data (fini_message type 0 qos retain c) + msg_length (fini_message type 0 qos retain c) \<le> buffer_length c"
    using assms by (auto simp: fini_message_def Let_def conn_ok_def building_ok_def)
qed

lemma id_loop_given: "mid \<noteq> 0 \<Longrightarrow> id_loop mid counter = (mid, counter)"
  by (simp add: id_loop.simps)

lemma id_loop_next: "id_loop 0 counter = (let n = (if counter + 1 = 0 then 1 else counter + 1) in (n, n))"
proof (cases "counter + 1 = 0")
  case True
  then show ?thesis
    by (subst id_loop.simps, simp) (subst id_loop.simps, simp add: id_loop_given Let_def)
next
  case False
  then show ?thesis by (subst id_loop.simps) (simp add: id_loop_given Let_def)
qed

lemma id_loop_nonzero: "fst (id_loop mid counter) \<noteq> 0"
  by (cases "mid = 0") (simp_all add: id_loop_next id_loop_given Let_def)

lemma append_message_id_cases:
  assumes "building_ok c"
  obtains (no_room) c' where "append_message_id mid c = (0, c')" and "msg_length c + 2 > buffer_length c" and "conn_ok c'"
    and "buffer_length c' = buffer_length c"
  | (appended) c' where "append_message_id mid c = (fst (id_loop mid (message_id c)), c')" and "building_ok c'"
    and "body c' = body c @ mqtt_id (fst (id_loop mid (message_id c)))" and "msg_length c' = msg_length c + 2"
    and "buffer_length c' = buffer_length c" and "message_id c' = snd (id_loop mid (message_id c))"
proof (cases "msg_length c + 2 > buffer_length c")
  case True
  then show ?thesis using assms
    by (intro no_room [of "c\<lparr>message_id := snd (id_loop mid (message_id c))\<rparr>"])
      (simp_all add: append_message_id_def building_ok_def conn_ok_def case_prod_beta)
next
  case False
  define mid' where "mid' = fst (id_loop mid (message_id c))"
  define c1 where "c1 = c\<lparr>message_id := snd (id_loop mid (message_id c))\<rparr>"
  have c1: "building_ok c1" "body c1 = body c" "msg_length c1 = msg_length c" "buffer_length c1 = buffer_length c"
    using assms by (simp_all add: c1_def building_ok_def conn_ok_def body_def)
  have "append_message_id mid c = (mid', store (mqtt_id mid') c1)"
    using False by (simp add: append_message_id_def mqtt_id_def c1_def mid'_def split: prod.split)
  with False c1 show ?thesis
    using store_ok [OF c1(1), of "mqtt_id mid'"]
    by (intro appended [of "store (mqtt_id mid') c1"]) (simp_all add: mid'_def c1_def mqtt_id_def)
qed

section \<open>Bytes and length fields\<close>

lemma byte_all:
  assumes "list_all P (map of_int [0..255])"
  shows "P (b :: byte)"
proof -
  have "uint b \<in> set [0..255]" using uint_lt2p [of b] by simp
  then have "of_int (uint b) \<in> set (map of_int [0..255] :: byte list)" by (simp only: set_map) blast
  with assms show ?thesis by (auto simp: list_all_iff)
qed

lemma byte_7f: "uint (b AND 0x7f :: byte) = uint b mod 128"
  by (rule byte_all [of "\<lambda>b. uint (b AND 0x7f) = uint b mod 128"]) code_simp

lemma byte_80: "b AND 0x80 = (0 :: byte) \<longleftrightarrow> uint b < 128"
  by (rule byte_all [of "\<lambda>b. b AND 0x80 = 0 \<longleftrightarrow> uint b < 128"]) code_simp

lemma byte_or_80: "uint (0x80 OR b :: byte) = 128 + uint b mod 128"
  by (rule byte_all [of "\<lambda>b. uint (0x80 OR b) = 128 + uint b mod 128"]) code_simp

lemma byte_le_3: "b \<le> 3 \<longrightarrow> b \<in> set [0, 1, 2, 3 :: byte]"
  by (rule byte_all [of "\<lambda>b. b \<le> 3 \<longrightarrow> b \<in> set [0, 1, 2, 3]"]) code_simp

lemma uint_byte_of_nat: "n < 256 \<Longrightarrow> uint (of_nat n :: byte) = int n"
  by (simp add: uint_of_nat_mod)

lemma header_byte_fields:
  "drop_bit 4 (header_byte type 0 qos retain AND 0xf0) = type AND 0x0f"
  "drop_bit 1 (header_byte type 0 qos retain AND 0x06) = qos AND 3"
  "header_byte type 0 qos retain AND 0x01 = retain AND 1"
proof -
  have lt8: "n < 8 \<longleftrightarrow> n \<in> {0, 1, 2, 3, 4, 5, 6, 7}" for n :: nat by auto
  have "(q * 2 :: byte) = push_bit (Suc 0) q" for q by (simp only: push_bit_eq_mult) simp
  then have dbl: "bit (q * 2 :: byte) (Suc 0) \<longleftrightarrow> bit q 0" "bit (q * 2 :: byte) (Suc (Suc 0)) \<longleftrightarrow> bit q (Suc 0)" for q
    by (simp_all only: bit_push_bit_iff) simp_all
  show "drop_bit 4 (header_byte type 0 qos retain AND 0xf0) = type AND 0x0f"
    by (rule bit_word_eqI, simp add: lt8) (elim disjE; simp add: header_byte_def bit_simps dbl)
  show "drop_bit 1 (header_byte type 0 qos retain AND 0x06) = qos AND 3"
    by (rule bit_word_eqI, simp add: lt8) (elim disjE; simp add: header_byte_def bit_simps dbl)
  show "header_byte type 0 qos retain AND 0x01 = retain AND 1"
    by (rule bit_word_eqI, simp add: lt8) (elim disjE; simp add: header_byte_def bit_simps dbl)
qed

lemma varint_stop:
  assumes "i < len" and "b ! i = v" and "uint v < 128" and "7 * (i - 1) < 32" and "tot + uint v * 2 ^ (7 * (i - 1)) < 2 ^ 31"
  shows "varint b len i tot = Some (tot + uint v * 2 ^ (7 * (i - 1)), i + 1)"
  using assms by (subst varint.simps) (simp add: Let_def byte_7f byte_80)

lemma varint_more:
  assumes "i < len" and "b ! i = v" and "uint v \<ge> 128" and "7 * (i - 1) < 32" and "tot + uint v mod 128 * 2 ^ (7 * (i - 1)) < 2 ^ 31"
  shows "varint b len i tot = varint b len (i + 1) (tot + uint v mod 128 * 2 ^ (7 * (i - 1)))"
  using assms by (subst varint.simps) (simp add: Let_def byte_7f byte_80)

lemma length_length_field: "length (length_field r) = (if r > 127 then 2 else 1)"
  by (simp add: length_field_def)

text \<open>The remaining-length field is read back while it has at most two bytes' worth of value.\<close>

lemma varint_packet:
  assumes "b = h # length_field r @ rest" and "len = length b" and "r < 16384"
  shows "varint b len 1 0 = Some (int r, 1 + length (length_field r))"
proof (cases "r > 127")
  case True
  define hi where "hi = (of_nat (r div 128) :: byte)"
  define lo where "lo = (0x80 OR of_nat (r mod 128) :: byte)"
  have b: "b = h # lo # hi # rest" using True assms(1) by (simp add: length_field_def hi_def lo_def)
  have hi: "uint hi = int (r div 128)" "int (r div 128) < 128"
    using assms(3) by (simp_all only: hi_def) (subst uint_byte_of_nat; simp; linarith?)+
  have lo: "uint lo = 128 + int (r mod 128)"
    unfolding lo_def byte_or_80 by (subst uint_byte_of_nat) (simp_all add: of_nat_mod)
  have m: "r mod 128 < 128" by simp
  have "varint b len 1 0 = varint b len 2 (int (r mod 128))"
    using varint_more [of 1 len b lo 0] lo b assms(2) m by (simp add: numeral_2_eq_2)
  also have "\<dots> = Some (int (r mod 128) + int (r div 128) * 128, 3)"
    using varint_stop [of 2 len b hi "int (r mod 128)"] hi b assms(2) m by simp
  also have "int (r mod 128) + int (r div 128) * 128 = int r"
    by (metis of_nat_add of_nat_mult of_nat_numeral mod_div_mult_eq)
  finally show ?thesis using True by (simp add: length_length_field)
next
  case False
  then have "b = h # of_nat r # rest" using assms(1) by (simp add: length_field_def)
  moreover have "uint (of_nat r :: byte) = int r" using False by (intro uint_byte_of_nat) simp
  ultimately show ?thesis
    using varint_stop [of 1 len b "of_nat r" 0] False assms(2) by (simp add: length_length_field)
qed

lemma skip_varint_packet:
  assumes "b = h # length_field r @ rest" and "len = length b" and "r < 16384"
  shows "skip_varint b len 1 = 1 + length (length_field r)"
proof -
  have "skip_varint b len i = j" if "varint b len i t = Some (v, j)" for i j t v
    using that
  proof (induction b len i t arbitrary: v j rule: varint.induct)
    case (1 b len i t)
    define v0 where "v0 = uint (b ! i AND 0x7f) * 2 ^ (7 * (i - 1))"
    show ?case
    proof (cases "i < len \<and> b ! i AND 0x80 \<noteq> 0")
      case True
      with 1(2) have e: "varint b len (i + 1) (t + v0) = Some (v, j)" "\<not> (7 * (i - 1) \<ge> 32 \<or> t + v0 \<ge> 2 ^ 31)"
        by (subst (asm) varint.simps, simp add: Let_def v0_def split: if_splits)+
      have "skip_varint b len (i + 1) = j" using 1(1) [OF _ v0_def e(2) _ e(1)] True by simp
      with True show ?thesis by (subst skip_varint.simps) simp
    next
      case False
      with 1(2) show ?thesis
        by (subst (asm) varint.simps, subst skip_varint.simps) (auto simp: Let_def split: if_splits)
    qed
  qed
  with varint_packet [OF assms] show ?thesis by blast
qed

lemma unat_byte_of_nat: "n < 256 \<Longrightarrow> unat (of_nat n :: byte) = n"
  by (simp add: unat_of_nat_small)

lemma be16_string:
  assumes "b = pre @ mqtt_string s @ rest" and "length s < 65536"
  shows "be16 b (length pre) = length s"
proof -
  have "length s div 256 < 256" using assms(2) by (simp add: less_mult_imp_div_less)
  then show ?thesis
    by (simp add: be16_def assms(1) mqtt_string_def nth_append unat_byte_of_nat)
qed

lemma id_at_id:
  assumes "b = pre @ mqtt_id mid @ rest"
  shows "id_at b (length pre) = mid"
proof -
  have "push_bit 8 (ucast (ucast (drop_bit 8 mid) :: byte)) OR ucast (ucast (mid AND 0xff) :: byte) = mid"
  proof -
    have ff: "(0xff :: u16) = mask 8" by code_simp
    show ?thesis unfolding ff by (intro bit_word_eqI) (simp only: bit_simps, auto)
  qed
  then show ?thesis by (simp add: id_at_def assms mqtt_id_def nth_append)
qed

definition slice :: "byte list \<Rightarrow> nat \<times> nat \<Rightarrow> byte list" where
  "slice b p = take (snd p) (drop (fst p) b)"

lemma packet_header:
  "mqtt_get_type (packet t q r b) = t AND 0x0f" "mqtt_get_qos (packet t q r b) = q AND 3"
  "mqtt_get_retain (packet t q r b) = r AND 1"
  by (simp_all only: packet_def mqtt_get_type_def mqtt_get_qos_def mqtt_get_retain_def nth_Cons_0 header_byte_fields)

lemma packet_total_length:
  assumes "length b < 16384"
  shows "mqtt_get_total_length (packet t q r b) (length (packet t q r b)) = Some (int (length (packet t q r b)))"
  using varint_packet [OF packet_def refl assms, of t q r]
  by (simp add: mqtt_get_total_length_def) (simp add: packet_def)

lemma packet_topic:
  assumes "b = mqtt_string topic @ rest" and "length b < 16384" and "topic @ rest \<noteq> []"
  shows "\<exists>p. mqtt_get_publish_topic (packet t q r b) (length (packet t q r b)) = Some (Some p) \<and>
    slice (packet t q r b) p = topic"
proof -
  define pre where "pre = header_byte t 0 q r # length_field (length b)"
  have pk: "packet t q r b = pre @ mqtt_string topic @ rest" by (simp add: packet_def pre_def assms(1))
  have len: "length topic < 65536" using assms(1,2) by (simp add: mqtt_string_def)
  have v: "varint (packet t q r b) (length (packet t q r b)) 1 0 = Some (int (length b), length pre)"
    using varint_packet [OF packet_def refl assms(2), of t q r] by (simp add: pre_def)
  have "mqtt_get_publish_topic (packet t q r b) (length (packet t q r b)) = Some (Some (length pre + 2, length topic))"
  proof -
    have "0 < length topic + length rest" using assms(3) by auto
    moreover have "length (packet t q r b) = length pre + 2 + length topic + length rest" by (simp add: pk mqtt_string_def)
    ultimately show ?thesis
      unfolding mqtt_get_publish_topic_def v by (simp add: Let_def be16_string [OF pk len])
  qed
  moreover have "slice (packet t q r b) (length pre + 2, length topic) = topic"
    by (simp add: slice_def pk mqtt_string_def)
  ultimately show ?thesis by blast
qed

text \<open>A publication's body: topic, identifier if the quality of service asks for one, payload.\<close>

definition publish_body :: "byte list \<Rightarrow> u8 \<Rightarrow> u16 \<Rightarrow> byte list \<Rightarrow> byte list" where
  "publish_body topic qos mid data = mqtt_string topic @ (if qos > 0 then mqtt_id mid else []) @ data"

lemma packet_data:
  assumes "b = publish_body topic q mid data" and "length b < 16384" and "data \<noteq> []" and "q \<le> 3"
  shows "\<exists>p. mqtt_get_publish_data (packet 3 q r b) (length (packet 3 q r b)) = Some (Some p) \<and>
      slice (packet 3 q r b) p = data"
    and "mqtt_get_id (packet 3 q r b) (length (packet 3 q r b)) = (if q > 0 then mid else 0)"
proof -
  define pre where "pre = header_byte 3 0 q r # length_field (length b)"
  define ids where "ids = (if q > 0 then mqtt_id mid else [])"
  define P where "P = packet 3 q r b"
  have pk: "P = pre @ mqtt_string topic @ (ids @ data)" "P = (pre @ mqtt_string topic) @ ids @ data"
    by (simp_all add: P_def packet_def pre_def assms(1) publish_body_def ids_def)
  have lens: "length topic < 65536" "length ids = (if q > 0 then 2 else 0)" "0 < length data" "length b = 2 + length topic + length ids + length data"
    using assms(1-3) by (simp_all add: mqtt_string_def publish_body_def ids_def mqtt_id_def)
  have lenP: "length P = length pre + 2 + length topic + length ids + length data" by (simp add: pk mqtt_string_def)
  have v: "varint P (length P) 1 0 = Some (int (length b), length pre)" "skip_varint P (length P) 1 = length pre"
    using varint_packet [OF packet_def refl assms(2), of 3 q r] skip_varint_packet [OF packet_def refl assms(2), of 3 q r]
    by (simp_all add: pre_def P_def)
  have "q \<in> {0, 1, 2, 3}" using assms(4) byte_le_3 by auto
  then have q: "mqtt_get_qos P = q" by (auto simp: P_def packet_header)
  have be: "be16 P (length pre) = length topic" using be16_string [OF pk(1) lens(1)] .
  define off where "off = length pre + 2 + length topic + length ids"
  have "mqtt_get_publish_data P (length P) = Some (Some (off, length data))"
    using lens lenP unfolding mqtt_get_publish_data_def v by (simp add: q Let_def be off_def)
  moreover have "slice P (off, length data) = data"
    by (simp add: slice_def pk off_def mqtt_string_def)
  ultimately show "\<exists>p. mqtt_get_publish_data (packet 3 q r b) (length (packet 3 q r b)) = Some (Some p) \<and>
      slice (packet 3 q r b) p = data"
    unfolding P_def by blast
  have "mqtt_get_type P = 3" by (simp add: P_def packet_header)
  moreover have "id_at P (length (pre @ mqtt_string topic)) = mid" if "q > 0"
    using id_at_id [of P "pre @ mqtt_string topic" mid data] pk(2) that by (simp add: ids_def)
  ultimately show "mqtt_get_id (packet 3 q r b) (length (packet 3 q r b)) = (if q > 0 then mid else 0)"
    using lens lenP unfolding P_def [symmetric] mqtt_get_id_def v
    by (simp add: q Let_def be mqtt_string_def)
qed

section \<open>Properties\<close>

lemma publish_packet:
  assumes "conn_ok c" and "topic \<noteq> []" and "data \<noteq> []" and "hd data \<noteq> 0"
    and "5 + length topic + (if qos > 0 then 2 else 0) + length data \<le> buffer_length c"
  obtains mid c' where "mqtt_msg_publish (Some topic) (Some data) (of_nat (length data)) qos retain mid0 c = Some (mid, c')"
    and "message c' = packet 3 qos retain (publish_body topic qos mid data)" and "mid \<noteq> 0 \<longleftrightarrow> qos > 0"
proof -
  obtain d ds where data: "data = d # ds" "d \<noteq> 0" using assms(3,4) by (cases data) auto
  have c0: "building_ok (init_message c)" "body (init_message c) = []" "msg_length (init_message c) = 3"
    "buffer_length (init_message c) = buffer_length c"
    using building_init [OF assms(1)] by (simp_all add: init_message_def)
  obtain c1 where c1: "append_string topic (init_message c) = Some c1" "building_ok c1" "body c1 = mqtt_string topic"
    "msg_length c1 = 5 + length topic" "buffer_length c1 = buffer_length c"
    using append_string_cases [OF c0(1), of topic] c0 assms(5) by (auto simp: mqtt_string_def split: if_splits)
  obtain mid c2 where c2: "(if qos > 0 then append_message_id 0 c1 else (0, c1)) = (mid, c2)" "building_ok c2"
    "body c2 = mqtt_string topic @ (if qos > 0 then mqtt_id mid else [])"
    "msg_length c2 = 5 + length topic + (if qos > 0 then 2 else 0)" "buffer_length c2 = buffer_length c" "mid \<noteq> 0 \<longleftrightarrow> qos > 0"
  proof (cases "qos > 0")
    case True
    show ?thesis
    proof (rule append_message_id_cases [OF c1(2), of 0])
      fix c' assume "msg_length c1 + 2 > buffer_length c1"
      with True assms(5) c1 show ?thesis by simp
    next
      fix c' assume "append_message_id 0 c1 = (fst (id_loop 0 (message_id c1)), c')" "building_ok c'"
        "body c' = body c1 @ mqtt_id (fst (id_loop 0 (message_id c1)))" "msg_length c' = msg_length c1 + 2"
        "buffer_length c' = buffer_length c1"
      with True c1 id_loop_nonzero show ?thesis
        by (intro that [of "fst (id_loop 0 (message_id c1))" c']) simp_all
    qed
  next
    case False
    with c1 show ?thesis by (intro that [of 0 c1]) simp_all
  qed
  have bl: "buffer_length c < 65536" "length (buffer c2) = buffer_length c"
    using assms(1) c2(2,5) by (simp_all add: conn_ok_def building_ok_def)
  have len: "msg_length c2 + length data \<le> buffer_length c2" using assms(5) c2(4,5) by simp
  have small: "length data < 2 ^ 32" "msg_length c2 + length data < 2 ^ 32" using len bl(1) c2(5) by simp_all
  have nowrap: "\<not> of_nat (msg_length c2) + of_nat (length data) > (of_nat (buffer_length c2) :: u32)"
    using len small bl(1) c2(5)
    by (simp add: word_less_nat_alt unat_of_nat_small flip: of_nat_add)
  have st: "building_ok (store data c2)" "body (store data c2) = publish_body topic qos mid data"
    using store_ok [OF c2(2) len] c2(3) by (simp_all add: publish_body_def)
  define dl where "dl = (of_nat (length data) :: u32)"
  have dl: "unat dl = Suc (length ds)" using unat_of_nat_small [of "length data", where 'a = 32] small(1) data(1) by (simp add: dl_def)
  have "mqtt_msg_publish (Some topic) (Some data) dl qos retain mid0 c = Some (mid, fini_message 3 0 qos retain (store data c2))"
    using c1(1) c2(1,6) nowrap [folded dl_def] len bl c2(5) assms(2) data
    by (simp add: mqtt_msg_publish_def Let_def given_def dl split: if_splits)
  then show ?thesis using fini_message_packet(1) [OF st(1)] st(2) c2(6) unfolding dl_def by (intro that [of mid "fini_message 3 0 qos retain (store data c2)"]) simp_all
qed

text \<open>C15. Publications survive the wire. Whenever a publication fits the buffer and its remaining length the
  two length bytes, the builder's message has the type, quality of service and retain flag asked for,
  announces its own length, and the accessors applied to it return the topic, the payload and the
  message identifier; the identifier is non-zero exactly when the quality of service needs one.\<close>

theorem publish_round_trip:
  assumes "conn_ok c" and "topic \<noteq> []" and "data \<noteq> []" and "hd data \<noteq> 0" and "qos \<le> 3"
    and "5 + length topic + (if qos > 0 then 2 else 0) + length data \<le> min (buffer_length c) 16386"
  shows "\<exists>mid c'. mqtt_msg_publish (Some topic) (Some data) (of_nat (length data)) qos retain mid0 c = Some (mid, c') \<and>
    (let m = message c'; n = length m in
     mqtt_get_type m = MQTT_MSG_TYPE_PUBLISH \<and> mqtt_get_qos m = qos \<and> mqtt_get_retain m = retain AND 1 \<and>
     mqtt_get_total_length m n = Some (int n) \<and>
     (\<exists>p. mqtt_get_publish_topic m n = Some (Some p) \<and> slice m p = topic) \<and>
     (\<exists>p. mqtt_get_publish_data m n = Some (Some p) \<and> slice m p = data) \<and>
     mqtt_get_id m n = mid \<and> (mid \<noteq> 0 \<longleftrightarrow> qos > 0))"
proof -
  from assms(6) have fits: "5 + length topic + (if qos > 0 then 2 else 0) + length data \<le> buffer_length c" by simp
  from publish_packet [OF assms(1-4) fits] obtain mid c' where
    pub: "mqtt_msg_publish (Some topic) (Some data) (of_nat (length data)) qos retain mid0 c = Some (mid, c')"
    and m: "message c' = packet 3 qos retain (publish_body topic qos mid data)" and mid: "mid \<noteq> 0 \<longleftrightarrow> qos > 0"
    by blast
  define b where "b = publish_body topic qos mid data"
  have small: "length b < 16384" using assms(6) by (simp add: b_def publish_body_def mqtt_string_def mqtt_id_def split: if_splits)
  have b: "b = mqtt_string topic @ ((if qos > 0 then mqtt_id mid else []) @ data)" by (simp add: b_def publish_body_def)
  have "qos AND 3 = qos" using byte_le_3 [of qos] assms(5) by auto
  moreover have "topic @ ((if qos > 0 then mqtt_id mid else []) @ data) \<noteq> []" using assms(2) by simp
  moreover have "(if qos > 0 then mid else 0) = mid" using mid by auto
  moreover have "message c' = packet 3 qos retain b" by (simp add: m b_def)
  ultimately show ?thesis
    using mid packet_header [of 3 qos retain b] packet_total_length [OF small, of 3 qos retain]
      packet_topic [OF b small, of 3 qos retain] packet_data [OF b_def small assms(3,5), of retain]
    by (intro exI [of _ mid] exI [of _ c'] conjI pub) (simp add: Let_def)
qed

theorem publish_round_trip_witness:
  "\<exists>mid c'. mqtt_msg_publish (Some [0x61, 0x62]) (Some [1, 2, 3]) 3 1 1 0
      \<lparr>msg_data = 0, msg_length = 0, message_id = 0xffff, buffer = replicate 40 0, buffer_length = 40\<rparr> = Some (mid, c') \<and>
    mqtt_get_total_length (message c') (length (message c')) = Some (int (length (message c'))) \<and> mid \<noteq> 0"
proof -
  let ?c = "\<lparr>msg_data = 0, msg_length = 0, message_id = 0xffff, buffer = replicate 40 0, buffer_length = 40\<rparr>"
  have "conn_ok ?c" by (simp add: conn_ok_def)
  from publish_round_trip [OF this, of "[0x61, 0x62]" "[1, 2, 3]" 1 1 0] show ?thesis
    by (auto simp: Let_def)
qed

subsection \<open>Every builder stays inside the buffer\<close>

definition sent_ok :: "nat \<Rightarrow> mqtt_connection_t \<Rightarrow> bool" where
  "sent_ok n c \<longleftrightarrow> conn_ok c \<and> buffer_length c = n \<and> msg_data c + msg_length c \<le> n"

lemma sent_fail: "conn_ok c \<Longrightarrow> buffer_length c = n \<Longrightarrow> sent_ok n (fail_message c)"
  by (simp add: sent_ok_def fail_message_def conn_ok_def)

lemma sent_fini: "building_ok c \<Longrightarrow> buffer_length c = n \<Longrightarrow> sent_ok n (fini_message t 0 q r c)"
  using fini_message_packet(2,3) [of c t q r] by (auto simp: sent_ok_def fini_message_def Let_def)

lemma building_conn: "building_ok c \<Longrightarrow> conn_ok c"
  by (simp add: building_ok_def)

fun progress_ok :: "nat \<Rightarrow> building \<Rightarrow> bool" where
  "progress_ok n (Building c) \<longleftrightarrow> building_ok c \<and> buffer_length c = n"
| "progress_ok n (Failed c) \<longleftrightarrow> conn_ok c \<and> buffer_length c = n"
| "progress_ok n Crashed \<longleftrightarrow> False"

lemma or_flags_ok: "building_ok c \<Longrightarrow> building_ok (or_flags f c) \<and> buffer_length (or_flags f c) = buffer_length c"
  by (simp add: or_flags_def building_ok_def conn_ok_def)

lemma progress_set_flags: "progress_ok n b \<Longrightarrow> progress_ok n (set_flags f b)"
  by (cases b) (auto simp: set_flags_def or_flags_ok)

lemma progress_append_next:
  assumes "progress_ok n b" and "s \<noteq> None"
  shows "progress_ok n (append_next s b)"
proof (cases b)
  case (Building c)
  obtain x where "s = Some x" using assms(2) by blast
  moreover have "building_ok c" "buffer_length c = n" using Building assms(1) by auto
  ultimately show ?thesis
    using append_string_cases [OF \<open>building_ok c\<close>, of x]
    by (cases "append_string x c") (auto simp: Building append_next_def building_conn)
qed (use assms in \<open>simp_all add: append_next_def\<close>)

lemma progress_append_given: "progress_ok n b \<Longrightarrow> progress_ok n (append_given s f b)"
  by (simp add: append_given_def given_def progress_set_flags progress_append_next)

lemma progress_append_will:
  "progress_ok n b \<Longrightarrow> given (will_topic info) \<longrightarrow> will_message info \<noteq> None \<Longrightarrow> progress_ok n (append_will info b)"
  by (auto simp: append_will_def given_def intro!: progress_set_flags progress_append_next)

lemma connect_sent:
  assumes "conn_ok c" and "given (will_topic info) \<longrightarrow> will_message info \<noteq> None"
  shows "\<exists>c'. mqtt_msg_connect info c = Some c' \<and> sent_ok (buffer_length c) c'"
proof -
  define c0 where "c0 = init_message c"
  have c0: "building_ok c0" "msg_length c0 = 3" "buffer_length c0 = buffer_length c"
    using building_init [OF assms(1)] by (simp_all add: c0_def init_message_def)
  show ?thesis
  proof (cases "msg_length c0 + 10 > buffer_length c0")
    case True
    then show ?thesis
      using c0 by (simp add: mqtt_msg_connect_def sent_fail building_conn flip: c0_def)
  next
    case False
    define c1 where "c1 = or_flags (if clean_session info then 0x02 else 0) (store (connect_header info) c0)"
    have c1: "building_ok c1" "buffer_length c1 = buffer_length c"
      using store_ok [OF c0(1), of "connect_header info"] False c0(3) or_flags_ok by (auto simp: c1_def connect_header_def)
    define b where "b = append_given (password info) 0x40 (append_given (username info) 0x80
        (append_will info (append_next (client_id info) (Building c1))))"
    have "progress_ok (buffer_length c) b" if "given (client_id info)"
      unfolding b_def using that c1 assms(2)
      by (intro progress_append_given progress_append_will progress_append_next) (auto simp: given_def)
    moreover have "mqtt_msg_connect info c = (if \<not> given (client_id info) then Some (fail_message c1)
        else (case b of Failed c \<Rightarrow> Some (fail_message c) | Crashed \<Rightarrow> None | Building c \<Rightarrow> Some (fini_message 1 0 0 0 c)))"
      using False by (simp add: mqtt_msg_connect_def Let_def b_def c1_def flip: c0_def)
    ultimately show ?thesis
      using c1 by (cases b) (auto simp: sent_fail sent_fini building_conn)
  qed
qed

lemma append_id_ok:
  assumes "building_ok c" and "append_message_id mid c = (m, c')"
  shows "conn_ok c' \<and> buffer_length c' = buffer_length c \<and> (m \<noteq> 0 \<longrightarrow> building_ok c')"
  by (cases rule: append_message_id_cases [OF assms(1), of mid]) (use assms(2) in \<open>auto simp: building_conn\<close>)

lemma append_string_ok:
  assumes "building_ok c" and "append_string s c = Some c'"
  shows "building_ok c' \<and> buffer_length c' = buffer_length c"
  by (cases rule: append_string_cases [OF assms(1), of s]) (use assms(2) in auto)

lemma ack_sent:
  assumes "conn_ok c"
  shows "sent_ok (buffer_length c) (ack_message t q mid c)"
proof -
  have c0: "building_ok (init_message c)" "buffer_length (init_message c) = buffer_length c"
    using building_init [OF assms] by (simp_all add: init_message_def)
  obtain m c' where "append_message_id mid (init_message c) = (m, c')" by fastforce
  with append_id_ok [OF c0(1) this] c0(2) show ?thesis
    by (simp add: ack_message_def sent_fail sent_fini)
qed

lemma subscribe_sent:
  assumes "conn_ok c"
  shows "sent_ok (buffer_length c) (snd (mqtt_msg_subscribe topic qos mid0 c))"
    and "sent_ok (buffer_length c) (snd (mqtt_msg_unsubscribe topic mid0 c))"
proof -
  have c0: "building_ok (init_message c)" "buffer_length (init_message c) = buffer_length c"
    using building_init [OF assms] by (simp_all add: init_message_def)
  obtain m c1 where m: "append_message_id 0 (init_message c) = (m, c1)" by fastforce
  have c1: "conn_ok c1" "buffer_length c1 = buffer_length c" "m \<noteq> 0 \<Longrightarrow> building_ok c1"
    using append_id_ok [OF c0(1) m] c0(2) by auto
  have c2: "building_ok c2 \<and> buffer_length c2 = buffer_length c \<and>
      (msg_length c2 + 1 \<le> buffer_length c2 \<longrightarrow> building_ok (store [qos] c2) \<and> buffer_length (store [qos] c2) = buffer_length c)"
    if "m \<noteq> 0" "append_string s c1 = Some c2" for s c2
    using append_string_ok [OF c1(3) [OF that(1)] that(2)] c1(2) store_ok [of c2 "[qos]"] by simp
  show "sent_ok (buffer_length c) (snd (mqtt_msg_subscribe topic qos mid0 c))"
    "sent_ok (buffer_length c) (snd (mqtt_msg_unsubscribe topic mid0 c))"
    using c0 c1 c2 m
    by (auto simp: mqtt_msg_subscribe_def mqtt_msg_unsubscribe_def Let_def building_conn not_less
        intro!: sent_fail sent_fini split: option.split)
qed

lemma publish_sent:
  assumes "conn_ok c" and "data \<noteq> []" and "unat dl \<le> length data" and "unat dl < 2 ^ 32 - 2 ^ 16"
  shows "\<exists>mid c'. mqtt_msg_publish topic (Some data) dl qos retain mid0 c = Some (mid, c') \<and> sent_ok (buffer_length c) c'"
proof -
  obtain d ds where data: "data = d # ds" using assms(2) by (cases data) auto
  define c0 where "c0 = init_message c"
  have c0: "building_ok c0" "buffer_length c0 = buffer_length c"
    using building_init [OF assms(1)] by (simp_all add: c0_def init_message_def)
  show ?thesis
  proof (cases "given topic \<and> d \<noteq> 0 \<and> append_string (the topic) c0 \<noteq> None")
    case False
    then show ?thesis
      using c0 by (auto simp: mqtt_msg_publish_def data Let_def building_conn sent_fail simp flip: c0_def split: option.split)
  next
    case True
    then obtain c1 where c1: "append_string (the topic) c0 = Some c1" by blast
    obtain mid c2 where c2: "(if qos > 0 then append_message_id 0 c1 else (0, c1)) = (mid, c2)" by fastforce
    have ok1: "building_ok c1" "buffer_length c1 = buffer_length c" using append_string_ok [OF c0(1) c1] c0(2) by auto
    have ok2: "conn_ok c2" "buffer_length c2 = buffer_length c" "\<not> (qos > 0 \<and> mid = 0) \<Longrightarrow> building_ok c2"
      using append_id_ok [OF ok1(1), of 0 mid c2] c2 ok1 by (auto simp: building_conn split: if_splits)
    have fits: "building_ok (store (take (unat dl) data) c2) \<and> msg_length c2 + unat dl \<le> length (buffer c2)"
      if "building_ok c2" "\<not> of_nat (msg_length c2) + dl > (of_nat (buffer_length c2) :: u32)"
    proof -
      have b: "msg_length c2 \<le> buffer_length c2" "buffer_length c2 < 65536" "length (buffer c2) = buffer_length c2"
        using that(1) by (simp_all add: building_ok_def conn_ok_def)
      then have "unat (of_nat (msg_length c2) + dl :: u32) = msg_length c2 + unat dl"
        using assms(4) by (simp add: unat_word_ariths unat_of_nat_small)
      then have "msg_length c2 + unat dl \<le> buffer_length c2"
        using that(2) b by (simp add: word_less_nat_alt unat_of_nat_small)
      then show ?thesis using store_ok [OF that(1), of "take (unat dl) data"] assms(3) b(3) by simp
    qed
    have eq: "mqtt_msg_publish topic (Some data) dl qos retain mid0 c =
        (if qos > 0 \<and> mid = 0 then Some (mid, fail_message c2)
         else if of_nat (msg_length c2) + dl > of_nat (buffer_length c2) then Some (mid, fail_message c2)
         else if unat dl > length data \<or> msg_length c2 + unat dl > length (buffer c2) then None
         else Some (mid, fini_message 3 0 qos retain (store (take (unat dl) data) c2)))"
      using True c1 c2 by (simp add: mqtt_msg_publish_def data Let_def flip: c0_def)
    show ?thesis
    proof (cases "(qos > 0 \<and> mid = 0) \<or> of_nat (msg_length c2) + dl > (of_nat (buffer_length c2) :: u32)")
      case True
      then show ?thesis unfolding eq using sent_fail [OF ok2(1,2)] by auto
    next
      case False
      with ok2(3) fits have "building_ok (store (take (unat dl) data) c2)" "msg_length c2 + unat dl \<le> length (buffer c2)"
        by blast+
      moreover have "buffer_length (store (take (unat dl) data) c2) = buffer_length c" by (simp add: store_def ok2(2))
      ultimately show ?thesis unfolding eq using False assms(3) sent_fini by auto
    qed
  qed
qed



subsection \<open>Identifiers of the other control packets\<close>

lemma packet_id:
  assumes "t \<in> {4, 5, 6, 7, 8, 10}" and "b = mqtt_id mid @ rest" and "length b < 16384"
  shows "mqtt_get_id (packet t q r b) (length (packet t q r b)) = (if length b \<le> 127 then mid else 0)"
proof -
  have type: "mqtt_get_type (packet t q r b) = t" using assms(1) by (auto simp: packet_header)
  show ?thesis
  proof (cases "length b \<le> 127")
    case True
    then have pk: "packet t q r b = [header_byte t 0 q r, of_nat (length b)] @ mqtt_id mid @ rest"
      by (simp add: packet_def length_field_def assms(2))
    have "uint (of_nat (length b) :: byte) < 128" using True by (simp add: uint_byte_of_nat)
    moreover have "id_at (packet t q r b) 2 = mid" using id_at_id [OF pk] by (simp add: numeral_2_eq_2)
    moreover have "packet t q r b ! 1 = of_nat (length b)" "4 \<le> length (packet t q r b)"
      by (simp_all add: pk mqtt_id_def)
    ultimately show ?thesis
      unfolding mqtt_get_id_def type using assms(1) True by (auto simp: byte_80)
  next
    case False
    then have "packet t q r b ! 1 = 0x80 OR of_nat (length b mod 128)" by (simp add: packet_def length_field_def)
    moreover have "\<not> uint (0x80 OR of_nat (length b mod 128) :: byte) < 128" unfolding byte_or_80 by simp
    ultimately show ?thesis
      unfolding mqtt_get_id_def type using assms(1) False by (auto simp: byte_80)
  qed
qed

lemma ack_packet:
  assumes "conn_ok c" and "5 \<le> buffer_length c" and "mid \<noteq> 0"
  shows "message (ack_message t q mid c) = packet t q 0 (mqtt_id mid)"
proof -
  have c0: "building_ok (init_message c)" "body (init_message c) = []" "msg_length (init_message c) = 3"
    "buffer_length (init_message c) = buffer_length c"
    using building_init [OF assms(1)] by (simp_all add: init_message_def)
  show ?thesis
    by (cases rule: append_message_id_cases [OF c0(1), of mid])
      (use assms c0 in \<open>auto simp: ack_message_def id_loop_given fini_message_packet(1)\<close>)
qed

lemma subscribe_packet:
  assumes "conn_ok c" and "topic \<noteq> []" and "8 + length topic \<le> buffer_length c"
  obtains mid c' where "mqtt_msg_subscribe (Some topic) qos mid0 c = (mid, c')" and "mid \<noteq> 0"
    and "message c' = packet 8 1 0 (mqtt_id mid @ mqtt_string topic @ [qos])"
proof -
  have c0: "building_ok (init_message c)" "body (init_message c) = []" "msg_length (init_message c) = 3"
    "buffer_length (init_message c) = buffer_length c"
    using building_init [OF assms(1)] by (simp_all add: init_message_def)
  obtain mid c1 where c1: "append_message_id 0 (init_message c) = (mid, c1)" "mid \<noteq> 0" "building_ok c1"
    "body c1 = mqtt_id mid" "msg_length c1 = 5" "buffer_length c1 = buffer_length c"
    by (cases rule: append_message_id_cases [OF c0(1), of 0]) (use assms(3) c0 id_loop_nonzero in auto)
  obtain c2 where c2: "append_string topic c1 = Some c2" "building_ok c2" "body c2 = mqtt_id mid @ mqtt_string topic"
    "msg_length c2 = 7 + length topic" "buffer_length c2 = buffer_length c"
    by (cases rule: append_string_cases [OF c1(3), of topic]) (use assms(3) c1 in \<open>auto simp: mqtt_string_def\<close>)
  have "mqtt_msg_subscribe (Some topic) qos mid0 c = (mid, fini_message 8 0 1 0 (store [qos] c2))"
    using c1 c2 assms(2,3) by (simp add: mqtt_msg_subscribe_def given_def)
  then show ?thesis
    using store_ok [OF c2(2), of "[qos]"] c2(3-5) assms(3) c1(2)
    by (intro that [of mid "fini_message 8 0 1 0 (store [qos] c2)"]) (simp_all add: fini_message_packet(1))
qed

text \<open>Acknowledgements are four bytes from which the identifier is read back. A subscription carries a
  fresh non-zero identifier as well, but the accessor finds it only while the remaining length takes one
  byte: for a topic of 123 characters or more it returns 0.\<close>

theorem control_packet_ids:
  assumes "conn_ok c" and "5 \<le> buffer_length c" and "mid \<noteq> 0"
    and "topic \<noteq> []" and "8 + length topic \<le> min (buffer_length c) 16386"
  shows "(\<forall>m \<in> {message (mqtt_msg_puback mid c), message (mqtt_msg_pubrec mid c), message (mqtt_msg_pubrel mid c), message (mqtt_msg_pubcomp mid c)}.
       length m = 4 \<and> mqtt_get_id m 4 = mid \<and> mqtt_get_total_length m 4 = Some 4) \<and>
    (\<exists>sid c'. mqtt_msg_subscribe (Some topic) qos mid0 c = (sid, c') \<and> sid \<noteq> 0 \<and>
       mqtt_get_type (message c') = MQTT_MSG_TYPE_SUBSCRIBE \<and>
       mqtt_get_id (message c') (length (message c')) = (if length topic < 123 then sid else 0))"
proof -
  have "length (packet t q 0 (mqtt_id mid)) = 4" for t q
    by (simp add: packet_def length_field_def mqtt_id_def)
  then have ack: "length m = 4 \<and> mqtt_get_id m 4 = mid \<and> mqtt_get_total_length m 4 = Some 4"
    if "m = message (ack_message t q mid c)" "t \<in> {4, 5, 6, 7}" for t q m
    using packet_id [of t "mqtt_id mid" mid "[]" q 0] packet_total_length [of "mqtt_id mid" t q 0] that
      ack_packet [OF assms(1-3), of t q] by (auto simp: mqtt_id_def)
  from assms(5) have "8 + length topic \<le> buffer_length c" by simp
  from subscribe_packet [OF assms(1,4) this] obtain sid c' where sub: "mqtt_msg_subscribe (Some topic) qos mid0 c = (sid, c')"
    "sid \<noteq> 0" "message c' = packet 8 1 0 (mqtt_id sid @ mqtt_string topic @ [qos])" by blast
  have "length (mqtt_id sid @ mqtt_string topic @ [qos]) = 5 + length topic" by (simp add: mqtt_id_def mqtt_string_def)
  then have "mqtt_get_id (message c') (length (message c')) = (if length topic < 123 then sid else 0)"
    using packet_id [of 8 _ sid "mqtt_string topic @ [qos]" 1 0, OF _ refl] assms(5) sub(3) by auto
  moreover have "mqtt_get_type (message c') = 8" unfolding sub(3) packet_header by simp
  ultimately show ?thesis
    using ack sub(1,2)
    by (auto simp: mqtt_msg_puback_def mqtt_msg_pubrec_def mqtt_msg_pubrel_def mqtt_msg_pubcomp_def)
qed

theorem control_packet_ids_witness:
  "mqtt_get_id (message (mqtt_msg_puback 0x1234
      \<lparr>msg_data = 0, msg_length = 0, message_id = 0, buffer = replicate 20 0, buffer_length = 20\<rparr>)) 4 = 0x1234"
  using control_packet_ids [of "\<lparr>msg_data = 0, msg_length = 0, message_id = 0, buffer = replicate 20 0, buffer_length = 20\<rparr>"
      "0x1234" "[0x61]"]
  by (simp add: conn_ok_def)

end
