(* ===== verification/TmpFs.thy ===== *)
theory TmpFs
  imports Prelude "HOL-Library.Sublist"
begin

text \<open>
  The in-memory file system of \<^verbatim>\<open>interface/pdi/impl/modules/storage/TmpFs.cpp\<close>: a vector of nodes with
  full normalised paths. Paths and contents are strings, a null pointer is \<open>None\<close>; a content pointer is
  the memory behind it, which holds at least the number of bytes the caller passes. Who creates a node and when (the current session and the
  network clock) is an argument. Sizes are added in 32 bits as in the code; \<open>None\<close> as the result of an
  edit is a write outside the string.
\<close>

unbundle bit_operations_syntax

section \<open>Model\<close>

datatype file_type_t = FILE_TYPE_REG | FILE_TYPE_DIR | FILE_TYPE_LINK

record tmpfs_node_t =
  m_path :: string
  m_data :: string
  m_type :: file_type_t
  m_perms :: u16
  m_uid :: u16
  m_gid :: u16
  m_ctime :: u32
  m_mtime :: u32

type_synonym tmpfs = "tmpfs_node_t list"

record file_info_t =
  fi_type :: file_type_t
  fi_size :: nat
  fi_name :: string
  fi_perms :: u16
  fi_uid :: u16
  fi_gid :: u16
  fi_ctime :: u32
  fi_mtime :: u32

text \<open>What the stamping hooks read: clock, owner and umask of the current session.\<close>

record stamp =
  now_epoch :: u32
  owner_uid :: u16
  owner_gid :: u16
  owner_umask :: u16

abbreviation (input) "TMPFS_MAX_BYTES \<equiv> (4096 :: u32)"
abbreviation (input) "TMPFS_MAX_NODES \<equiv> (24 :: nat)"
abbreviation (input) "TMPFS_MAX_PATH \<equiv> (63 :: nat)"
abbreviation (input) "FILE_PERM_DEFAULT_FILE \<equiv> (0x1A4 :: u16)"
abbreviation (input) "FILE_PERM_DEFAULT_DIR \<equiv> (0x1ED :: u16)"

abbreviation slash :: char where
  "slash \<equiv> CHR ''/''"

subsection \<open>Path helpers\<close>

definition normalize :: "string option \<Rightarrow> string" where
  "normalize path =
     (case path of None \<Rightarrow> []
      | Some s \<Rightarrow> rev (dropWhile (\<lambda>c. c = slash) (rev (dropWhile (\<lambda>c. c = slash) s))))"

fun findNode :: "tmpfs \<Rightarrow> string \<Rightarrow> nat option" where
  "findNode [] p = None"
| "findNode (n # ns) p = (if m_path n = p then Some 0 else map_option Suc (findNode ns p))"

definition parentOf :: "string \<Rightarrow> string" where
  "parentOf p = (if slash \<in> set p then rev (tl (dropWhile (\<lambda>c. c \<noteq> slash) (rev p))) else [])"

definition parentExists :: "tmpfs \<Rightarrow> string \<Rightarrow> bool" where
  "parentExists ns p =
     (let parent = parentOf p in
      parent = [] \<or> (case findNode ns parent of None \<Rightarrow> False | Some i \<Rightarrow> m_type (ns ! i) = FILE_TYPE_DIR))"

definition usedBytes :: "tmpfs \<Rightarrow> u32" where
  "usedBytes ns = fold (\<lambda>n total. total + of_nat (length (m_data n))) ns 0"

definition stampNew :: "stamp \<Rightarrow> u16 \<Rightarrow> tmpfs_node_t \<Rightarrow> tmpfs_node_t" where
  "stampNew E defperms n = n\<lparr>m_uid := owner_uid E, m_gid := owner_gid E,
     m_perms := defperms AND NOT (owner_umask E), m_ctime := now_epoch E, m_mtime := now_epoch E\<rparr>"

definition fresh_node :: "string \<Rightarrow> string \<Rightarrow> file_type_t \<Rightarrow> tmpfs_node_t" where
  "fresh_node p data t = \<lparr>m_path = p, m_data = data, m_type = t, m_perms = 0, m_uid = 0, m_gid = 0, m_ctime = 0, m_mtime = 0\<rparr>"

subsection \<open>Writing\<close>

definition piece :: "string option \<Rightarrow> u32 \<Rightarrow> string" where
  "piece content n = (case content of None \<Rightarrow> [] | Some mem \<Rightarrow> take (unat n) mem)"

definition putContent :: "stamp \<Rightarrow> string \<Rightarrow> string option \<Rightarrow> u32 \<Rightarrow> bool \<Rightarrow> tmpfs \<Rightarrow> int \<times> tmpfs" where
  "putContent E norm content n app ns =
     (if norm = [] \<or> length norm > TMPFS_MAX_PATH then (-1, ns)
      else
        (case findNode ns norm of
           None \<Rightarrow>
             if \<not> parentExists ns norm then (-1, ns)
             else if length ns \<ge> TMPFS_MAX_NODES then (-1, ns)
             else if usedBytes ns + n > TMPFS_MAX_BYTES then (-1, ns)
             else (sint n, ns @ [stampNew E FILE_PERM_DEFAULT_FILE (fresh_node norm (piece content n) FILE_TYPE_REG)])
         | Some i \<Rightarrow>
             if m_type (ns ! i) = FILE_TYPE_DIR then (-1, ns)
             else
               (let oldlen = of_nat (length (m_data (ns ! i)));
                    newused = (if app then usedBytes ns + n else usedBytes ns - oldlen + n)
                in if newused > TMPFS_MAX_BYTES then (-1, ns)
                   else (sint n, ns[i := (ns ! i)\<lparr>m_data := (if app then m_data (ns ! i) else []) @ piece content n,
                                                m_mtime := now_epoch E\<rparr>]))))"

definition createFile :: "stamp \<Rightarrow> string option \<Rightarrow> string option \<Rightarrow> int \<Rightarrow> tmpfs \<Rightarrow> int \<times> tmpfs" where
  "createFile E path content sz ns =
     (let norm = normalize path in
      if norm = [] then (-1, ns)
      else if findNode ns norm \<noteq> None then (-1, ns)
      else (let len = (if sz < 0 then (case content of None \<Rightarrow> 0 | Some mem \<Rightarrow> of_nat (length (cstr mem))) else of_int sz)
            in putContent E norm content len False ns))"

definition writeFile :: "stamp \<Rightarrow> string option \<Rightarrow> string option \<Rightarrow> u32 \<Rightarrow> bool \<Rightarrow> tmpfs \<Rightarrow> int \<times> tmpfs" where
  "writeFile E path content n app ns = putContent E (normalize path) content n app ns"

text \<open>The byte-wise store of an edit, with the 32-bit index of the code.\<close>

fun write_loop :: "u32 \<Rightarrow> string \<Rightarrow> string \<Rightarrow> string option" where
  "write_loop i [] data = Some data"
| "write_loop i (c # cs) data =
     (if unat i < length data then write_loop (i + 1) cs (data[unat i := c]) else None)"

definition editFile :: "stamp \<Rightarrow> string option \<Rightarrow> u64 \<Rightarrow> string option \<Rightarrow> u32 \<Rightarrow> tmpfs \<Rightarrow> (int \<times> tmpfs) option" where
  "editFile E path offset content n ns =
     (case (findNode ns (normalize path), content) of
        (Some i, Some mem) \<Rightarrow>
          if m_type (ns ! i) \<noteq> FILE_TYPE_REG then Some (-1, ns)
          else
            (let data = m_data (ns ! i); oldlen = of_nat (length data) :: u32; off = ucast offset :: u32; end = off + n in
             if end > oldlen \<and> usedBytes ns - oldlen + end > TMPFS_MAX_BYTES then Some (-1, ns)
             else
               (let data = (if end > oldlen then data @ replicate (unat end - length data) NUL else data) in
                case write_loop off (take (unat n) mem) data of
                  None \<Rightarrow> None
                | Some data \<Rightarrow> Some (sint n, ns[i := (ns ! i)\<lparr>m_data := data, m_mtime := now_epoch E\<rparr>])))
      | _ \<Rightarrow> Some (-1, ns))"

text \<open>Reading in pieces of at most \<open>chunk\<close> bytes (which is positive) until the callback says stop.\<close>

function read_loop :: "('s \<Rightarrow> string \<Rightarrow> bool \<times> 's) \<Rightarrow> nat \<Rightarrow> string \<Rightarrow> nat \<Rightarrow> 's \<Rightarrow> nat \<times> 's" where
  "read_loop fn chunk rest done s =
     (if rest = [] \<or> chunk = 0 then (done, s)
      else
        (let n = min (length rest) chunk; (ok, s) = fn s (take n rest) in
         if ok then read_loop fn chunk (drop n rest) (done + n) s else (done, s)))"
  by pat_completeness auto
termination
  by (relation "measure (\<lambda>(fn, chunk, rest, done, s). length rest)") auto

declare read_loop.simps [simp del]

definition readFile :: "string option \<Rightarrow> nat \<Rightarrow> ('s \<Rightarrow> string \<Rightarrow> bool \<times> 's) \<Rightarrow> nat \<Rightarrow> tmpfs \<Rightarrow> 's \<Rightarrow> int \<times> 's" where
  "readFile path sz fn offset ns s =
     (if path = None then (-1, s)
      else
        (case findNode ns (normalize path) of
           None \<Rightarrow> (-1, s)
         | Some i \<Rightarrow>
             if m_type (ns ! i) \<noteq> FILE_TYPE_REG then (-1, s)
             else
               (let data = m_data (ns ! i) in
                if offset \<ge> length data then (0, s)
                else
                  (let total = length data - offset; chunk = (if sz > 0 \<and> sz < total then sz else total);
                       (done, s) = read_loop fn chunk (drop offset data) 0 s
                   in (int done, s)))))"

subsection \<open>The tree\<close>

definition createDirectory :: "stamp \<Rightarrow> string option \<Rightarrow> tmpfs \<Rightarrow> int \<times> tmpfs" where
  "createDirectory E path ns =
     (let norm = normalize path in
      if norm = [] \<or> length norm > TMPFS_MAX_PATH then (-1, ns)
      else if findNode ns norm \<noteq> None then (-1, ns)
      else if \<not> parentExists ns norm then (-1, ns)
      else if length ns \<ge> TMPFS_MAX_NODES then (-1, ns)
      else (0, ns @ [stampNew E FILE_PERM_DEFAULT_DIR (fresh_node norm [] FILE_TYPE_DIR)]))"

definition remove_nth :: "nat \<Rightarrow> 'a list \<Rightarrow> 'a list" where
  "remove_nth i xs = take i xs @ drop (Suc i) xs"

definition deleteFile :: "string option \<Rightarrow> tmpfs \<Rightarrow> int \<times> tmpfs" where
  "deleteFile path ns =
     (case findNode ns (normalize path) of
        None \<Rightarrow> (-1, ns)
      | Some i \<Rightarrow> if m_type (ns ! i) \<noteq> FILE_TYPE_REG then (-1, ns) else (0, remove_nth i ns))"

definition below :: "string \<Rightarrow> string \<Rightarrow> bool" where
  "below d p \<longleftrightarrow> length p > length d + 1 \<and> take (length d + 1) p = d @ [slash]"

definition deleteDirectory :: "string option \<Rightarrow> tmpfs \<Rightarrow> int \<times> tmpfs" where
  "deleteDirectory path ns =
     (let norm = normalize path in
      if norm = [] then (-1, ns)
      else
        (case findNode ns norm of
           None \<Rightarrow> (-1, ns)
         | Some i \<Rightarrow>
             if m_type (ns ! i) \<noteq> FILE_TYPE_DIR then (-1, ns)
             else (0, filter (\<lambda>n. \<not> (m_path n = norm \<or> below norm (m_path n))) ns)))"

text \<open>The loop over the nodes sees the renamed directory under its new path.\<close>

definition rename :: "string option \<Rightarrow> string option \<Rightarrow> tmpfs \<Rightarrow> int \<times> tmpfs" where
  "rename oldPath newPath ns =
     (let oldn = normalize oldPath; newn = normalize newPath in
      if oldn = [] \<or> newn = [] then (-1, ns)
      else
        (case findNode ns oldn of
           None \<Rightarrow> (-1, ns)
         | Some i \<Rightarrow>
             if findNode ns newn \<noteq> None then (-1, ns)
             else if \<not> parentExists ns newn then (-1, ns)
             else if length newn > TMPFS_MAX_PATH then (-1, ns)
             else
               (let isdir = (m_type (ns ! i) = FILE_TYPE_DIR);
                    ns = ns[i := (ns ! i)\<lparr>m_path := newn\<rparr>]
                in (0, if isdir
                       then map (\<lambda>n. if below oldn (m_path n)
                                     then n\<lparr>m_path := newn @ [slash] @ drop (length oldn + 1) (m_path n)\<rparr> else n) ns
                       else ns))))"

definition moveFile :: "string option \<Rightarrow> string option \<Rightarrow> tmpfs \<Rightarrow> int \<times> tmpfs" where
  "moveFile oldPath newPath ns = rename oldPath newPath ns"

definition copyFile :: "stamp \<Rightarrow> string option \<Rightarrow> string option \<Rightarrow> tmpfs \<Rightarrow> int \<times> tmpfs" where
  "copyFile E sourcePath destPath ns =
     (let src = normalize sourcePath; dst = normalize destPath in
      case findNode ns src of
        None \<Rightarrow> (-1, ns)
      | Some i \<Rightarrow>
          if m_type (ns ! i) \<noteq> FILE_TYPE_REG then (-1, ns)
          else if dst = [] \<or> findNode ns dst \<noteq> None then (-1, ns)
          else if \<not> parentExists ns dst \<or> length dst > TMPFS_MAX_PATH then (-1, ns)
          else if length ns \<ge> TMPFS_MAX_NODES then (-1, ns)
          else if usedBytes ns + of_nat (length (m_data (ns ! i))) > TMPFS_MAX_BYTES then (-1, ns)
          else (0, ns @ [stampNew E FILE_PERM_DEFAULT_FILE (fresh_node dst (m_data (ns ! i)) FILE_TYPE_REG)]))"

definition touch :: "stamp \<Rightarrow> string option \<Rightarrow> tmpfs \<Rightarrow> int \<times> tmpfs" where
  "touch E path ns =
     (case findNode ns (normalize path) of
        Some i \<Rightarrow> (0, ns[i := (ns ! i)\<lparr>m_mtime := now_epoch E\<rparr>])
      | None \<Rightarrow> createFile E path None 0 ns)"

subsection \<open>Queries and attributes\<close>

definition getFileSize :: "string option \<Rightarrow> tmpfs \<Rightarrow> int" where
  "getFileSize path ns =
     (case findNode ns (normalize path) of
        None \<Rightarrow> -1
      | Some i \<Rightarrow> if m_type (ns ! i) \<noteq> FILE_TYPE_REG then -1 else int (length (m_data (ns ! i))))"

definition isFileExist :: "string option \<Rightarrow> tmpfs \<Rightarrow> bool" where
  "isFileExist path ns =
     (case findNode ns (normalize path) of None \<Rightarrow> False | Some i \<Rightarrow> m_type (ns ! i) = FILE_TYPE_REG)"

definition isDirExist :: "string option \<Rightarrow> tmpfs \<Rightarrow> bool" where
  "isDirExist path ns =
     (let norm = normalize path in
      norm = [] \<or> (case findNode ns norm of None \<Rightarrow> False | Some i \<Rightarrow> m_type (ns ! i) = FILE_TYPE_DIR))"

definition isDirectory :: "string option \<Rightarrow> tmpfs \<Rightarrow> bool" where
  "isDirectory path ns = isDirExist path ns"

definition basename :: "string option \<Rightarrow> string" where
  "basename path = (case path of None \<Rightarrow> [] | Some s \<Rightarrow> rev (takeWhile (\<lambda>c. c \<noteq> slash) (rev s)))"

definition node_info :: "string \<Rightarrow> tmpfs_node_t \<Rightarrow> file_info_t" where
  "node_info name n =
     \<lparr>fi_type = m_type n, fi_size = (if m_type n = FILE_TYPE_REG then length (m_data n) else 0), fi_name = name,
      fi_perms = m_perms n, fi_uid = m_uid n, fi_gid = m_gid n, fi_ctime = m_ctime n, fi_mtime = m_mtime n\<rparr>"

definition getDirFileList :: "string option \<Rightarrow> file_info_t list \<Rightarrow> tmpfs \<Rightarrow> int \<times> file_info_t list" where
  "getDirFileList path items ns =
     (if \<not> isDirExist path ns then (-1, items)
      else (let items = items @ map (\<lambda>n. node_info (basename (Some (m_path n))) n)
                                    (filter (\<lambda>n. parentOf (m_path n) = normalize path) ns)
            in (int (length items), items)))"

definition getUsedSize :: "tmpfs \<Rightarrow> u64" where
  "getUsedSize ns = ucast (usedBytes ns)"

definition getFreeSize :: "tmpfs \<Rightarrow> u64" where
  "getFreeSize ns = (let used = ucast (usedBytes ns) in if used \<ge> 4096 then 0 else 4096 - used)"

text \<open>The caller's variable is filled in except for its name.\<close>

definition getFileMeta :: "string option \<Rightarrow> file_info_t \<Rightarrow> tmpfs \<Rightarrow> int \<times> file_info_t" where
  "getFileMeta path out ns =
     (let norm = normalize path in
      if norm = []
      then (0, \<lparr>fi_type = FILE_TYPE_DIR, fi_size = 0, fi_name = fi_name out, fi_perms = 0x1FF,
                fi_uid = 0, fi_gid = 0, fi_ctime = 0, fi_mtime = 0\<rparr>)
      else (case findNode ns norm of None \<Rightarrow> (-1, out) | Some i \<Rightarrow> (0, node_info (fi_name out) (ns ! i))))"

definition setFilePermissions :: "string option \<Rightarrow> u16 \<Rightarrow> tmpfs \<Rightarrow> int \<times> tmpfs" where
  "setFilePermissions path perms ns =
     (case findNode ns (normalize path) of None \<Rightarrow> (-1, ns) | Some i \<Rightarrow> (0, ns[i := (ns ! i)\<lparr>m_perms := perms\<rparr>]))"

definition setFileOwner :: "string option \<Rightarrow> u16 \<Rightarrow> u16 \<Rightarrow> tmpfs \<Rightarrow> int \<times> tmpfs" where
  "setFileOwner path uid gid ns =
     (case findNode ns (normalize path) of
        None \<Rightarrow> (-1, ns) | Some i \<Rightarrow> (0, ns[i := (ns ! i)\<lparr>m_uid := uid, m_gid := gid\<rparr>]))"

text \<open>Attributes travel as little-endian bytes.\<close>

abbreviation (input) "FILE_ATTR_CTIME \<equiv> (1 :: u8)"
abbreviation (input) "FILE_ATTR_MTIME \<equiv> (2 :: u8)"
abbreviation (input) "FILE_ATTR_PERMS \<equiv> (3 :: u8)"
abbreviation (input) "FILE_ATTR_UID \<equiv> (4 :: u8)"
abbreviation (input) "FILE_ATTR_GID \<equiv> (5 :: u8)"

fun le_bytes :: "nat \<Rightarrow> 'w::len word \<Rightarrow> byte list" where
  "le_bytes 0 w = []"
| "le_bytes (Suc k) w = ucast w # le_bytes k (drop_bit 8 w)"

fun le_value :: "nat \<Rightarrow> byte list \<Rightarrow> 'w::len word" where
  "le_value 0 bs = 0"
| "le_value (Suc k) bs = ucast (hd bs) OR push_bit 8 (le_value k (tl bs))"

definition getFileAttr :: "string option \<Rightarrow> u8 \<Rightarrow> byte list option \<Rightarrow> nat \<Rightarrow> tmpfs \<Rightarrow> int \<times> byte list option" where
  "getFileAttr path type buf sz ns =
     (case buf of
        None \<Rightarrow> (-1, buf)
      | Some b \<Rightarrow>
          if sz = 0 then (-1, buf)
          else
            (let norm = normalize path;
                 node = (if norm = [] then Some (fresh_node [] [] FILE_TYPE_DIR\<lparr>m_perms := 0x1FF\<rparr>)
                         else map_option (\<lambda>i. ns ! i) (findNode ns norm)) in
             case node of
               None \<Rightarrow> (-1, buf)
             | Some n \<Rightarrow>
                 if type = FILE_ATTR_PERMS \<and> sz \<ge> 2 then (2, Some (le_bytes 2 (m_perms n) @ drop 2 b))
                 else if type = FILE_ATTR_UID \<and> sz \<ge> 2 then (2, Some (le_bytes 2 (m_uid n) @ drop 2 b))
                 else if type = FILE_ATTR_GID \<and> sz \<ge> 2 then (2, Some (le_bytes 2 (m_gid n) @ drop 2 b))
                 else if type = FILE_ATTR_CTIME \<and> sz \<ge> 4 then (4, Some (le_bytes 4 (m_ctime n) @ drop 4 b))
                 else if type = FILE_ATTR_MTIME \<and> sz \<ge> 4 then (4, Some (le_bytes 4 (m_mtime n) @ drop 4 b))
                 else (-1, buf)))"

definition setFileAttr :: "string option \<Rightarrow> u8 \<Rightarrow> byte list option \<Rightarrow> u32 \<Rightarrow> tmpfs \<Rightarrow> int \<times> tmpfs" where
  "setFileAttr path type buf sz ns =
     (case (buf, findNode ns (normalize path)) of
        (Some b, Some i) \<Rightarrow>
          if sz = 0 then (-1, ns)
          else
            (if type = FILE_ATTR_PERMS \<and> sz \<ge> 2 then (sint sz, ns[i := (ns ! i)\<lparr>m_perms := le_value 2 b\<rparr>])
             else if type = FILE_ATTR_UID \<and> sz \<ge> 2 then (sint sz, ns[i := (ns ! i)\<lparr>m_uid := le_value 2 b\<rparr>])
             else if type = FILE_ATTR_GID \<and> sz \<ge> 2 then (sint sz, ns[i := (ns ! i)\<lparr>m_gid := le_value 2 b\<rparr>])
             else if type = FILE_ATTR_CTIME \<and> sz \<ge> 4 then (sint sz, ns[i := (ns ! i)\<lparr>m_ctime := le_value 4 b\<rparr>])
             else if type = FILE_ATTR_MTIME \<and> sz \<ge> 4 then (sint sz, ns[i := (ns ! i)\<lparr>m_mtime := le_value 4 b\<rparr>])
             else (-1, ns))
      | _ \<Rightarrow> (-1, ns))"

section \<open>Paths\<close>

lemma findNode_Some:
  assumes "findNode ns p = Some i"
  shows "i < length ns" and "m_path (ns ! i) = p" and "\<And>j. j < i \<Longrightarrow> m_path (ns ! j) \<noteq> p"
  using assms by (induction ns arbitrary: i) (auto simp: nth_Cons split: if_splits nat.splits)

lemma findNode_None: "findNode ns p = None \<longleftrightarrow> p \<notin> m_path ` set ns"
  by (induction ns) auto

lemma findNode_append: "findNode (ns @ ms) p =
    (case findNode ns p of Some i \<Rightarrow> Some i | None \<Rightarrow> map_option (\<lambda>i. length ns + i) (findNode ms p))"
  by (induction ns; cases "findNode ms p") (auto split: option.split)

lemma findNode_update:
  assumes "m_path n = m_path (ns ! i)"
  shows "findNode (ns[i := n]) p = findNode ns p"
  using assms by (induction ns arbitrary: i) (auto split: nat.split)

lemma findNode_nth:
  assumes "distinct (map m_path ns)" and "i < length ns"
  shows "findNode ns (m_path (ns ! i)) = Some i"
proof -
  obtain j where j: "findNode ns (m_path (ns ! i)) = Some j"
    using assms(2) findNode_None by (metis imageI not_None_eq nth_mem)
  then have "j < length ns" "m_path (ns ! j) = m_path (ns ! i)" by (simp_all add: findNode_Some)
  with assms have "j = i" by (simp add: distinct_conv_nth nth_map) (metis nth_map)
  with j show ?thesis by simp
qed

text \<open>Normalised paths neither start nor end with a separator.\<close>

definition normal :: "string \<Rightarrow> bool" where
  "normal p \<longleftrightarrow> p \<noteq> [] \<and> hd p \<noteq> slash \<and> last p \<noteq> slash"

lemma hd_after_dropWhile: "dropWhile P xs = [] \<or> \<not> P (hd (dropWhile P xs))"
  using hd_dropWhile by blast

lemma normalize_normal: "normalize path = [] \<or> normal (normalize path)"
proof (cases path)
  case (Some s)
  define t where "t = dropWhile (\<lambda>c. c = slash) s"
  define u where "u = dropWhile (\<lambda>c. c = slash) (rev t)"
  have norm: "normalize path = rev u" by (simp add: Some normalize_def t_def u_def)
  have t: "t = [] \<or> hd t \<noteq> slash"
    unfolding t_def by (rule hd_after_dropWhile)
  have u: "u = [] \<or> hd u \<noteq> slash"
    unfolding u_def by (rule hd_after_dropWhile)
  obtain ys where "rev t = ys @ u" unfolding u_def by (metis takeWhile_dropWhile_id)
  then have tu: "t = rev u @ rev ys" by (metis rev_append rev_rev_ident)
  show ?thesis
  proof (cases "u = []")
    case False
    then have "hd (rev u) = hd t" and "last (rev u) = hd u" and "t \<noteq> []"
      using tu by (auto simp: last_rev)
    with t u False show ?thesis by (simp add: norm normal_def)
  qed (simp add: norm)
qed (simp add: normalize_def)

lemma normalize_id: "normal p \<Longrightarrow> normalize (Some p) = p"
  using dropWhile_eq_self_iff [of "\<lambda>c. c = slash" p] dropWhile_eq_self_iff [of "\<lambda>c. c = slash" "rev p"]
  by (simp add: normalize_def normal_def hd_rev)

lemma parentOf_join: "slash \<notin> set base \<Longrightarrow> parentOf (d @ slash # base) = d"
proof -
  assume "slash \<notin> set base"
  then have "dropWhile (\<lambda>c. c \<noteq> slash) (rev base) = []" by auto
  then show ?thesis by (simp add: parentOf_def dropWhile_append)
qed

lemma parentOf_split:
  assumes "slash \<in> set p"
  obtains base where "p = parentOf p @ slash # base" and "slash \<notin> set base"
proof -
  obtain d base where "p = d @ slash # base" "slash \<notin> set base"
    using split_list_last [OF assms] by blast
  with that show ?thesis by (simp add: parentOf_join)
qed

lemma below_iff: "below d p \<longleftrightarrow> (\<exists>x. x \<noteq> [] \<and> p = d @ slash # x)"
proof
  assume b: "below d p"
  then have "p = (d @ [slash]) @ drop (length d + 1) p"
    unfolding below_def by (metis append_take_drop_id)
  moreover have "drop (length d + 1) p \<noteq> []" using b by (simp add: below_def)
  ultimately show "\<exists>x. x \<noteq> [] \<and> p = d @ slash # x" by (metis append.assoc append_Cons append_Nil)
qed (auto simp: below_def)

section \<open>The node vector as a map from paths to nodes\<close>

definition view :: "tmpfs \<Rightarrow> string \<rightharpoonup> tmpfs_node_t" where
  "view ns p = map_option (\<lambda>i. ns ! i) (findNode ns p)"

lemma view_find: "view ns p = find (\<lambda>n. m_path n = p) ns"
  unfolding view_def by (induction ns) (auto simp: option.map_comp comp_def)

lemma view_Nil [simp]: "view [] p = None"
  by (simp add: view_def)

lemma view_Cons [simp]: "view (n # ns) p = (if m_path n = p then Some n else view ns p)"
  by (simp add: view_find)

lemma view_path: "view ns p = Some n \<Longrightarrow> m_path n = p"
  by (auto simp: view_find find_Some_iff)

lemma view_in: "view ns p = Some n \<Longrightarrow> n \<in> set ns"
  by (auto simp: view_find find_Some_iff)

lemma view_None: "view ns p = None \<longleftrightarrow> p \<notin> m_path ` set ns"
  by (auto simp: view_find find_None_iff)

lemma view_absent: "p \<notin> m_path ` set ns \<Longrightarrow> view ns p = None"
  by (simp add: view_None)

lemma view_mem: "distinct (map m_path ns) \<Longrightarrow> n \<in> set ns \<Longrightarrow> view ns (m_path n) = Some n"
  by (induction ns) auto

lemma find_view: "findNode ns p = Some i \<Longrightarrow> view ns p = Some (ns ! i)"
  by (simp add: view_def)

lemma view_append: "view ns (m_path n) = None \<Longrightarrow> view (ns @ [n]) = (view ns)(m_path n \<mapsto> n)"
  by (rule ext, induction ns) (auto split: if_splits)

lemma view_update:
  assumes "findNode ns p = Some i" and "m_path n = p"
  shows "view (ns[i := n]) = (view ns)(p \<mapsto> n)"
  using assms by (intro ext, induction ns arbitrary: i) (auto split: if_splits)

lemma view_remove:
  assumes "distinct (map m_path ns)" and "findNode ns p = Some i"
  shows "view (remove_nth i ns) = (view ns)(p := None)"
  using assms unfolding remove_nth_def
  by (intro ext, induction ns arbitrary: i) (auto simp: view_absent split: if_splits)

lemma view_filter: "distinct (map m_path ns) \<Longrightarrow>
    view (filter Q ns) p = (case view ns p of Some n \<Rightarrow> if Q n then Some n else None | None \<Rightarrow> None)"
  by (induction ns) (auto simp: view_absent split: option.split)

definition has_parent :: "(string \<rightharpoonup> tmpfs_node_t) \<Rightarrow> string \<Rightarrow> bool" where
  "has_parent m p \<longleftrightarrow> parentOf p = [] \<or> (\<exists>d. m (parentOf p) = Some d \<and> m_type d = FILE_TYPE_DIR)"

lemma parentExists_view: "parentExists ns p \<longleftrightarrow> has_parent (view ns) p"
  by (auto simp: parentExists_def has_parent_def view_def Let_def split: option.split)

section \<open>Well-formed trees\<close>

definition total :: "tmpfs \<Rightarrow> nat" where
  "total ns = (\<Sum>n\<leftarrow>ns. length (m_data n))"

definition tree :: "(string \<rightharpoonup> tmpfs_node_t) \<Rightarrow> bool" where
  "tree m \<longleftrightarrow> (\<forall>p n. m p = Some n \<longrightarrow> normal p \<and> has_parent m p \<and>
     (m_type n = FILE_TYPE_REG \<or> m_type n = FILE_TYPE_DIR \<and> m_data n = []))"

definition tmpfs_wf :: "tmpfs \<Rightarrow> bool" where
  "tmpfs_wf ns \<longleftrightarrow> distinct (map m_path ns) \<and> tree (view ns) \<and> length ns \<le> TMPFS_MAX_NODES \<and> total ns \<le> 4096"

lemma usedBytes_total: "usedBytes ns = of_nat (total ns)"
proof -
  have "fold (\<lambda>n t. t + of_nat (length (m_data n))) ns u = u + (of_nat (total ns) :: u32)" for u
    by (induction ns arbitrary: u) (simp_all add: total_def)
  then show ?thesis by (simp add: usedBytes_def)
qed

lemma total_simps [simp]: "total [] = 0" "total (n # ns) = length (m_data n) + total ns"
    "total (ns @ ms) = total ns + total ms"
  by (simp_all add: total_def)

lemma total_update: "i < length ns \<Longrightarrow> total (ns[i := n]) + length (m_data (ns ! i)) = total ns + length (m_data n)"
  by (induction ns arbitrary: i) (auto split: nat.split)

lemma total_nth: "i < length ns \<Longrightarrow> length (m_data (ns ! i)) \<le> total ns"
  by (induction ns arbitrary: i) (auto simp: nth_Cons split: nat.split intro: le_trans trans_le_add2)

lemma total_filter: "total (filter Q ns) \<le> total ns"
  by (induction ns) auto

lemma total_remove: "total (remove_nth i ns) \<le> total ns"
  unfolding remove_nth_def by (induction ns arbitrary: i) (auto simp: take_Cons drop_Cons split: nat.split)

lemma tree_put:
  assumes "tree m" and "normal p" and "has_parent m p"
    and "m_type n = FILE_TYPE_REG \<or> m_type n = FILE_TYPE_DIR \<and> m_data n = []"
    and "\<And>old. m p = Some old \<Longrightarrow> m_type old = m_type n"
  shows "tree (m(p \<mapsto> n))"
proof -
  have "has_parent (m(p \<mapsto> n)) q" if "has_parent m q" for q
    using that assms(5) unfolding has_parent_def by (cases "parentOf q = p") auto
  with assms(1-4) show ?thesis by (simp add: tree_def)
qed

text \<open>Taking nodes away keeps a tree as long as no directory goes before what it holds.\<close>

lemma tree_restrict:
  assumes "tree m" and "\<And>p d. m p \<noteq> None \<Longrightarrow> p \<notin> S \<Longrightarrow> m (parentOf p) = Some d \<Longrightarrow>
    m_type d = FILE_TYPE_DIR \<Longrightarrow> parentOf p \<noteq> [] \<Longrightarrow> parentOf p \<notin> S"
  shows "tree (m |` (- S))"
  unfolding tree_def
proof (intro allI impI)
  fix p n assume n: "(m |` (- S)) p = Some n"
  then have p: "m p = Some n" "p \<notin> S" by (auto simp: restrict_map_def split: if_splits)
  with assms(1) have t: "normal p" "has_parent m p" "m_type n = FILE_TYPE_REG \<or> m_type n = FILE_TYPE_DIR \<and> m_data n = []"
    by (auto simp: tree_def)
  from t(2) assms(2) [of p] p have "has_parent (m |` (- S)) p"
    by (cases "parentOf p = []") (auto simp: has_parent_def)
  with t show "normal p \<and> has_parent (m |` (- S)) p \<and> (m_type n = FILE_TYPE_REG \<or> m_type n = FILE_TYPE_DIR \<and> m_data n = [])"
    by simp
qed

lemma tmpfs_wfD:
  assumes "tmpfs_wf ns" and "findNode ns p = Some i"
  shows "normal p" and "has_parent (view ns) p"
    and "m_type (ns ! i) = FILE_TYPE_REG \<or> m_type (ns ! i) = FILE_TYPE_DIR \<and> m_data (ns ! i) = []"
  using assms(1) find_view [OF assms(2)] by (simp_all add: tmpfs_wf_def tree_def)

lemma used_small: "tmpfs_wf ns \<Longrightarrow> unat (usedBytes ns) = total ns"
  by (simp add: usedBytes_total tmpfs_wf_def unat_of_nat_small)

text \<open>Adding a node and overwriting one within the quota.\<close>

lemma wf_add:
  assumes "tmpfs_wf ns" and "normal p" and "findNode ns p = None" and "parentExists ns p" and "length ns < 24"
    and "m_path n = p" and "m_type n = FILE_TYPE_REG \<or> m_type n = FILE_TYPE_DIR \<and> m_data n = []"
    and "total ns + length (m_data n) \<le> 4096"
  shows "tmpfs_wf (ns @ [n])"
proof -
  have v: "view ns p = None" by (simp add: view_def assms(3))
  then have "tree (view (ns @ [n]))"
    using assms view_append [of ns n] by (auto simp: tmpfs_wf_def parentExists_view intro!: tree_put)
  with v assms show ?thesis by (auto simp: tmpfs_wf_def view_None)
qed

lemma wf_update:
  assumes "tmpfs_wf ns" and "findNode ns p = Some i"
    and "m_path n = p" and "m_type n = m_type (ns ! i)" and "m_type n = FILE_TYPE_DIR \<longrightarrow> m_data n = []"
    and "total ns + length (m_data n) \<le> 4096 + length (m_data (ns ! i))"
  shows "tmpfs_wf (ns[i := n])"
proof -
  note i = findNode_Some [OF assms(2)] and w = tmpfs_wfD [OF assms(1,2)]
  have "tree (view (ns[i := n]))"
    using assms w find_view [OF assms(2)] unfolding view_update [OF assms(2,3)]
    by (intro tree_put) (auto simp: tmpfs_wf_def)
  moreover have "map m_path (ns[i := n]) = map m_path ns"
    using i assms(3) by (simp add: map_update list_update_same_conv)
  ultimately show ?thesis
    using assms total_update [OF i(1), of n] by (simp add: tmpfs_wf_def)
qed

section \<open>Writing within the quota\<close>

lemma quota_word:
  assumes "t \<le> 4096" and "unat n + 4096 < 2 ^ 32" and "\<not> TMPFS_MAX_BYTES < of_nat t + (n :: u32)"
  shows "t + unat n \<le> 4096"
proof -
  have "of_nat t + n = (of_nat (t + unat n) :: u32)" by simp
  moreover have "unat (of_nat (t + unat n) :: u32) = t + unat n"
    using assms(1,2) by (intro unat_of_nat_small) simp
  ultimately show ?thesis using assms(3) by (simp add: word_less_nat_alt)
qed

lemma piece_length: "length (piece content n) \<le> unat n"
  by (simp add: piece_def split: option.split)

text \<open>What a successful write leaves at the path, and that nothing else moves.\<close>

lemma putContent_cases:
  obtains (fail) "putContent E norm content n app ns = (-1, ns)"
  | (new) node where "findNode ns norm = None" and "norm \<noteq> []" and "length norm \<le> TMPFS_MAX_PATH" and "parentExists ns norm"
      and "length ns < TMPFS_MAX_NODES" and "\<not> TMPFS_MAX_BYTES < usedBytes ns + n"
      and "node = stampNew E FILE_PERM_DEFAULT_FILE (fresh_node norm (piece content n) FILE_TYPE_REG)"
      and "putContent E norm content n app ns = (sint n, ns @ [node])"
  | (old) i where "findNode ns norm = Some i" and "length norm \<le> TMPFS_MAX_PATH" and "m_type (ns ! i) \<noteq> FILE_TYPE_DIR"
      and "\<not> TMPFS_MAX_BYTES < (if app then usedBytes ns + n else usedBytes ns - of_nat (length (m_data (ns ! i))) + n)"
      and "putContent E norm content n app ns = (sint n, ns[i := (ns ! i)\<lparr>m_data := (if app then m_data (ns ! i) else [])
             @ piece content n, m_mtime := now_epoch E\<rparr>])"
proof (cases "norm = [] \<or> length norm > TMPFS_MAX_PATH")
  case False
  then show ?thesis
  proof (cases "findNode ns norm")
    case None
    then show ?thesis using False fail new
      by (cases "parentExists ns norm \<and> length ns < 24 \<and> \<not> 4096 < usedBytes ns + n") (auto simp: putContent_def)
  next
    case (Some i)
    then show ?thesis using False fail old [of i]
      by (cases "m_type (ns ! i) = FILE_TYPE_DIR \<or> 4096 < (if app then usedBytes ns + n
            else usedBytes ns - of_nat (length (m_data (ns ! i))) + n)") (auto simp: putContent_def Let_def)
  qed
qed (simp add: putContent_def fail)

lemma putContent_wf:
  assumes "tmpfs_wf ns" and "norm = [] \<or> normal norm" and n: "unat n + 4096 < 2 ^ 32"
  shows "tmpfs_wf (snd (putContent E norm content n app ns))"
proof (cases rule: putContent_cases [of E norm content n app ns])
  case (new node)
  have "total ns + unat n \<le> 4096"
    using assms(1) n new(6) by (intro quota_word) (auto simp: tmpfs_wf_def usedBytes_total)
  with new assms(1,2) piece_length [of content n] show ?thesis
    by (auto simp: stampNew_def fresh_node_def intro!: wf_add)
next
  case (old i)
  define o' where "o' = length (m_data (ns ! i))"
  have o: "o' \<le> total ns" using findNode_Some(1) [OF old(1)] total_nth by (simp add: o'_def)
  have t: "total ns \<le> 4096" using assms(1) by (simp add: tmpfs_wf_def)
  have "(if app then total ns else total ns - o') + unat n \<le> 4096"
    using old(4) o t n quota_word [of "total ns" n] quota_word [of "total ns - o'" n]
    by (auto simp: usedBytes_total o'_def [symmetric] of_nat_diff split: if_splits)
  then have "total ns + length ((if app then m_data (ns ! i) else []) @ piece content n) \<le> 4096 + o'"
    using piece_length [of content n] o by (auto simp: o'_def [symmetric] split: if_splits)
  then show ?thesis
    unfolding old(5) snd_conv
    by (intro wf_update [OF assms(1) old(1)]) (use old findNode_Some(2) [OF old(1)] in \<open>simp_all add: o'_def\<close>)
qed (simp add: assms(1))

text \<open>The bytes a create call asks for.\<close>

definition create_len :: "string option \<Rightarrow> int \<Rightarrow> u32" where
  "create_len content sz = (if sz < 0 then (case content of None \<Rightarrow> 0 | Some mem \<Rightarrow> of_nat (length (cstr mem))) else of_int sz)"

lemma createFile_wf:
  "tmpfs_wf ns \<Longrightarrow> unat (create_len content sz) + 4096 < 2 ^ 32 \<Longrightarrow> tmpfs_wf (snd (createFile E path content sz ns))"
  unfolding createFile_def Let_def create_len_def [symmetric]
  using normalize_normal [of path] by (auto intro!: putContent_wf)

lemma writeFile_wf:
  "tmpfs_wf ns \<Longrightarrow> unat n + 4096 < 2 ^ 32 \<Longrightarrow> tmpfs_wf (snd (writeFile E path content n app ns))"
  unfolding writeFile_def by (intro putContent_wf normalize_normal)

lemma createDirectory_wf: "tmpfs_wf ns \<Longrightarrow> tmpfs_wf (snd (createDirectory E path ns))"
  using normalize_normal [of path]
  by (auto simp: createDirectory_def Let_def stampNew_def fresh_node_def tmpfs_wf_def [of ns] intro!: wf_add)

lemma copyFile_wf:
  assumes "tmpfs_wf ns"
  shows "tmpfs_wf (snd (copyFile E sourcePath destPath ns))"
proof (cases "findNode ns (normalize sourcePath)")
  case (Some i)
  define d where "d = m_data (ns ! i)"
  have "length d \<le> 4096"
    using total_nth [OF findNode_Some(1) [OF Some]] assms by (simp add: d_def tmpfs_wf_def)
  then have "unat (of_nat (length d) :: u32) = length d" by (intro unat_of_nat_small) simp
  then have q: "total ns + length d \<le> 4096" if "\<not> TMPFS_MAX_BYTES < usedBytes ns + of_nat (length d)"
    using quota_word [of "total ns" "of_nat (length d)"] that assms \<open>length d \<le> 4096\<close>
    by (simp add: tmpfs_wf_def usedBytes_total)
  show ?thesis
    using assms q normalize_normal [of destPath]
    by (auto simp: copyFile_def Some Let_def d_def [symmetric] stampNew_def fresh_node_def intro!: wf_add)
qed (simp add: copyFile_def assms)

section \<open>Editing in place\<close>

lemma write_loop_ok:
  assumes "unat i + length cs \<le> length data" and "length data < 2 ^ 32"
  shows "write_loop i cs data = Some (take (unat i) data @ cs @ drop (unat i + length cs) data)"
  using assms
proof (induction cs arbitrary: i data)
  case (Cons c cs)
  then have "unat (i + 1) = Suc (unat i)" by (simp add: unat_word_ariths(1))
  with Cons show ?case
    by (simp add: take_Suc_conv_app_nth drop_update_cancel)
qed simp

text \<open>An edit whose end fits 32 bits overwrites \<open>n\<close> bytes at the offset, padding with NUL up to it.\<close>

definition overwrite :: "nat \<Rightarrow> string \<Rightarrow> string \<Rightarrow> string" where
  "overwrite off new data =
     take off (data @ replicate (off - length data) NUL) @ new @ drop (off + length new) data"

lemma overwrite_length: "length (overwrite off new data) = max (length data) (off + length new)"
  by (auto simp: overwrite_def)

lemma editFile_cases:
  assumes "tmpfs_wf ns" and i: "findNode ns (normalize path) = Some i" and reg: "m_type (ns ! i) = FILE_TYPE_REG"
    and n: "unat n = length mem" and fit: "unat (ucast offset :: u32) + unat n + 4096 < 2 ^ 32"
  shows "editFile E path offset (Some mem) n ns =
     (let new = overwrite (unat (ucast offset :: u32)) mem (m_data (ns ! i)) in
      if total ns - length (m_data (ns ! i)) + length new > 4096 then Some (-1, ns)
      else Some (sint n, ns[i := (ns ! i)\<lparr>m_data := new, m_mtime := now_epoch E\<rparr>]))"
proof -
  define data off where "data = m_data (ns ! i)" and "off = unat (ucast offset :: u32)"
  define e where "e = (ucast offset :: u32) + n"
  have e: "unat e = off + length mem"
    using fit unfolding e_def off_def n [symmetric] by (simp add: unat_word_ariths)
  have t: "length data \<le> total ns" "total ns \<le> 4096"
    using total_nth [OF findNode_Some(1) [OF i]] assms(1) by (simp_all add: data_def tmpfs_wf_def)
  then have old: "unat (of_nat (length data) :: u32) = length data" by (intro unat_of_nat_small) simp
  have over: "4096 < usedBytes ns - of_nat (length data) + e \<longleftrightarrow> 4096 < total ns - length data + (off + length mem)"
  proof -
    have "usedBytes ns - of_nat (length data) + e = of_nat (total ns - length data + unat e)"
      using t by (simp add: usedBytes_total of_nat_diff)
    moreover have "unat (of_nat (total ns - length data + unat e) :: u32) = total ns - length data + unat e"
      using t e fit n by (intro unat_of_nat_small) (simp add: off_def)
    ultimately show ?thesis by (simp add: word_less_nat_alt e)
  qed
  have loop: "write_loop (ucast offset) mem (if length data < off + length mem then data @ replicate (off + length mem - length data) NUL else data)
      = Some (overwrite off mem data)"
    using t fit n
    by (subst write_loop_ok) (auto simp: word_less_nat_alt off_def [symmetric] overwrite_def min_def)
  show ?thesis
    using reg loop over t old
    by (cases "length data < off + length mem") (simp_all add: editFile_def i Let_def data_def [symmetric] off_def [symmetric] e_def [symmetric] n overwrite_length
          word_less_nat_alt [of _ e] e max_def)
qed

lemma editFile_wf:
  assumes "tmpfs_wf ns" and "unat n = length mem" and "unat (ucast offset :: u32) + unat n + 4096 < 2 ^ 32"
  shows "\<exists>r ns'. editFile E path offset (Some mem) n ns = Some (r, ns') \<and> tmpfs_wf ns'"
proof (cases "findNode ns (normalize path)")
  case (Some i)
  note w = tmpfs_wfD [OF assms(1) Some] and j = findNode_Some [OF Some]
  show ?thesis
  proof (cases "m_type (ns ! i) = FILE_TYPE_REG")
    case True
    then show ?thesis
      using assms j total_nth [OF j(1)]
      by (auto simp: editFile_cases [OF assms(1) Some True assms(2,3)] Let_def intro!: wf_update [OF assms(1) Some])
  qed (simp add: editFile_def Some assms(1))
qed (simp add: editFile_def assms(1))

section \<open>Deleting\<close>

lemma wf_subtree:
  assumes "tmpfs_wf ns" and "distinct (map m_path ms)" and "length ms \<le> length ns" and "total ms \<le> total ns"
    and "view ms = view ns |` (- S)" and "\<And>p. view ns p \<noteq> None \<Longrightarrow> parentOf p \<noteq> [] \<Longrightarrow> parentOf p \<in> S \<Longrightarrow>
      has_parent (view ns) p \<Longrightarrow> p \<in> S"
  shows "tmpfs_wf ms"
proof -
  have "tree (view ns |` (- S))"
    using assms(1,6) by (intro tree_restrict) (auto simp: tmpfs_wf_def has_parent_def)
  with assms show ?thesis by (simp add: tmpfs_wf_def)
qed

lemma remove_nth_distinct: "distinct (map f xs) \<Longrightarrow> distinct (map f (remove_nth i xs))"
  unfolding remove_nth_def
  by (induction xs arbitrary: i) (auto simp: take_Cons drop_Cons split: nat.split dest: in_set_takeD in_set_dropD)

lemma remove_nth_length: "length (remove_nth i xs) \<le> length xs"
  by (simp add: remove_nth_def)

lemma deleteFile_wf:
  assumes "tmpfs_wf ns"
  shows "tmpfs_wf (snd (deleteFile path ns))"
proof (cases "findNode ns (normalize path)")
  case (Some i)
  have d: "distinct (map m_path ns)" using assms by (simp add: tmpfs_wf_def)
  have "tmpfs_wf (remove_nth i ns)" if "m_type (ns ! i) = FILE_TYPE_REG"
  proof (rule wf_subtree [OF assms remove_nth_distinct [OF d] remove_nth_length total_remove])
    show "view (remove_nth i ns) = view ns |` (- {normalize path})"
      unfolding view_remove [OF d Some] by (auto simp: restrict_map_def)
  qed (use that find_view [OF Some] in \<open>auto simp: has_parent_def\<close>)
  then show ?thesis by (simp add: deleteFile_def Some assms)
qed (simp add: deleteFile_def assms)

lemma parentOf_below:
  assumes "normal p" and "parentOf p \<noteq> []"
  shows "below (parentOf p) p"
proof -
  have "slash \<in> set p" using assms(2) by (auto simp: parentOf_def split: if_splits)
  then obtain b where p: "p = parentOf p @ slash # b" by (rule parentOf_split)
  moreover have "b \<noteq> []" using assms(1) p unfolding normal_def by (metis last_snoc)
  ultimately show ?thesis unfolding below_iff by blast
qed

lemma below_trans:
  assumes "below a b" and "below b c"
  shows "below a c"
proof -
  from assms obtain x y where "b = a @ slash # x" and "c = b @ slash # y" unfolding below_iff by blast
  then have "c = a @ slash # (x @ slash # y)" by simp
  then show ?thesis unfolding below_iff by blast
qed

lemma deleteDirectory_view:
  assumes "tmpfs_wf ns" and "fst (deleteDirectory path ns) = 0"
  shows "view (snd (deleteDirectory path ns)) = view ns |` (- {p. p = normalize path \<or> below (normalize path) p})"
  using assms
  by (auto simp: deleteDirectory_def Let_def restrict_map_def tmpfs_wf_def view_filter fun_eq_iff
      split: if_splits option.splits dest: view_path)

lemma deleteDirectory_wf:
  assumes "tmpfs_wf ns"
  shows "tmpfs_wf (snd (deleteDirectory path ns))"
proof (cases "fst (deleteDirectory path ns) = 0")
  case True
  have norm: "p = normalize path \<or> below (normalize path) p"
    if "view ns p \<noteq> None" "parentOf p \<noteq> []" "parentOf p = normalize path \<or> below (normalize path) (parentOf p)" for p
  proof -
    have "normal p" using that(1) assms by (auto simp: tmpfs_wf_def tree_def)
    with that show ?thesis using parentOf_below [of p] below_trans by metis
  qed
  have shape: "\<exists>Q. snd (deleteDirectory path ns) = filter Q ns"
    using True by (auto simp: deleteDirectory_def Let_def split: if_splits option.splits)
  then obtain Q where Q: "snd (deleteDirectory path ns) = filter Q ns" ..
  have "tmpfs_wf (filter Q ns)"
    by (rule wf_subtree [OF assms _ _ total_filter deleteDirectory_view [OF assms True, unfolded Q]])
      (use assms norm in \<open>auto simp: tmpfs_wf_def distinct_map_filter\<close>)
  then show ?thesis by (simp add: Q)
qed (auto simp: deleteDirectory_def Let_def assms split: if_splits option.splits)

section \<open>Renaming\<close>

text \<open>Everything above a node of a tree is a directory of it.\<close>

lemma tree_above:
  assumes "tree m" and "m q \<noteq> None" and "below d q" and "d \<noteq> []"
  shows "\<exists>n. m d = Some n \<and> m_type n = FILE_TYPE_DIR"
  using assms(2,3)
proof (induction "length q" arbitrary: q rule: less_induct)
  case less
  from less(3) obtain x where q: "q = d @ slash # x" and "x \<noteq> []" unfolding below_iff by blast
  have hp: "has_parent m q" and nq: "normal q" using assms(1) less(2) by (auto simp: tree_def)
  obtain b where b: "q = parentOf q @ slash # b" "slash \<notin> set b" by (rule parentOf_split [of q]) (simp_all add: q)
  show ?case
  proof (cases "slash \<in> set x")
    case False
    then have "parentOf q = d" unfolding q by (rule parentOf_join)
    with hp assms(4) show ?thesis by (simp add: has_parent_def)
  next
    case True
    then obtain y z where x: "x = y @ slash # z" "slash \<notin> set z" using split_list_last [OF True] by blast
    then have par: "parentOf q = d @ slash # y" unfolding q using parentOf_join [of z "d @ slash # y"] by simp
    with hp have m: "m (parentOf q) \<noteq> None" by (auto simp: has_parent_def)
    then have "normal (parentOf q)" using assms(1) by (auto simp: tree_def)
    then have "y \<noteq> []" unfolding par normal_def by auto
    then have "below d (parentOf q)" unfolding par below_iff by blast
    moreover have "length (parentOf q) < length q" using b(1) by (metis length_append less_add_same_cancel1 list.size(4) zero_less_Suc add_Suc_right)
    ultimately show ?thesis using less(1) m by blast
  qed
qed

definition relocate :: "bool \<Rightarrow> string \<Rightarrow> string \<Rightarrow> string \<Rightarrow> string" where
  "relocate isdir oldn newn q =
     (if q = oldn then newn else if isdir \<and> below oldn q then newn @ [slash] @ drop (length oldn + 1) q else q)"

lemma relocate_below: "relocate True oldn newn (oldn @ slash # x) = newn @ slash # x" if "x \<noteq> []"
proof -
  have "below oldn (oldn @ slash # x)" using that unfolding below_iff by blast
  then show ?thesis by (simp add: relocate_def)
qed

definition move_node :: "bool \<Rightarrow> string \<Rightarrow> string \<Rightarrow> tmpfs_node_t \<Rightarrow> tmpfs_node_t" where
  "move_node isdir oldn newn n = n\<lparr>m_path := relocate isdir oldn newn (m_path n)\<rparr>"

lemma update_as_map:
  assumes "distinct (map m_path ns)" and "findNode ns p = Some i"
  shows "ns[i := f (ns ! i)] = map (\<lambda>n. if m_path n = p then f n else n) ns"
  using assms
proof (induction ns arbitrary: i)
  case (Cons n ns)
  show ?case
  proof (cases "m_path n = p")
    case True
    then have "map (\<lambda>n. if m_path n = p then f n else n) ns = ns" using Cons.prems(1) by (intro map_idI) (auto simp: image_iff)
    with True Cons.prems show ?thesis by simp
  qed (use Cons in auto)
qed simp

text \<open>A rename that does not move a directory below itself relocates every path.\<close>

lemma rename_cases:
  assumes "tmpfs_wf ns" and "rename oldPath newPath ns = (r, ns')"
  obtains (fail) "r = -1" and "ns' = ns"
  | (ok) i where "r = 0" and "findNode ns (normalize oldPath) = Some i" and "findNode ns (normalize newPath) = None"
     and "normal (normalize newPath)" and "parentExists ns (normalize newPath)" and "length (normalize newPath) \<le> TMPFS_MAX_PATH"
     and "below (normalize oldPath) (normalize newPath) \<or> ns' = map (move_node (m_type (ns ! i) = FILE_TYPE_DIR) (normalize oldPath) (normalize newPath)) ns"
proof (cases "rename oldPath newPath ns = (-1, ns)")
  case True
  then show ?thesis using assms(2) fail by simp
next
  case False
  define oldn newn where "oldn = normalize oldPath" and "newn = normalize newPath"
  from False obtain i where i: "findNode ns oldn = Some i" and g: "oldn \<noteq> []" "newn \<noteq> []" "findNode ns newn = None"
      "parentExists ns newn" "length newn \<le> TMPFS_MAX_PATH"
    by (auto simp: rename_def Let_def oldn_def newn_def split: if_splits option.splits)
  have d: "distinct (map m_path ns)" using assms(1) by (simp add: tmpfs_wf_def)
  have upd: "ns[i := (ns ! i)\<lparr>m_path := newn\<rparr>] = map (\<lambda>n. if m_path n = oldn then n\<lparr>m_path := newn\<rparr> else n) ns"
    by (rule update_as_map [OF d i])
  have same: "n\<lparr>m_path := m_path n\<rparr> = n" for n :: tmpfs_node_t by (cases n) simp
  have r: "r = 0" and ns': "ns' = (if m_type (ns ! i) = FILE_TYPE_DIR
      then map (\<lambda>n. if below oldn (m_path n) then n\<lparr>m_path := newn @ [slash] @ drop (length oldn + 1) (m_path n)\<rparr> else n)
             (ns[i := (ns ! i)\<lparr>m_path := newn\<rparr>])
      else ns[i := (ns ! i)\<lparr>m_path := newn\<rparr>])"
    using assms(2) g i by (simp_all add: rename_def oldn_def [symmetric] newn_def [symmetric] Let_def)
  have "ns' = map (move_node (m_type (ns ! i) = FILE_TYPE_DIR) oldn newn) ns" if "\<not> below oldn newn"
    unfolding ns' upd using that by (simp add: move_node_def relocate_def same)
  then have "below oldn newn \<or> ns' = map (move_node (m_type (ns ! i) = FILE_TYPE_DIR) oldn newn) ns" by blast
  then show ?thesis using ok [of i] r i g normalize_normal [of newPath] by (simp add: oldn_def newn_def)
qed

lemma relocate_cases:
  obtains (self) "q = oldn" and "relocate isdir oldn newn q = newn"
  | (inside) x where "isdir" and "x \<noteq> []" and "q = oldn @ slash # x" and "relocate isdir oldn newn q = newn @ slash # x"
  | (stay) "relocate isdir oldn newn q = q" and "q \<noteq> oldn" and "\<not> (isdir \<and> below oldn q)"
proof (cases "q \<noteq> oldn \<and> isdir \<and> below oldn q")
  case True
  then obtain x where "x \<noteq> []" "q = oldn @ slash # x" unfolding below_iff by blast
  with True inside [of x] show ?thesis by (simp add: relocate_def)
qed (use self stay in \<open>auto simp: relocate_def\<close>)

lemma tree_no_below: "tree m \<Longrightarrow> m d = None \<Longrightarrow> d \<noteq> [] \<Longrightarrow> below d q \<Longrightarrow> m q = None"
  using tree_above [of m q d] by fastforce

lemma relocate_image:
  assumes "tree m" and "m newn = None" and "newn \<noteq> []" and "m q \<noteq> None"
  shows "q = (let r = relocate isdir oldn newn q in
     if r = newn then oldn else if below newn r then oldn @ [slash] @ drop (length newn + 1) r else r)"
proof (cases rule: relocate_cases [of q oldn isdir newn])
  case (inside x)
  then have "below newn (newn @ slash # x)" unfolding below_iff by blast
  then show ?thesis unfolding inside(4) by (simp add: inside(3))
next
  case stay
  have "q \<noteq> newn" and "\<not> below newn q" using assms tree_no_below [OF assms(1-3)] by auto
  then show ?thesis unfolding stay(1) by simp
qed simp

lemma relocate_inj:
  assumes "tree m" and "m newn = None" and "newn \<noteq> []"
  shows "inj_on (relocate isdir oldn newn) (dom m)"
proof (rule inj_on_inverseI)
  fix q assume "q \<in> dom m"
  then have "m q \<noteq> None" by blast
  from relocate_image [OF assms this, of isdir oldn]
  show "(\<lambda>r. if r = newn then oldn else if below newn r then oldn @ [slash] @ drop (length newn + 1) r else r)
      (relocate isdir oldn newn q) = q" unfolding Let_def by (rule sym)
qed

lemma normal_move: "normal a \<Longrightarrow> normal (b @ slash # x) \<Longrightarrow> x \<noteq> [] \<Longrightarrow> normal (a @ slash # x)"
  by (auto simp: normal_def)

lemma relocate_normal:
  assumes "normal newn" and "normal q"
  shows "normal (relocate isdir oldn newn q)"
  by (cases rule: relocate_cases [of q oldn isdir newn]) (use assms normal_move in auto)

lemma parentOf_under:
  assumes "normal (d @ slash # x)" and "parentOf (d @ slash # x) \<noteq> d" and "d \<noteq> []"
  obtains y where "parentOf (d @ slash # x) = d @ slash # y" and "\<And>e. parentOf (e @ slash # x) = e @ slash # y"
proof -
  have s: "slash \<in> set x" using assms(2) parentOf_join by blast
  obtain y z where x: "x = y @ slash # z" "slash \<notin> set z" using split_list_last [OF s] by blast
  then have "parentOf (e @ slash # x) = e @ slash # y" for e using parentOf_join [of z "e @ slash # y"] by simp
  with that show ?thesis by blast
qed

text \<open>The parent of a relocated path is the relocated parent.\<close>

lemma relocate_parent:
  assumes "tree m" and "m oldn = Some old" and isdir: "isdir = (m_type old = FILE_TYPE_DIR)" and "normal newn"
    and "has_parent m newn" and nb: "\<not> below oldn newn" and q: "m q \<noteq> None" and top: "parentOf (relocate isdir oldn newn q) \<noteq> []"
  shows "\<exists>p d. m p = Some d \<and> m_type d = FILE_TYPE_DIR \<and> relocate isdir oldn newn p = parentOf (relocate isdir oldn newn q)"
proof -
  have nq: "normal q" "has_parent m q" using assms(1) q by (auto simp: tree_def)
  have old: "oldn \<noteq> []" using assms(1,2) by (auto simp: tree_def normal_def)
  have keep: "relocate isdir oldn newn (parentOf p) = parentOf p"
    if "\<not> (isdir \<and> below oldn p)" "normal p" "parentOf p \<noteq> []" "has_parent m p" for p
  proof -
    note b = parentOf_below [OF that(2,3)]
    have "isdir" if "parentOf p = oldn" using that \<open>has_parent m p\<close> assms(2) isdir old by (simp add: has_parent_def)
    with that(1) b have "parentOf p \<noteq> oldn" and "\<not> (isdir \<and> below oldn (parentOf p))" using below_trans by auto
    then show ?thesis by (auto simp: relocate_def)
  qed
  show ?thesis
  proof (cases rule: relocate_cases [of q oldn isdir newn])
    case self
    with top assms(5) have "\<exists>d. m (parentOf newn) = Some d \<and> m_type d = FILE_TYPE_DIR" by (simp add: has_parent_def)
    with self keep [of newn] assms(4,5) nb top show ?thesis by auto
  next
    case stay
    with top nq have "\<exists>d. m (parentOf q) = Some d \<and> m_type d = FILE_TYPE_DIR" by (simp add: has_parent_def)
    with stay keep [of q] nq top show ?thesis by auto
  next
    case (inside x)
    show ?thesis
    proof (cases "parentOf q = oldn")
      case True
      obtain b where "q = parentOf q @ slash # b" "slash \<notin> set b" by (rule parentOf_split [of q]) (simp_all add: inside(3))
      with True inside(3) have "slash \<notin> set x" by simp
      then have "parentOf (newn @ slash # x) = newn" by (rule parentOf_join)
      with inside assms(2) isdir show ?thesis by (intro exI [of _ oldn] exI [of _ old]) (simp add: relocate_def)
    next
      case False
      then obtain y where y: "parentOf q = oldn @ slash # y" "parentOf (newn @ slash # x) = newn @ slash # y"
        using parentOf_under [of oldn x] nq(1) old inside(3) by metis
      then obtain d where d: "m (parentOf q) = Some d" "m_type d = FILE_TYPE_DIR" using nq(2) by (auto simp: has_parent_def)
      then have "normal (oldn @ slash # y)" using assms(1) y(1) by (simp add: tree_def)
      then have "y \<noteq> []" by (auto simp: normal_def)
      with y d inside relocate_below [of y oldn newn] show ?thesis by auto
    qed
  qed
qed

lemma wf_members:
  assumes "distinct (map m_path ns)"
    and "\<And>n. n \<in> set ns \<Longrightarrow> normal (m_path n) \<and> has_parent (view ns) (m_path n) \<and>
      (m_type n = FILE_TYPE_REG \<or> m_type n = FILE_TYPE_DIR \<and> m_data n = [])"
  shows "tree (view ns)"
  unfolding tree_def using assms(2) view_in view_path by blast

lemma move_distinct:
  assumes "tmpfs_wf ns" and "findNode ns newn = None" and "newn \<noteq> []"
  shows "distinct (map m_path (map (move_node isdir oldn newn) ns))"
proof -
  have paths: "map m_path (map (move_node isdir oldn newn) ns) = map (relocate isdir oldn newn) (map m_path ns)"
    by (simp add: move_node_def)
  have "set (map m_path ns) \<subseteq> dom (view ns)" using view_None by auto
  moreover have "inj_on (relocate isdir oldn newn) (dom (view ns))"
    using assms by (intro relocate_inj) (simp_all add: tmpfs_wf_def view_def)
  ultimately have "inj_on (relocate isdir oldn newn) (set (map m_path ns))" by (rule inj_on_subset [rotated])
  then show ?thesis
    unfolding paths distinct_map [of _ "map m_path ns"] using assms(1) by (simp add: tmpfs_wf_def)
qed

lemma move_view:
  assumes "tmpfs_wf ns" and "findNode ns newn = None" and "newn \<noteq> []" and "view ns p = Some n"
  shows "view (map (move_node isdir oldn newn) ns) (relocate isdir oldn newn p) = Some (move_node isdir oldn newn n)"
proof -
  let ?mv = "move_node isdir oldn newn"
  have "?mv n \<in> set (map ?mv ns)" using view_in [OF assms(4)] by simp
  from view_mem [OF move_distinct [OF assms(1-3)] this] show ?thesis
    using view_path [OF assms(4)] by (simp add: move_node_def [of _ _ _ n])
qed

lemma move_wf:
  assumes wf: "tmpfs_wf ns" and old: "findNode ns oldn = Some i" and isdir: "isdir = (m_type (ns ! i) = FILE_TYPE_DIR)"
    and new: "findNode ns newn = None" "normal newn" "parentExists ns newn" "\<not> below oldn newn"
  shows "tmpfs_wf (map (move_node isdir oldn newn) ns)"
proof -
  define ns' f where "ns' = map (move_node isdir oldn newn) ns" and "f = relocate isdir oldn newn"
  have ne: "newn \<noteq> []" using new(2) by (simp add: normal_def)
  have d': "distinct (map m_path ns')" unfolding ns'_def by (rule move_distinct [OF wf new(1) ne])
  have w: "distinct (map m_path ns)" "tree (view ns)" using wf by (auto simp: tmpfs_wf_def)
  note v' = move_view [OF wf new(1) ne, of _ _ isdir oldn, folded f_def ns'_def]
  have "tree (view ns')"
  proof (rule wf_members [OF d'])
    fix n' assume "n' \<in> set ns'"
    then obtain n where n: "n \<in> set ns" "n' = move_node isdir oldn newn n" by (auto simp: ns'_def)
    then have vn: "view ns (m_path n) = Some n" by (simp add: view_mem w(1))
    have p: "m_path n' = f (m_path n)" by (simp add: n(2) move_node_def f_def)
    have hp: "has_parent (view ns') (f (m_path n))"
    proof (cases "parentOf (f (m_path n)) = []")
      case False
      have "\<exists>p d. view ns p = Some d \<and> m_type d = FILE_TYPE_DIR \<and> f p = parentOf (f (m_path n))"
        unfolding f_def
        by (rule relocate_parent [OF w(2) find_view [OF old] isdir new(2)])
          (use new vn False in \<open>simp_all add: parentExists_view f_def\<close>)
      then obtain p d where "view ns p = Some d" "m_type d = FILE_TYPE_DIR" "f p = parentOf (f (m_path n))" by blast
      with v' [of p d] show ?thesis by (simp add: has_parent_def move_node_def)
    qed (simp add: has_parent_def)
    have "normal (f (m_path n))"
      unfolding f_def using w(2) vn new(2) by (intro relocate_normal) (auto simp: tree_def)
    moreover have "m_type n' = FILE_TYPE_REG \<or> m_type n' = FILE_TYPE_DIR \<and> m_data n' = []"
      using w(2) vn by (simp add: n(2) move_node_def tree_def)
    ultimately show "normal (m_path n') \<and> has_parent (view ns') (m_path n') \<and>
        (m_type n' = FILE_TYPE_REG \<or> m_type n' = FILE_TYPE_DIR \<and> m_data n' = [])" unfolding p using hp by blast
  qed
  moreover have "total ns' = total ns" by (simp add: ns'_def total_def move_node_def comp_def)
  ultimately show ?thesis using wf d' unfolding ns'_def [symmetric] by (simp add: tmpfs_wf_def) (simp add: ns'_def)
qed

lemma rename_wf:
  assumes "tmpfs_wf ns" and "\<not> below (normalize oldPath) (normalize newPath)"
  shows "tmpfs_wf (snd (rename oldPath newPath ns))"
proof -
  obtain r ns' where e: "rename oldPath newPath ns = (r, ns')" by fastforce
  show ?thesis
  proof (cases rule: rename_cases [OF assms(1) e])
    case 1
    then show ?thesis by (simp add: e assms(1))
  next
    case (2 i)
    with move_wf [OF assms(1) 2(2) refl 2(3-5) assms(2)] assms(2) show ?thesis by (simp add: e)
  qed
qed

lemma below_parent:
  assumes "below d p" and "d \<noteq> []"
  shows "parentOf p = d \<or> below d (parentOf p) \<or> parentOf p = d @ [slash]"
proof -
  from assms(1) obtain x where p: "p = d @ slash # x" unfolding below_iff by blast
  show ?thesis
  proof (cases "slash \<in> set x")
    case True
    then obtain y z where x: "x = y @ slash # z" "slash \<notin> set z" using split_list_last [OF True] by blast
    then have "parentOf p = d @ slash # y" unfolding p using parentOf_join [of z "d @ slash # y"] by simp
    then show ?thesis unfolding below_iff by (cases "y = []") auto
  qed (simp add: p parentOf_join)
qed

text \<open>A directory moved below itself ends under a path that no longer exists.\<close>

lemma rename_into_itself:
  assumes wf: "tmpfs_wf ns" and e: "rename oldPath newPath ns = (0, ns')"
    and b: "below (normalize oldPath) (normalize newPath)"
  shows "\<not> tmpfs_wf ns'"
proof (cases rule: rename_cases [OF wf e])
  case (2 i)
  define oldn newn where "oldn = normalize oldPath" and "newn = normalize newPath"
  note on = oldn_def [symmetric] newn_def [symmetric]
  note i = findNode_Some [OF 2(2)] and wi = tmpfs_wfD [OF wf 2(2)]
  have t: "tree (view ns)" using wf by (simp add: tmpfs_wf_def)
  obtain x where x: "x \<noteq> []" "newn = oldn @ slash # x" using b unfolding below_iff on by blast
  have on_ne: "oldn \<noteq> []" "newn \<noteq> []" using wi(1) 2(4) by (simp_all add: normal_def on)
  have par: "parentOf newn \<noteq> []" using below_parent [OF b [unfolded on]] on_ne by (auto simp: below_iff)
  then obtain d where d: "view ns (parentOf newn) = Some d" "m_type d = FILE_TYPE_DIR"
    using 2(5) by (auto simp: parentExists_view has_parent_def on)
  have "normal (parentOf newn)" using t d(1) by (simp add: tree_def)
  then have "parentOf newn = oldn \<or> below oldn (parentOf newn)"
    using below_parent [OF b [unfolded on] on_ne(1)] by (auto simp: normal_def)
  then have dir: "m_type (ns ! i) = FILE_TYPE_DIR"
    using d find_view [OF 2(2)] tree_above [OF t, of "parentOf newn" oldn] on_ne by (auto simp: on)
  define g where "g = (\<lambda>n :: tmpfs_node_t. if below oldn (m_path n) then n\<lparr>m_path := newn @ [slash] @ drop (length oldn + 1) (m_path n)\<rparr> else n)"
  define ms where "ms = ns[i := (ns ! i)\<lparr>m_path := newn\<rparr>]"
  have ns': "ns' = map g ms"
    using e 2 dir on_ne by (simp add: rename_def Let_def on g_def ms_def)
  have gone: "newn \<notin> m_path ` set ns'"
  proof -
    have "m_path (g n) \<noteq> newn" for n
      using b unfolding g_def on by (cases "below oldn (m_path n)") auto
    then show ?thesis unfolding ns' by auto
  qed
  have "(ns ! i)\<lparr>m_path := newn\<rparr> \<in> set ms" using i(1) unfolding ms_def by (rule set_update_memI)
  then have "g ((ns ! i)\<lparr>m_path := newn\<rparr>) \<in> set ns'" by (simp add: ns')
  moreover have "m_path (g ((ns ! i)\<lparr>m_path := newn\<rparr>)) = newn @ slash # x"
    using b unfolding g_def on by (simp add: x(2))
  ultimately have "newn @ slash # x \<in> m_path ` set ns'" by (metis imageI)
  moreover have "below newn (newn @ slash # x)" using x(1) unfolding below_iff by blast
  ultimately show ?thesis
    using tree_no_below [of "view ns'" newn] gone on_ne(2) unfolding tmpfs_wf_def by (metis view_None)
qed simp

section \<open>Reading\<close>

definition collect :: "string \<Rightarrow> string \<Rightarrow> bool \<times> string" where
  "collect s c = (True, s @ c)"

lemma read_loop_collect: "0 < chunk \<Longrightarrow> read_loop collect chunk rest k s = (k + length rest, s @ rest)"
proof (induction rest arbitrary: k s rule: length_induct)
  case (1 rest)
  show ?case
  proof (cases "rest = []")
    case False
    define m where "m = min (length rest) chunk"
    have m: "0 < m" "m \<le> length rest" using False 1(2) by (auto simp: m_def)
    have "read_loop collect chunk rest k s = read_loop collect chunk (drop m rest) (k + m) (s @ take m rest)"
      using False 1(2) by (subst read_loop.simps) (simp add: collect_def m_def Let_def)
    also have "\<dots> = (k + m + length (drop m rest), (s @ take m rest) @ drop m rest)"
      using 1 m by (metis length_drop diff_less length_greater_0_conv False)
    finally show ?thesis using m by simp
  qed (simp add: read_loop.simps)
qed

lemma readFile_collect:
  assumes "view ns (normalize (Some path)) = Some n" and "m_type n = FILE_TYPE_REG"
  shows "readFile (Some path) sz collect offset ns [] = (int (length (m_data n) - offset), drop offset (m_data n))"
  using assms by (auto simp: view_def readFile_def Let_def read_loop_collect)

section \<open>Attributes and time stamps\<close>

lemma wf_meta:
  assumes "tmpfs_wf ns" and "findNode ns p = Some i" and "m_path n = m_path (ns ! i)" and "m_type n = m_type (ns ! i)" and "m_data n = m_data (ns ! i)"
  shows "tmpfs_wf (ns[i := n])"
  using assms tmpfs_wfD [OF assms(1,2)] findNode_Some(2) [OF assms(2)]
  by (intro wf_update [OF assms(1,2)]) (auto simp: tmpfs_wf_def)

lemma touch_wf: "tmpfs_wf ns \<Longrightarrow> tmpfs_wf (snd (touch E path ns))"
  using createFile_wf [of ns None 0 E path]
  by (auto simp: touch_def create_len_def split: option.split intro: wf_meta)

lemma setFilePermissions_wf: "tmpfs_wf ns \<Longrightarrow> tmpfs_wf (snd (setFilePermissions path perms ns))"
  by (auto simp: setFilePermissions_def split: option.split intro: wf_meta)

lemma setFileOwner_wf: "tmpfs_wf ns \<Longrightarrow> tmpfs_wf (snd (setFileOwner path uid gid ns))"
  by (auto simp: setFileOwner_def split: option.split intro: wf_meta)

lemma setFileAttr_wf: "tmpfs_wf ns \<Longrightarrow> tmpfs_wf (snd (setFileAttr path type buf sz ns))"
  by (auto simp: setFileAttr_def split: option.split intro: wf_meta)

section \<open>Sequences of calls\<close>

datatype tmpfs_op =
    Create "string option" "string option" int
  | Write "string option" "string option" u32 bool
  | Edit "string option" u64 "string option" u32
  | MkDir "string option"
  | Delete "string option"
  | RmDir "string option"
  | Rename "string option" "string option"
  | Move "string option" "string option"
  | Copy "string option" "string option"
  | Touch "string option"
  | SetAttr "string option" u8 "byte list option" u32
  | Chmod "string option" u16
  | Chown "string option" u16 u16

text \<open>The state after a call; \<open>None\<close> when the call writes outside a string.\<close>

fun apply_op :: "stamp \<Rightarrow> tmpfs_op \<Rightarrow> tmpfs \<Rightarrow> tmpfs option" where
  "apply_op E (Create p c sz) ns = Some (snd (createFile E p c sz ns))"
| "apply_op E (Write p c n app) ns = Some (snd (writeFile E p c n app ns))"
| "apply_op E (Edit p off c n) ns = map_option snd (editFile E p off c n ns)"
| "apply_op E (MkDir p) ns = Some (snd (createDirectory E p ns))"
| "apply_op E (Delete p) ns = Some (snd (deleteFile p ns))"
| "apply_op E (RmDir p) ns = Some (snd (deleteDirectory p ns))"
| "apply_op E (Rename p q) ns = Some (snd (rename p q ns))"
| "apply_op E (Move p q) ns = Some (snd (moveFile p q ns))"
| "apply_op E (Copy p q) ns = Some (snd (copyFile E p q ns))"
| "apply_op E (Touch p) ns = Some (snd (touch E p ns))"
| "apply_op E (SetAttr p t b sz) ns = Some (snd (setFileAttr p t b sz ns))"
| "apply_op E (Chmod p m) ns = Some (snd (setFilePermissions p m ns))"
| "apply_op E (Chown p u g) ns = Some (snd (setFileOwner p u g ns))"

fun run_ops :: "(stamp \<times> tmpfs_op) list \<Rightarrow> tmpfs \<Rightarrow> tmpfs option" where
  "run_ops [] ns = Some ns"
| "run_ops ((E, a) # as) ns = (case apply_op E a ns of None \<Rightarrow> None | Some ns' \<Rightarrow> run_ops as ns')"

text \<open>
  Calls whose sizes cannot wrap the 32-bit quota sum, whose edits pass as many bytes as they claim, and whose
  renames do not move a directory below itself.
\<close>

fun admissible :: "tmpfs_op \<Rightarrow> bool" where
  "admissible (Create p c sz) = (unat (create_len c sz) + 4096 < 2 ^ 32)"
| "admissible (Write p c n app) = (unat n + 4096 < 2 ^ 32)"
| "admissible (Edit p off c n) = (case c of None \<Rightarrow> True
     | Some mem \<Rightarrow> unat n = length mem \<and> unat (ucast off :: u32) + unat n + 4096 < 2 ^ 32)"
| "admissible (Rename p q) = (\<not> below (normalize p) (normalize q))"
| "admissible (Move p q) = (\<not> below (normalize p) (normalize q))"
| "admissible a = True"

lemma apply_op_wf:
  assumes "tmpfs_wf ns" and "admissible a"
  shows "\<exists>ns'. apply_op E a ns = Some ns' \<and> tmpfs_wf ns'"
proof (cases a)
  case (Edit p off c n)
  show ?thesis
  proof (cases c)
    case None
    then have "editFile E p off c n ns = Some (-1, ns)" by (simp add: editFile_def split: option.split)
    then show ?thesis using assms(1) by (simp add: Edit)
  next
    case (Some mem)
    then show ?thesis using assms(2) editFile_wf [OF assms(1), of n mem off E p] by (auto simp: Edit)
  qed
qed (use assms in \<open>auto simp: moveFile_def intro: createFile_wf writeFile_wf createDirectory_wf deleteFile_wf deleteDirectory_wf
       rename_wf copyFile_wf touch_wf setFilePermissions_wf setFileOwner_wf setFileAttr_wf\<close>)

lemma tmpfs_wf_Nil: "tmpfs_wf []"
  by (simp add: tmpfs_wf_def tree_def)

lemma run_ops_wf:
  "tmpfs_wf ns \<Longrightarrow> (\<forall>(E, a) \<in> set ops. admissible a) \<Longrightarrow> \<exists>ns'. run_ops ops ns = Some ns' \<and> tmpfs_wf ns'"
proof (induction ops arbitrary: ns)
  case (Cons op ops)
  obtain E a where op: "op = (E, a)" by (cases op)
  obtain ns' where "apply_op E a ns = Some ns'" "tmpfs_wf ns'"
    using apply_op_wf [OF Cons.prems(1), of a E] Cons.prems(2) op by auto
  with Cons op show ?case by simp
qed simp

section \<open>What a write leaves\<close>

lemma sint_quota:
  assumes "unat (n :: u32) = k" and "k \<le> 4096"
  shows "sint n = int k"
  unfolding assms(1) [symmetric] using assms by (intro sint_small) simp

lemma writeFile_effect:
  assumes wf: "tmpfs_wf ns" and n: "unat n = length mem" "unat n + 4096 < 2 ^ 32"
    and w: "writeFile E path (Some mem) n app ns = (r, ns')" and r: "0 \<le> r"
  shows "r = int (length mem)"
    and "\<exists>node. view ns' = (view ns)(normalize path \<mapsto> node) \<and> m_type node = FILE_TYPE_REG \<and>
      m_data node = (case view ns (normalize path) of None \<Rightarrow> [] | Some o1 \<Rightarrow> if app then m_data o1 else []) @ mem"
proof -
  define p where "p = normalize path"
  have pc: "putContent E p (Some mem) n app ns = (r, ns')" using w by (simp add: writeFile_def p_def)
  have pm: "piece (Some mem) n = mem" by (simp add: piece_def n)
  have "r = int (length mem) \<and> (\<exists>node. view ns' = (view ns)(p \<mapsto> node) \<and> m_type node = FILE_TYPE_REG \<and>
      m_data node = (case view ns p of None \<Rightarrow> [] | Some o1 \<Rightarrow> if app then m_data o1 else []) @ mem)"
  proof (cases rule: putContent_cases [of E p "Some mem" n app ns])
    case fail
    with pc r show ?thesis by simp
  next
    case (new node)
    have "total ns + unat n \<le> 4096"
      using wf n(2) new(6) by (intro quota_word) (auto simp: tmpfs_wf_def usedBytes_total)
    then have "sint n = int (length mem)" using sint_quota [OF n(1)] n(1) by simp
    moreover have "view ns (m_path node) = None" using new by (simp add: view_def stampNew_def fresh_node_def)
    ultimately show ?thesis
      using new pc view_append [of ns node] by (auto simp: stampNew_def fresh_node_def pm)
  next
    case (old i)
    note i = findNode_Some [OF old(1)] and wi = tmpfs_wfD [OF wf old(1)]
    have t: "total ns \<le> 4096" "length (m_data (ns ! i)) \<le> total ns" "total ns - length (m_data (ns ! i)) \<le> 4096"
      using wf total_nth [OF i(1)] by (auto simp: tmpfs_wf_def)
    have "unat n \<le> 4096"
      using old(4) t n(2) quota_word [OF t(1) n(2)] quota_word [OF t(3) n(2)]
      by (cases app) (simp_all add: usedBytes_total of_nat_diff)
    then have s: "sint n = int (length mem)" using sint_quota [OF n(1)] n(1) by simp
    have v: "view ns p = Some (ns ! i)" by (rule find_view [OF old(1)])
    show ?thesis
      using old pc s v wi i(2) view_update [OF old(1)] by (auto simp: pm)
  qed
  then show "r = int (length mem)"
    and "\<exists>node. view ns' = (view ns)(normalize path \<mapsto> node) \<and> m_type node = FILE_TYPE_REG \<and>
      m_data node = (case view ns (normalize path) of None \<Rightarrow> [] | Some o1 \<Rightarrow> if app then m_data o1 else []) @ mem"
    by (auto simp: p_def)
qed

lemma writeFile_fail:
  assumes "unat n \<le> 4096" and "writeFile E path content n app ns = (r, ns')" and "r < 0"
  shows "ns' = ns"
proof -
  have "0 \<le> sint n" unfolding sint_quota [OF refl assms(1)] by (rule of_nat_0_le_iff)
  then show ?thesis
    using assms(2,3) by (cases rule: putContent_cases [of E "normalize path" content n app ns]) (auto simp: writeFile_def)
qed

section \<open>Properties\<close>

text \<open>
  C3. Whatever calls a client makes, in whatever order, as long as no size wraps the 32-bit quota sum and no
  directory is moved below itself, no call writes outside a file and the file system stays a tree: paths are
  unique and normal, every node's parent is the root or an existing directory, directories hold no data, and
  the limits of 24 nodes and 4096 bytes hold.
\<close>

theorem tmpfs_stays_tree:
  assumes "\<forall>(E, a) \<in> set ops. admissible a"
  shows "\<exists>ns. run_ops ops [] = Some ns \<and> tmpfs_wf ns"
  using run_ops_wf [OF tmpfs_wf_Nil assms] .

definition witness_stamp :: stamp where
  "witness_stamp = \<lparr>now_epoch = 7, owner_uid = 1, owner_gid = 2, owner_umask = 0x12\<rparr>"

definition witness_ops :: "(stamp \<times> tmpfs_op) list" where
  "witness_ops = map (\<lambda>a. (witness_stamp, a)) [MkDir (Some ''/d/''), Create (Some ''/d/f'') (Some ''abc'') (-1),
     Edit (Some ''d/f'') 2 (Some ''xyz'') 3, Copy (Some ''d/f'') (Some ''g''), Rename (Some ''d'') (Some ''e''), Delete (Some ''g'')]"

theorem tmpfs_stays_tree_witness:
  "\<exists>ns. run_ops witness_ops [] = Some ns \<and> tmpfs_wf ns \<and> map m_path ns = [''e'', ''e/f''] \<and> map m_data ns = [[], ''abxyz'']"
proof -
  have "\<forall>(E, a) \<in> set witness_ops. admissible a"
    by (simp add: witness_ops_def create_len_def cstr_def below_def normalize_def)
  from tmpfs_stays_tree [OF this] obtain ns where ns: "run_ops witness_ops [] = Some ns" "tmpfs_wf ns" by blast
  have "map_option (\<lambda>ns. (map m_path ns, map m_data ns)) (run_ops witness_ops []) = Some ([''e'', ''e/f''], [[], ''abxyz''])"
    by code_simp
  with ns show ?thesis by simp
qed

text \<open>
  C24. A successful write returns the number of bytes, and a read of the same path in chunks of any size then
  delivers the previous content (when appending) followed by exactly the bytes written, from any offset on;
  no other path is affected.
\<close>

theorem write_then_read:
  assumes "tmpfs_wf ns" and "unat n = length mem" and "unat n + 4096 < 2 ^ 32"
    and "writeFile E (Some path) (Some mem) n app ns = (r, ns')" and "0 \<le> r"
  shows "r = int (length mem) \<and>
    (let old = (if app \<and> isFileExist (Some path) ns then snd (readFile (Some path) 0 collect 0 ns []) else []) in
     snd (readFile (Some path) sz collect offset ns' []) = drop offset (old @ mem)) \<and>
    (\<forall>q. normalize (Some q) \<noteq> normalize (Some path) \<longrightarrow> view ns' (normalize (Some q)) = view ns (normalize (Some q)))"
proof -
  define p where "p = normalize (Some path)"
  obtain node where node: "view ns' = (view ns)(p \<mapsto> node)" "m_type node = FILE_TYPE_REG"
      "m_data node = (case view ns p of None \<Rightarrow> [] | Some old \<Rightarrow> if app then m_data old else []) @ mem"
    using writeFile_effect(2) [OF assms] unfolding p_def by blast
  have rd: "snd (readFile (Some path) sz collect offset ns' []) = drop offset (m_data node)"
    using readFile_collect [of ns' path node sz offset] node by (simp add: p_def)
  have ex: "isFileExist (Some path) ns \<longleftrightarrow> (\<exists>old. view ns p = Some old \<and> m_type old = FILE_TYPE_REG)"
    by (auto simp: isFileExist_def view_def p_def split: option.split)
  have "(if app \<and> isFileExist (Some path) ns then snd (readFile (Some path) 0 collect 0 ns []) else []) @ mem = m_data node"
  proof (cases "view ns p")
    case (Some old)
    show ?thesis
    proof (cases "m_type old = FILE_TYPE_REG")
      case True
      then show ?thesis using readFile_collect [of ns path old 0 0] Some node(3) ex by (simp add: p_def)
    next
      case False
      then have "m_data old = []" using assms(1) Some by (auto simp: tmpfs_wf_def tree_def)
      then show ?thesis using False Some node(3) ex by auto
    qed
  qed (use node ex in simp)
  then show ?thesis unfolding Let_def rd using writeFile_effect(1) [OF assms] node(1) by (simp del: drop_append add: p_def)
qed

definition witness_fs :: tmpfs where
  "witness_fs = [fresh_node ''d'' [] FILE_TYPE_DIR, fresh_node ''d/f'' ''ab'' FILE_TYPE_REG, fresh_node ''g'' ''z'' FILE_TYPE_REG]"

lemma witness_fs_wf: "tmpfs_wf witness_fs"
proof -
  have "tree (view witness_fs)"
    by (rule wf_members) (auto simp: witness_fs_def fresh_node_def normal_def has_parent_def parentOf_def)
  then show ?thesis by (simp add: tmpfs_wf_def witness_fs_def fresh_node_def)
qed

theorem write_then_read_witness:
  "\<exists>ns'. writeFile witness_stamp (Some ''/d/f'') (Some ''xyz'') 3 True witness_fs = (3, ns') \<and>
     snd (readFile (Some ''d/f'') 2 collect 1 ns' []) = ''bxyz''"
proof -
  obtain r ns' where w: "writeFile witness_stamp (Some ''d/f'') (Some ''xyz'') 3 True witness_fs = (r, ns')" by fastforce
  have f: "fst (writeFile witness_stamp (Some ''d/f'') (Some ''xyz'') 3 True witness_fs) = 3" by code_simp
  then have "0 \<le> r" using w by simp
  have old: "isFileExist (Some ''d/f'') witness_fs" "view witness_fs (normalize (Some ''d/f'')) = Some (fresh_node ''d/f'' ''ab'' FILE_TYPE_REG)"
    by code_simp+
  have "snd (readFile (Some ''d/f'') 0 collect 0 witness_fs []) = ''ab''"
    using readFile_collect [OF old(2)] by (simp add: fresh_node_def)
  with write_then_read [OF witness_fs_wf _ _ w \<open>0 \<le> r\<close>, of 2 1] old(1)
  have "snd (readFile (Some ''d/f'') 2 collect 1 ns' []) = ''bxyz''" by simp
  moreover have "writeFile witness_stamp (Some ''/d/f'') (Some ''xyz'') 3 True witness_fs =
      writeFile witness_stamp (Some ''d/f'') (Some ''xyz'') 3 True witness_fs"
    by (simp add: writeFile_def normalize_def)
  ultimately show ?thesis using w f by auto
qed

text \<open>
  Deleting a directory succeeds exactly for existing directories other than the root, and then removes
  that directory and everything below it at any depth, and nothing else; otherwise nothing changes.
\<close>

theorem deleteDirectory_subtree:
  assumes "tmpfs_wf ns"
  shows "if isDirExist path ns \<and> normalize path \<noteq> []
    then fst (deleteDirectory path ns) = 0 \<and>
      view (snd (deleteDirectory path ns)) = view ns |` (- {p. p = normalize path \<or> below (normalize path) p})
    else deleteDirectory path ns = (-1, ns)"
proof (cases "isDirExist path ns \<and> normalize path \<noteq> []")
  case True
  then have "fst (deleteDirectory path ns) = 0"
    by (auto simp: isDirExist_def deleteDirectory_def Let_def split: option.splits)
  with True deleteDirectory_view [OF assms this] show ?thesis by simp
next
  case False
  then have "deleteDirectory path ns = (-1, ns)"
    by (auto simp: isDirExist_def deleteDirectory_def Let_def split: option.splits)
  with False show ?thesis by simp
qed

theorem deleteDirectory_subtree_witness:
  "isDirExist (Some ''/d'') witness_fs \<and> view (snd (deleteDirectory (Some ''/d'') witness_fs)) ''d/f'' = None \<and>
   view (snd (deleteDirectory (Some ''/d'') witness_fs)) ''g'' = Some (fresh_node ''g'' ''z'' FILE_TYPE_REG)"
proof -
  have d: "isDirExist (Some ''/d'') witness_fs" "normalize (Some ''/d'') = ''d''" by code_simp+
  have "view (snd (deleteDirectory (Some ''/d'') witness_fs)) = view witness_fs |` (- {p. p = ''d'' \<or> below ''d'' p})"
    using deleteDirectory_subtree [OF witness_fs_wf, of "Some ''/d''"] d by simp
  with d show ?thesis by (simp add: restrict_map_def below_def witness_fs_def fresh_node_def)
qed



text \<open>
  An edit whose end fits 32 bits overwrites exactly the passed bytes at the offset taken modulo 2^32,
  padding the file with NUL up to that offset, unless the quota would be exceeded; it never leaves the
  file's memory and changes nothing else.
\<close>

theorem editFile_overwrites:
  assumes "tmpfs_wf ns" and "view ns (normalize path) = Some f" and "m_type f = FILE_TYPE_REG"
    and "unat n = length mem" and "unat (ucast offset :: u32) + unat n + 4096 < 2 ^ 32"
  shows "\<exists>r ns'. editFile E path offset (Some mem) n ns = Some (r, ns') \<and>
    (let new = overwrite (unat offset mod 2 ^ 32) mem (m_data f) in
     if total ns - length (m_data f) + length new > 4096 then r = -1 \<and> ns' = ns
     else r = int (length mem) \<and> view ns' = (view ns)(normalize path \<mapsto> f\<lparr>m_data := new, m_mtime := now_epoch E\<rparr>))"
proof -
  from assms(2) obtain i where i: "findNode ns (normalize path) = Some i" "f = ns ! i" by (auto simp: view_def)
  have off: "unat (ucast offset :: u32) = unat offset mod 2 ^ 32"
    by (simp add: unsigned_ucast_eq unsigned_take_bit_eq take_bit_eq_mod)
  define new where "new = overwrite (unat offset mod 2 ^ 32) mem (m_data f)"
  have e: "editFile E path offset (Some mem) n ns = (if total ns - length (m_data f) + length new > 4096 then Some (-1, ns)
      else Some (sint n, ns[i := f\<lparr>m_data := new, m_mtime := now_epoch E\<rparr>]))"
    using editFile_cases [OF assms(1) i(1) _ assms(4,5), of E] assms(3) i(2) off by (simp add: Let_def new_def)
  have "sint n = int (length mem)" if "\<not> total ns - length (m_data f) + length new > 4096"
    using that by (intro sint_quota [OF assms(4)]) (simp add: new_def overwrite_length)
  moreover have "view (ns[i := f\<lparr>m_data := new, m_mtime := now_epoch E\<rparr>]) = (view ns)(normalize path \<mapsto> f\<lparr>m_data := new, m_mtime := now_epoch E\<rparr>)"
    using findNode_Some(2) [OF i(1)] i(2) by (intro view_update [OF i(1)]) simp
  ultimately show ?thesis unfolding e Let_def new_def [symmetric] by simp
qed

theorem editFile_overwrites_witness:
  "\<exists>ns'. editFile witness_stamp (Some ''g'') 0x100000003 (Some ''pq'') 2 witness_fs = Some (2, ns') \<and>
     view ns' ''g'' = Some ((fresh_node ''g'' (''z'' @ [NUL, NUL] @ ''pq'') FILE_TYPE_REG)\<lparr>m_mtime := 7\<rparr>)"
proof -
  have g: "view witness_fs (normalize (Some ''g'')) = Some (fresh_node ''g'' ''z'' FILE_TYPE_REG)"
      "normalize (Some ''g'') = ''g''" "total witness_fs = 3" "now_epoch witness_stamp = 7" by code_simp+
  have o: "overwrite 3 ''pq'' ''z'' = ''z'' @ [NUL, NUL] @ ''pq''" by code_simp
  have "unat (ucast (0x100000003 :: u64) :: u32) + unat (2 :: u32) + 4096 < 2 ^ 32" by simp
  from editFile_overwrites [OF witness_fs_wf g(1) _ _ this, of "''pq''" witness_stamp] g(2-4) o
  show ?thesis by (auto simp: fresh_node_def Let_def)
qed

end
