(* ===== verification/VfsDispatcher.thy ===== *)
theory VfsDispatcher
  imports TmpFs
begin

text \<open>
  The mount table and path routing of \<^verbatim>\<open>interface/pdi/impl/modules/storage/VfsDispatcher.cpp\<close>, with the
  access checks of the routed operations. A backend is a record of operations on its own state; backends
  are numbered (the pointer identity the code compares). Reading is the list of chunks a backend offers to
  the callback and the code it returns when the callback accepted a given number of them. The current
  session's user and group are arguments, with authentication enabled.
\<close>

unbundle bit_operations_syntax

section \<open>Backends\<close>

text \<open>The operations of the file system interface that take a path.\<close>

record 's fs_ops =
  op_init :: "'s \<Rightarrow> int \<times> 's"
  op_createFile :: "string option \<Rightarrow> string option \<Rightarrow> int \<Rightarrow> 's \<Rightarrow> int \<times> 's"
  op_editFile :: "string option \<Rightarrow> u64 \<Rightarrow> string option \<Rightarrow> u32 \<Rightarrow> 's \<Rightarrow> (int \<times> 's) option"
  op_writeFile :: "string option \<Rightarrow> string option \<Rightarrow> u32 \<Rightarrow> bool \<Rightarrow> 's \<Rightarrow> int \<times> 's"
  op_readFile :: "string option \<Rightarrow> nat \<Rightarrow> nat \<Rightarrow> 's \<Rightarrow> string list \<times> (nat \<Rightarrow> int)"
  op_createDirectory :: "string option \<Rightarrow> 's \<Rightarrow> int \<times> 's"
  op_deleteDirectory :: "string option \<Rightarrow> 's \<Rightarrow> int \<times> 's"
  op_rename :: "string option \<Rightarrow> string option \<Rightarrow> 's \<Rightarrow> int \<times> 's"
  op_copyFile :: "string option \<Rightarrow> string option \<Rightarrow> 's \<Rightarrow> int \<times> 's"
  op_moveFile :: "string option \<Rightarrow> string option \<Rightarrow> 's \<Rightarrow> int \<times> 's"
  op_deleteFile :: "string option \<Rightarrow> 's \<Rightarrow> int \<times> 's"
  op_getFileSize :: "string option \<Rightarrow> 's \<Rightarrow> int"
  op_getDirFileList :: "string option \<Rightarrow> file_info_t list \<Rightarrow> 's \<Rightarrow> int \<times> file_info_t list"
  op_isFileExist :: "string option \<Rightarrow> 's \<Rightarrow> bool"
  op_isDirExist :: "string option \<Rightarrow> 's \<Rightarrow> bool"
  op_isDirectory :: "string option \<Rightarrow> 's \<Rightarrow> bool"
  op_setFileAttr :: "string option \<Rightarrow> u8 \<Rightarrow> byte list option \<Rightarrow> u32 \<Rightarrow> 's \<Rightarrow> int \<times> 's"
  op_getFileAttr :: "string option \<Rightarrow> u8 \<Rightarrow> byte list option \<Rightarrow> nat \<Rightarrow> 's \<Rightarrow> int \<times> byte list option"
  op_removeFileAttr :: "string option \<Rightarrow> u8 \<Rightarrow> 's \<Rightarrow> int \<times> 's"
  op_getFileMeta :: "string option \<Rightarrow> file_info_t \<Rightarrow> 's \<Rightarrow> int \<times> file_info_t"
  op_setFilePermissions :: "string option \<Rightarrow> u16 \<Rightarrow> 's \<Rightarrow> int \<times> 's"
  op_setFileOwner :: "string option \<Rightarrow> u16 \<Rightarrow> u16 \<Rightarrow> 's \<Rightarrow> int \<times> 's"
  op_touch :: "string option \<Rightarrow> 's \<Rightarrow> int \<times> 's"

section \<open>The mount table\<close>

datatype vfs_type_t = VFS_TYPE_UNKNOWN | VFS_TYPE_LITTLEFS | VFS_TYPE_SPIFFS | VFS_TYPE_SD | VFS_TYPE_TMPFS
  | VFS_TYPE_PROCFS | VFS_TYPE_SYSFS | VFS_TYPE_DEVFS

record vfs_mount_t =
  m_prefix :: string
  m_name :: string
  m_backend :: nat
  m_vtype :: vfs_type_t

record 's vfs =
  m_mounts :: "vfs_mount_t list"
  m_priv_depth :: u8
  m_state :: "nat \<Rightarrow> 's"

abbreviation (input) "VFS_MAX_MOUNTS \<equiv> (5 :: nat)"
abbreviation (input) "VFS_MOUNT_PREFIX_MAX \<equiv> (15 :: nat)"
abbreviation (input) "VFS_MOUNT_NAME_MAX \<equiv> (11 :: nat)"
abbreviation (input) "VFS_ACCESS_R \<equiv> (4 :: u8)"
abbreviation (input) "VFS_ACCESS_W \<equiv> (2 :: u8)"

definition mount :: "string option \<Rightarrow> nat option \<Rightarrow> string option \<Rightarrow> vfs_type_t \<Rightarrow> 's vfs \<Rightarrow> int \<times> 's vfs" where
  "mount pre backend name type v =
     (case (pre, backend) of
        (Some p, Some b) \<Rightarrow>
          if length (m_mounts v) \<ge> VFS_MAX_MOUNTS then (-1, v)
          else if length p = 0 \<or> length p > VFS_MOUNT_PREFIX_MAX then (-1, v)
          else if \<exists>m \<in> set (m_mounts v). m_prefix m = p then (-1, v)
          else (0, v\<lparr>m_mounts := m_mounts v @ [\<lparr>m_prefix = p,
                 m_name = (case name of None \<Rightarrow> [] | Some s \<Rightarrow> take VFS_MOUNT_NAME_MAX s), m_backend = b, m_vtype = type\<rparr>]\<rparr>)
      | _ \<Rightarrow> (-1, v))"

text \<open>Whether \<open>path\<close> is the mount point or continues it with a separator.\<close>

definition at_boundary :: "string \<Rightarrow> string \<Rightarrow> bool" where
  "at_boundary pre path \<longleftrightarrow> take (length pre) path = pre \<and> (length path = length pre \<or> path ! length pre = slash)"

fun best_mount :: "string \<Rightarrow> vfs_mount_t list \<Rightarrow> vfs_mount_t option \<times> nat \<Rightarrow> vfs_mount_t option \<times> nat" where
  "best_mount path [] best = best"
| "best_mount path (m # ms) (best, best_len) =
     best_mount path ms
       (let plen = length (m_prefix m) in
        if plen = 0 then (best, best_len)
        else if m_prefix m = [slash] then (if best_len = 0 then (Some m, 1) else (best, best_len))
        else if \<not> at_boundary (m_prefix m) path then (best, best_len)
        else if plen > best_len then (Some m, plen) else (best, best_len))"

fun rootBackend :: "vfs_mount_t list \<Rightarrow> nat option" where
  "rootBackend [] = None"
| "rootBackend (m # ms) = (if m_prefix m = [slash] then Some (m_backend m) else rootBackend ms)"

definition resolve :: "'s vfs \<Rightarrow> string option \<Rightarrow> nat option \<times> string option" where
  "resolve v path =
     (case path of
        None \<Rightarrow> (rootBackend (m_mounts v), None)
      | Some p \<Rightarrow>
          (case best_mount p (m_mounts v) (None, 0) of
             (None, _) \<Rightarrow> (None, Some p)
           | (Some m, best_len) \<Rightarrow>
               (Some (m_backend m),
                Some (if m_prefix m = [slash] then p
                      else let suffix = drop best_len p in if suffix = [] then [slash] else suffix))))"

definition findMountForPath :: "'s vfs \<Rightarrow> string option \<Rightarrow> vfs_mount_t option" where
  "findMountForPath v path = (case path of None \<Rightarrow> None | Some p \<Rightarrow> fst (best_mount p (m_mounts v) (None, 0)))"

fun init_loop :: "(nat \<Rightarrow> 's fs_ops) \<Rightarrow> vfs_mount_t list \<Rightarrow> int \<Rightarrow> (nat \<Rightarrow> 's) \<Rightarrow> int \<times> (nat \<Rightarrow> 's)" where
  "init_loop B [] rc st = (rc, st)"
| "init_loop B (m # ms) rc st =
     (let b = m_backend m; (r, s) = op_init (B b) (st b) in init_loop B ms (if r \<noteq> 0 \<and> rc = 0 then r else rc) (st(b := s)))"

definition vfs_init :: "(nat \<Rightarrow> 's fs_ops) \<Rightarrow> 's vfs \<Rightarrow> int \<times> 's vfs" where
  "vfs_init B v = (let (rc, st) = init_loop B (m_mounts v) 0 (m_state v) in (rc, v\<lparr>m_state := st\<rparr>))"

section \<open>Access checks\<close>

definition beginPrivileged :: "'s vfs \<Rightarrow> 's vfs" where
  "beginPrivileged v = v\<lparr>m_priv_depth := m_priv_depth v + 1\<rparr>"

definition endPrivileged :: "'s vfs \<Rightarrow> 's vfs" where
  "endPrivileged v = (if m_priv_depth v > 0 then v\<lparr>m_priv_depth := m_priv_depth v - 1\<rparr> else v)"

definition isPrivileged :: "'s vfs \<Rightarrow> bool" where
  "isPrivileged v = (m_priv_depth v > 0)"

record identity =
  cur_uid :: u16
  cur_gid :: u16

text \<open>Dispatch of a call that changes the backend, and of one that only reads it.\<close>

definition route :: "(nat \<Rightarrow> 's fs_ops) \<Rightarrow> string option \<Rightarrow> 's vfs \<Rightarrow> ('s fs_ops \<Rightarrow> string option \<Rightarrow> 's \<Rightarrow> int \<times> 's) \<Rightarrow> int \<times> 's vfs" where
  "route B path v f =
     (case resolve v path of
        (None, rel) \<Rightarrow> (-1, v)
      | (Some b, rel) \<Rightarrow> (let (r, s) = f (B b) rel (m_state v b) in (r, v\<lparr>m_state := (m_state v)(b := s)\<rparr>)))"

definition query :: "(nat \<Rightarrow> 's fs_ops) \<Rightarrow> string option \<Rightarrow> 's vfs \<Rightarrow> 'r \<Rightarrow> ('s fs_ops \<Rightarrow> string option \<Rightarrow> 's \<Rightarrow> 'r) \<Rightarrow> 'r" where
  "query B path v fail f =
     (case resolve v path of (None, rel) \<Rightarrow> fail | (Some b, rel) \<Rightarrow> f (B b) rel (m_state v b))"

definition vfs_getFileMeta :: "(nat \<Rightarrow> 's fs_ops) \<Rightarrow> string option \<Rightarrow> file_info_t \<Rightarrow> 's vfs \<Rightarrow> int \<times> file_info_t" where
  "vfs_getFileMeta B path out v = query B path v (-1, out) (\<lambda>b rel. op_getFileMeta b rel out)"

definition checkRoot :: "identity \<Rightarrow> 's vfs \<Rightarrow> bool" where
  "checkRoot I v = (isPrivileged v \<or> cur_uid I = 0)"

text \<open>The local the metadata call fills in; its fields are unspecified when the call fails.\<close>

definition blank_info :: file_info_t where
  "blank_info = \<lparr>fi_type = FILE_TYPE_REG, fi_size = 0, fi_name = [], fi_perms = 0, fi_uid = 0, fi_gid = 0, fi_ctime = 0, fi_mtime = 0\<rparr>"

definition checkAccess :: "(nat \<Rightarrow> 's fs_ops) \<Rightarrow> identity \<Rightarrow> string option \<Rightarrow> u8 \<Rightarrow> 's vfs \<Rightarrow> bool" where
  "checkAccess B I path need_mask v =
     (if isPrivileged v then True
      else if cur_uid I = 0 then True
      else
        (let (rc, meta) = vfs_getFileMeta B path blank_info v in
         if rc \<noteq> 0 then True
         else
           (let bits = (if fi_uid meta = cur_uid I then ucast (drop_bit 6 (fi_perms meta) AND 7)
                        else if fi_gid meta = cur_gid I then ucast (drop_bit 3 (fi_perms meta) AND 7)
                        else ucast (fi_perms meta AND 7)) :: u8
            in (bits AND need_mask) = need_mask)))"

definition checkOwnerOrRoot :: "(nat \<Rightarrow> 's fs_ops) \<Rightarrow> identity \<Rightarrow> string option \<Rightarrow> 's vfs \<Rightarrow> bool" where
  "checkOwnerOrRoot B I path v =
     (if isPrivileged v then True
      else if cur_uid I = 0 then True
      else (let (rc, meta) = vfs_getFileMeta B path blank_info v in if rc \<noteq> 0 then True else fi_uid meta = cur_uid I))"

section \<open>Routed operations\<close>

definition vfs_createFile where
  "vfs_createFile B path content sz v = route B path v (\<lambda>b rel. op_createFile b rel content sz)"

definition vfs_editFile :: "(nat \<Rightarrow> 's fs_ops) \<Rightarrow> identity \<Rightarrow> string option \<Rightarrow> u64 \<Rightarrow> string option \<Rightarrow> u32 \<Rightarrow> 's vfs \<Rightarrow> (int \<times> 's vfs) option" where
  "vfs_editFile B I path offset content n v =
     (if \<not> checkAccess B I path VFS_ACCESS_W v then Some (-1, v)
      else
        (case resolve v path of
           (None, rel) \<Rightarrow> Some (-1, v)
         | (Some b, rel) \<Rightarrow>
             map_option (\<lambda>(r, s). (r, v\<lparr>m_state := (m_state v)(b := s)\<rparr>)) (op_editFile (B b) rel offset content n (m_state v b))))"

definition vfs_writeFile where
  "vfs_writeFile B I path content n app v =
     (if \<not> checkAccess B I path VFS_ACCESS_W v then (-1, v)
      else route B path v (\<lambda>b rel. op_writeFile b rel content n app))"

text \<open>Offering the chunks of a read to a callback with a state of its own: how many it accepted, and its state.\<close>

fun feed :: "('c \<Rightarrow> string \<Rightarrow> bool \<times> 'c) \<Rightarrow> string list \<Rightarrow> nat \<Rightarrow> 'c \<Rightarrow> nat \<times> 'c" where
  "feed fn [] k c = (k, c)"
| "feed fn (x # xs) k c = (let (ok, c) = fn c x in if ok then feed fn xs (Suc k) c else (k, c))"

definition vfs_readFile :: "(nat \<Rightarrow> 's fs_ops) \<Rightarrow> identity \<Rightarrow> string option \<Rightarrow> nat \<Rightarrow> ('c \<Rightarrow> string \<Rightarrow> bool \<times> 'c) \<Rightarrow> nat \<Rightarrow> 's vfs \<Rightarrow> 'c \<Rightarrow> int \<times> 'c" where
  "vfs_readFile B I path sz fn offset v c =
     (if \<not> checkAccess B I path VFS_ACCESS_R v then (-1, c)
      else query B path v (-1, c)
             (\<lambda>b rel s. let (chunks, ret) = op_readFile b rel sz offset s; (k, c) = feed fn chunks 0 c in (ret k, c)))"

definition vfs_createDirectory where
  "vfs_createDirectory B path v = route B path v (\<lambda>b rel. op_createDirectory b rel)"

definition vfs_deleteDirectory where
  "vfs_deleteDirectory B I path v =
     (if \<not> checkAccess B I path VFS_ACCESS_W v then (-1, v) else route B path v (\<lambda>b rel. op_deleteDirectory b rel))"

definition vfs_deleteFile where
  "vfs_deleteFile B I path v =
     (if \<not> checkAccess B I path VFS_ACCESS_W v then (-1, v) else route B path v (\<lambda>b rel. op_deleteFile b rel))"

definition vfs_getFileSize where
  "vfs_getFileSize B path v = query B path v (-1) (\<lambda>b rel. op_getFileSize b rel)"

definition vfs_getDirFileList where
  "vfs_getDirFileList B I path items v =
     (if \<not> checkAccess B I path VFS_ACCESS_R v then (-1, items)
      else query B path v (-1, items) (\<lambda>b rel. op_getDirFileList b rel items))"

definition vfs_isFileExist where
  "vfs_isFileExist B path v = query B path v False (\<lambda>b rel. op_isFileExist b rel)"

definition vfs_isDirExist where
  "vfs_isDirExist B path v = query B path v False (\<lambda>b rel. op_isDirExist b rel)"

definition vfs_isDirectory where
  "vfs_isDirectory B path v = query B path v False (\<lambda>b rel. op_isDirectory b rel)"

definition vfs_setFileAttr where
  "vfs_setFileAttr B I path type buf sz v =
     (if \<not> checkOwnerOrRoot B I path v then (-1, v) else route B path v (\<lambda>b rel. op_setFileAttr b rel type buf sz))"

definition vfs_getFileAttr where
  "vfs_getFileAttr B path type buf sz v = query B path v (-1, buf) (\<lambda>b rel. op_getFileAttr b rel type buf sz)"

definition vfs_removeFileAttr where
  "vfs_removeFileAttr B I path type v =
     (if \<not> checkOwnerOrRoot B I path v then (-1, v) else route B path v (\<lambda>b rel. op_removeFileAttr b rel type))"

definition vfs_setFilePermissions where
  "vfs_setFilePermissions B I path perms v =
     (if \<not> checkOwnerOrRoot B I path v then (-1, v) else route B path v (\<lambda>b rel. op_setFilePermissions b rel perms))"

definition vfs_setFileOwner where
  "vfs_setFileOwner B I path uid gid v =
     (if \<not> checkRoot I v then (-1, v) else route B path v (\<lambda>b rel. op_setFileOwner b rel uid gid))"

definition vfs_touch where
  "vfs_touch B I path v =
     (if \<not> checkAccess B I path VFS_ACCESS_W v then (-1, v) else route B path v (\<lambda>b rel. op_touch b rel))"

section \<open>Operations on two paths\<close>

text \<open>The callback of the streaming copy: the state is (first, ok, destination).\<close>

definition copy_chunk :: "'t fs_ops \<Rightarrow> string option \<Rightarrow> bool \<times> bool \<times> 't \<Rightarrow> string \<Rightarrow> bool \<times> bool \<times> bool \<times> 't" where
  "copy_chunk db drel st data =
     (let (first, ok, t) = st; (w, t) = op_writeFile db drel (Some data) (of_nat (length data)) (\<not> first) t
      in if w < 0 then (False, False, False, t) else (True, False, ok, t))"

definition crossCopy :: "'s fs_ops \<Rightarrow> 't fs_ops \<Rightarrow> string option \<Rightarrow> string option \<Rightarrow> 's \<Rightarrow> 't \<Rightarrow> int \<times> 't" where
  "crossCopy sb db srel drel s t =
     (if \<not> op_isFileExist sb srel s \<or> op_isDirectory sb srel s then (-1, t)
      else if op_isFileExist db drel t \<or> op_isDirExist db drel t then (-1, t)
      else
        (let (chunks, ret) = op_readFile sb srel 128 0 s;
             (k, first, ok, t) = feed (copy_chunk db drel) chunks 0 (True, True, t) in
         if ret k < 0 \<or> \<not> ok then (-1, snd (op_deleteFile db drel t))
         else if first then (let (c, t) = op_createFile db drel (Some []) 0 t in (if c < 0 then -1 else 0, t))
         else (0, t)))"

definition vfs_crossCopy :: "(nat \<Rightarrow> 's fs_ops) \<Rightarrow> nat \<Rightarrow> string option \<Rightarrow> nat \<Rightarrow> string option \<Rightarrow> 's vfs \<Rightarrow> int \<times> 's vfs" where
  "vfs_crossCopy B sb srel db drel v =
     (let (r, t) = crossCopy (B sb) (B db) srel drel (m_state v sb) (m_state v db) in (r, v\<lparr>m_state := (m_state v)(db := t)\<rparr>))"

definition on_backend :: "(nat \<Rightarrow> 's fs_ops) \<Rightarrow> nat \<Rightarrow> 's vfs \<Rightarrow> ('s fs_ops \<Rightarrow> 's \<Rightarrow> int \<times> 's) \<Rightarrow> int \<times> 's vfs" where
  "on_backend B b v f = (let (r, s) = f (B b) (m_state v b) in (r, v\<lparr>m_state := (m_state v)(b := s)\<rparr>))"

definition vfs_rename :: "(nat \<Rightarrow> 's fs_ops) \<Rightarrow> string option \<Rightarrow> string option \<Rightarrow> 's vfs \<Rightarrow> int \<times> 's vfs" where
  "vfs_rename B oldPath newPath v =
     (case (resolve v oldPath, resolve v newPath) of
        ((Some ob, orel), (Some nb, nrel)) \<Rightarrow>
          if ob = nb then on_backend B ob v (\<lambda>b. op_rename b orel nrel)
          else (let (r, v) = vfs_crossCopy B ob orel nb nrel v in
                if r < 0 then (-1, v) else on_backend B ob v (\<lambda>b. op_deleteFile b orel))
      | _ \<Rightarrow> (-1, v))"

definition vfs_copyFile :: "(nat \<Rightarrow> 's fs_ops) \<Rightarrow> string option \<Rightarrow> string option \<Rightarrow> 's vfs \<Rightarrow> int \<times> 's vfs" where
  "vfs_copyFile B sourcePath destPath v =
     (case (resolve v sourcePath, resolve v destPath) of
        ((Some sb, srel), (Some db, drel)) \<Rightarrow>
          if sb = db then on_backend B sb v (\<lambda>b. op_copyFile b srel drel) else vfs_crossCopy B sb srel db drel v
      | _ \<Rightarrow> (-1, v))"

definition vfs_moveFile :: "(nat \<Rightarrow> 's fs_ops) \<Rightarrow> string option \<Rightarrow> string option \<Rightarrow> 's vfs \<Rightarrow> int \<times> 's vfs" where
  "vfs_moveFile B oldPath newPath v =
     (case (resolve v oldPath, resolve v newPath) of
        ((Some ob, orel), (Some nb, nrel)) \<Rightarrow>
          if ob = nb then on_backend B ob v (\<lambda>b. op_moveFile b orel nrel)
          else (let (r, v) = vfs_crossCopy B ob orel nb nrel v in
                if r < 0 then (-1, v) else on_backend B ob v (\<lambda>b. op_deleteFile b orel))
      | _ \<Rightarrow> (-1, v))"

section \<open>Line-oriented reads and what is delegated to the root file system\<close>

text \<open>The yield callbacks of the line helpers are left out.\<close>

record 's line_ops =
  op_getOffsetFromLineNumber :: "string option \<Rightarrow> int \<Rightarrow> 's \<Rightarrow> int"
  op_getLineNumberFromOffset :: "string option \<Rightarrow> int \<Rightarrow> 's \<Rightarrow> int"
  op_findInFile :: "string option \<Rightarrow> string option \<Rightarrow> u32 list option \<Rightarrow> int \<Rightarrow> int \<Rightarrow> int \<Rightarrow> 's \<Rightarrow> int \<times> u32 list option"
  op_getLineNumbersInFile :: "string option \<Rightarrow> u32 list \<Rightarrow> int \<Rightarrow> int \<Rightarrow> 's \<Rightarrow> int \<times> u32 list"
  op_readLineInFile :: "string option \<Rightarrow> int \<Rightarrow> string \<Rightarrow> string option \<Rightarrow> 's \<Rightarrow> int \<times> string"

definition line_query :: "(nat \<Rightarrow> 's fs_ops) \<Rightarrow> (nat \<Rightarrow> 's line_ops) \<Rightarrow> identity \<Rightarrow> string option \<Rightarrow> 's vfs \<Rightarrow> 'r \<Rightarrow> ('s line_ops \<Rightarrow> string option \<Rightarrow> 's \<Rightarrow> 'r) \<Rightarrow> 'r" where
  "line_query B L I path v fail f =
     (if \<not> checkAccess B I path VFS_ACCESS_R v then fail
      else case resolve v path of (None, rel) \<Rightarrow> fail | (Some b, rel) \<Rightarrow> f (L b) rel (m_state v b))"

definition vfs_getOffsetFromLineNumber where
  "vfs_getOffsetFromLineNumber B L I path n v = line_query B L I path v (-1) (\<lambda>b rel. op_getOffsetFromLineNumber b rel n)"

definition vfs_getLineNumberFromOffset where
  "vfs_getLineNumberFromOffset B L I path off v = line_query B L I path v (-1) (\<lambda>b rel. op_getLineNumberFromOffset b rel off)"

definition vfs_findInFile where
  "vfs_findInFile B L I path findStr idx maxi every off v =
     line_query B L I path v (-1, idx) (\<lambda>b rel. op_findInFile b rel findStr idx maxi every off)"

definition vfs_getLineNumbersInFile where
  "vfs_getLineNumbersInFile B L I path idx maxn off v =
     line_query B L I path v (-1, idx) (\<lambda>b rel. op_getLineNumbersInFile b rel idx maxn off)"

definition vfs_readLineInFile where
  "vfs_readLineInFile B L I path n line pattern v =
     line_query B L I path v (-1, line) (\<lambda>b rel. op_readLineInFile b rel n line pattern)"

record 's cwd_ops =
  op_getTotalSize :: "'s \<Rightarrow> u64"
  op_getUsedSize :: "'s \<Rightarrow> u64"
  op_getFreeSize :: "'s \<Rightarrow> u64"
  op_getPWD :: "'s \<Rightarrow> string"
  op_setPWD :: "string option \<Rightarrow> 's \<Rightarrow> bool \<times> 's"
  op_getLastPWD :: "'s \<Rightarrow> string"
  op_appendFileSeparator :: "string \<Rightarrow> 's \<Rightarrow> string"
  op_updatePathNotations :: "string option \<Rightarrow> string \<Rightarrow> 's \<Rightarrow> bool \<times> string"
  op_changeDirectory :: "string option \<Rightarrow> 's \<Rightarrow> bool \<times> 's"
  op_getRootDirectory :: "'s \<Rightarrow> string"
  op_getHomeDirectory :: "'s \<Rightarrow> string"
  op_getTempDirectory :: "'s \<Rightarrow> string"
  op_setHomeDirectory :: "string \<Rightarrow> 's \<Rightarrow> bool \<times> 's"
  op_basename :: "string option \<Rightarrow> 's \<Rightarrow> string"
  op_applyFileSizeLimit :: "string \<Rightarrow> u32 \<Rightarrow> 's \<Rightarrow> string"

definition on_root :: "(nat \<Rightarrow> 's cwd_ops) \<Rightarrow> 's vfs \<Rightarrow> 'r \<Rightarrow> ('s cwd_ops \<Rightarrow> 's \<Rightarrow> 'r) \<Rightarrow> 'r" where
  "on_root C v none f = (case rootBackend (m_mounts v) of None \<Rightarrow> none | Some b \<Rightarrow> f (C b) (m_state v b))"

definition change_root :: "(nat \<Rightarrow> 's cwd_ops) \<Rightarrow> 's vfs \<Rightarrow> ('s cwd_ops \<Rightarrow> 's \<Rightarrow> bool \<times> 's) \<Rightarrow> bool \<times> 's vfs" where
  "change_root C v f =
     (case rootBackend (m_mounts v) of
        None \<Rightarrow> (False, v)
      | Some b \<Rightarrow> (let (r, s) = f (C b) (m_state v b) in (r, v\<lparr>m_state := (m_state v)(b := s)\<rparr>)))"

definition vfs_getTotalSize where "vfs_getTotalSize C v = on_root C v 0 op_getTotalSize"

definition vfs_getUsedSize where "vfs_getUsedSize C v = on_root C v 0 op_getUsedSize"

definition vfs_getFreeSize where "vfs_getFreeSize C v = on_root C v 0 op_getFreeSize"

definition vfs_getPWD where "vfs_getPWD C v = on_root C v [] op_getPWD"

definition vfs_setPWD where "vfs_setPWD C path v = change_root C v (\<lambda>b. op_setPWD b path)"

definition vfs_getLastPWD where "vfs_getLastPWD C v = on_root C v [] op_getLastPWD"

definition vfs_appendFileSeparator where
  "vfs_appendFileSeparator C path v = on_root C v path (\<lambda>b. op_appendFileSeparator b path)"

definition vfs_updatePathNotations where
  "vfs_updatePathNotations C path updated v = on_root C v (False, updated) (\<lambda>b. op_updatePathNotations b path updated)"

definition vfs_changeDirectory where "vfs_changeDirectory C path v = change_root C v (\<lambda>b. op_changeDirectory b path)"

definition vfs_getRootDirectory where "vfs_getRootDirectory C v = on_root C v [slash] op_getRootDirectory"

definition vfs_getHomeDirectory where "vfs_getHomeDirectory C v = on_root C v [slash] op_getHomeDirectory"

definition vfs_getTempDirectory where "vfs_getTempDirectory C v = on_root C v [slash] op_getTempDirectory"

definition vfs_setHomeDirectory where "vfs_setHomeDirectory C home v = change_root C v (\<lambda>b. op_setHomeDirectory b home)"

definition vfs_basename where "vfs_basename C path v = on_root C v [] (\<lambda>b. op_basename b path)"

definition vfs_applyFileSizeLimit where
  "vfs_applyFileSizeLimit C name limit v = on_root C v name (\<lambda>b. op_applyFileSizeLimit b name limit)"

section \<open>Longest mount\<close>

definition covers :: "vfs_mount_t \<Rightarrow> string \<Rightarrow> bool" where
  "covers m path \<longleftrightarrow> m_prefix m \<noteq> [] \<and> (m_prefix m = [slash] \<or> at_boundary (m_prefix m) path)"

text \<open>Mount prefixes that are absolute, as in all mount calls of the program.\<close>

definition absolute_mounts :: "vfs_mount_t list \<Rightarrow> bool" where
  "absolute_mounts ms \<longleftrightarrow> distinct (map m_prefix ms) \<and> (\<forall>m \<in> set ms. m_prefix m \<noteq> [] \<and> hd (m_prefix m) = slash)"

definition vfs_wf :: "'s vfs \<Rightarrow> bool" where
  "vfs_wf v \<longleftrightarrow> length (m_mounts v) \<le> VFS_MAX_MOUNTS \<and> distinct (map m_prefix (m_mounts v)) \<and>
     (\<forall>m \<in> set (m_mounts v). 0 < length (m_prefix m) \<and> length (m_prefix m) \<le> VFS_MOUNT_PREFIX_MAX \<and> length (m_name m) \<le> VFS_MOUNT_NAME_MAX)"

lemma mount_wf: "vfs_wf v \<Longrightarrow> vfs_wf (snd (mount pre backend name type v))"
  by (auto simp: mount_def vfs_wf_def split: option.split)

lemma absolute_one: "hd p = slash \<Longrightarrow> p \<noteq> [] \<Longrightarrow> length p \<le> 1 \<Longrightarrow> p = [slash]"
  by (cases p) auto

text \<open>The loop keeps the longest covering mount seen so far.\<close>

lemma best_mount_inv:
  assumes "\<forall>m \<in> set ms. m_prefix m \<noteq> [] \<and> hd (m_prefix m) = slash"
    and "case b of None \<Rightarrow> bl = 0 | Some m0 \<Rightarrow> covers m0 path \<and> bl = length (m_prefix m0) \<and> 0 < bl"
    and "best_mount path ms (b, bl) = (b', bl')"
  shows "(case b' of None \<Rightarrow> b = None \<and> bl' = 0 \<and> (\<forall>m \<in> set ms. \<not> covers m path)
    | Some m' \<Rightarrow> covers m' path \<and> bl' = length (m_prefix m') \<and> bl \<le> bl' \<and> (Some m' = b \<or> m' \<in> set ms) \<and>
        (\<forall>m \<in> set ms. covers m path \<longrightarrow> length (m_prefix m) \<le> length (m_prefix m')))"
  using assms
proof (induction ms arbitrary: b bl)
  case Nil
  then show ?case by (auto split: option.splits)
next
  case (Cons m ms)
  define nx where "nx = (if m_prefix m = [slash] then (if bl = 0 then (Some m, 1) else (b, bl))
      else if \<not> at_boundary (m_prefix m) path then (b, bl) else if length (m_prefix m) > bl then (Some m, length (m_prefix m)) else (b, bl))"
  obtain b1 bl1 where nx: "nx = (b1, bl1)" by fastforce
  have m: "m_prefix m \<noteq> []" using Cons.prems(1) by simp
  have step: "best_mount path ms (b1, bl1) = (b', bl')"
    using Cons.prems(3) m nx by (simp add: nx_def Let_def)
  have inv1: "case b1 of None \<Rightarrow> bl1 = 0 | Some m0 \<Rightarrow> covers m0 path \<and> bl1 = length (m_prefix m0) \<and> 0 < bl1"
    using Cons.prems(2) m nx unfolding nx_def by (auto simp: covers_def split: if_splits option.splits)
  have mono: "bl \<le> bl1" "covers m path \<Longrightarrow> length (m_prefix m) \<le> bl1" "b1 = b \<or> b1 = Some m" "covers m path \<Longrightarrow> b1 \<noteq> None"
    using Cons.prems(2) m nx unfolding nx_def by (auto simp: covers_def Suc_le_eq split: if_splits option.splits)
  have nn: "b \<noteq> None \<Longrightarrow> b1 \<noteq> None" using mono(3) by auto
  show ?case
    using Cons.IH [OF _ inv1 step] Cons.prems(1) mono nn by (auto split: option.splits)
qed

lemma covers_same_length:
  assumes "absolute_mounts ms" and "m \<in> set ms" "m' \<in> set ms" and "covers m path" "covers m' path"
    and "length (m_prefix m) = length (m_prefix m')"
  shows "m = m'"
proof -
  have ne: "m_prefix m \<noteq> []" "m_prefix m' \<noteq> []" "hd (m_prefix m) = slash" "hd (m_prefix m') = slash"
    using assms(1-3) by (auto simp: absolute_mounts_def)
  have "m_prefix m = m_prefix m'"
  proof (cases "length (m_prefix m) \<le> 1")
    case True
    then show ?thesis using ne assms(6) absolute_one by metis
  next
    case False
    then have "m_prefix m \<noteq> [slash]" "m_prefix m' \<noteq> [slash]" using assms(6) by auto
    then show ?thesis using assms(4-6) by (metis covers_def at_boundary_def)
  qed
  then show ?thesis using assms(1-3) by (auto simp: absolute_mounts_def distinct_map dest: inj_onD)
qed

lemma findMount_longest:
  assumes "absolute_mounts (m_mounts v)"
  shows "case findMountForPath v (Some path) of
      None \<Rightarrow> (\<forall>m \<in> set (m_mounts v). \<not> covers m path)
    | Some m \<Rightarrow> m \<in> set (m_mounts v) \<and> covers m path \<and>
        (\<forall>m' \<in> set (m_mounts v). covers m' path \<longrightarrow> m' \<noteq> m \<longrightarrow> length (m_prefix m') < length (m_prefix m))"
proof -
  obtain b bl where e: "best_mount path (m_mounts v) (None, 0) = (b, bl)" by fastforce
  have "\<forall>m \<in> set (m_mounts v). m_prefix m \<noteq> [] \<and> hd (m_prefix m) = slash" using assms by (simp add: absolute_mounts_def)
  note inv = best_mount_inv [OF this _ e]
  show ?thesis
  proof (cases b)
    case (Some m)
    then have m: "m \<in> set (m_mounts v)" "covers m path"
        "\<forall>m' \<in> set (m_mounts v). covers m' path \<longrightarrow> length (m_prefix m') \<le> length (m_prefix m)"
      using inv by auto
    have "length (m_prefix m') < length (m_prefix m)" if "m' \<in> set (m_mounts v)" "covers m' path" "m' \<noteq> m" for m'
      using covers_same_length [OF assms that(1) m(1) that(2) m(2)] m(3) that by (meson le_neq_implies_less)
    with m(1,2) Some e show ?thesis by (simp add: findMountForPath_def)
  qed (use inv e in \<open>simp add: findMountForPath_def\<close>)
qed

lemma resolve_findMount:
  assumes "absolute_mounts (m_mounts v)"
  shows "resolve v (Some path) =
    (case findMountForPath v (Some path) of
       None \<Rightarrow> (None, Some path)
     | Some m \<Rightarrow> (Some (m_backend m),
         Some (if m_prefix m = [slash] then path else if path = m_prefix m then [slash] else drop (length (m_prefix m)) path)))"
proof -
  obtain b bl where e: "best_mount path (m_mounts v) (None, 0) = (b, bl)" by fastforce
  have "\<forall>m \<in> set (m_mounts v). m_prefix m \<noteq> [] \<and> hd (m_prefix m) = slash" using assms by (simp add: absolute_mounts_def)
  note inv = best_mount_inv [OF this _ e]
  show ?thesis
  proof (cases b)
    case (Some m)
    then have c: "covers m path" "bl = length (m_prefix m)" using inv by auto
    have "drop bl path = [] \<longleftrightarrow> path = m_prefix m" if "m_prefix m \<noteq> [slash]"
      using that c by (auto simp: covers_def at_boundary_def)
    then show ?thesis using e Some c(2) by (simp add: resolve_def findMountForPath_def Let_def)
  qed (use e in \<open>simp add: resolve_def findMountForPath_def\<close>)
qed

section \<open>The contract of a file store\<close>

text \<open>
  What a client may rely on: a store keeps file contents under the key of a path; reading offers the content
  in chunks, writing and deleting change that one file. Chunks of a streaming copy have at most 128 bytes.
\<close>

locale file_store =
  fixes ops :: "'s fs_ops"
    and inv :: "'s \<Rightarrow> bool"
    and contents :: "'s \<Rightarrow> string \<Rightarrow> string option"
    and key :: "string option \<Rightarrow> string"
  assumes exist_law: "inv s \<Longrightarrow> op_isFileExist ops p s \<longleftrightarrow> contents s (key p) \<noteq> None"
    and read_law: "inv s \<Longrightarrow> contents s (key p) = Some d \<Longrightarrow> op_readFile ops p 128 0 s = (chunks, ret) \<Longrightarrow>
      concat chunks = d \<and> (\<forall>c \<in> set chunks. c \<noteq> [] \<and> length c \<le> 128) \<and> 0 \<le> ret (length chunks)"
    and write_law: "inv s \<Longrightarrow> length c \<le> 128 \<Longrightarrow> op_writeFile ops p (Some c) (of_nat (length c)) app s = (r, s') \<Longrightarrow>
      inv s' \<and> contents s' = (if 0 \<le> r then (contents s)(key p \<mapsto>
        (case contents s (key p) of Some d \<Rightarrow> if app then d else [] | None \<Rightarrow> []) @ c) else contents s)"
    and delete_law: "inv s \<Longrightarrow> op_deleteFile ops p s = (r, s') \<Longrightarrow> inv s' \<and> contents s' = (contents s)(key p := None)"
    and create_law: "inv s \<Longrightarrow> contents s (key p) = None \<Longrightarrow> op_createFile ops p (Some []) 0 s = (r, s') \<Longrightarrow>
      inv s' \<and> contents s' = (if 0 \<le> r then (contents s)(key p \<mapsto> []) else contents s)"

text \<open>Two stores and the copy between them.\<close>

locale store_pair = src: file_store sb inv_s contents_s key_s + dst: file_store db inv_t contents_t key_t
  for sb :: "'s fs_ops" and inv_s contents_s key_s and db :: "'t fs_ops" and inv_t contents_t key_t
begin

lemma copy_feed:
  assumes "\<forall>c \<in> set chunks. length c \<le> 128" and "inv_t t"
    and "first \<longrightarrow> contents_t t (key_t p) = None" and "\<not> first \<longrightarrow> contents_t t (key_t p) = Some d" and "first \<longrightarrow> d = []"
    and "feed (copy_chunk db p) chunks k (first, True, t) = (k', first', ok', t')"
  shows "inv_t t' \<and> (ok' \<longrightarrow> k' = k + length chunks \<and> first' = (first \<and> chunks = []) \<and>
      contents_t t' = (if first' then contents_t t else (contents_t t)(key_t p \<mapsto> d @ concat chunks))) \<and>
    (contents_t t')(key_t p := None) = (contents_t t)(key_t p := None)"
  using assms
proof (induction chunks arbitrary: k first t d)
  case Nil
  then show ?case by (auto simp: fun_upd_idem)
next
  case (Cons c cs)
  obtain w t1 where w: "op_writeFile db p (Some c) (of_nat (length c)) (\<not> first) t = (w, t1)" by fastforce
  have cc: "copy_chunk db p (first, True, t) c = (if w < 0 then (False, False, False, t1) else (True, False, True, t1))"
    by (simp add: copy_chunk_def w)
  have law: "inv_t t1" "contents_t t1 = (if 0 \<le> w then (contents_t t)(key_t p \<mapsto> d @ c) else contents_t t)"
    using dst.write_law [OF Cons.prems(2) _ w] Cons.prems by auto
  show ?case
  proof (cases "w < 0")
    case True
    then show ?thesis using Cons.prems(6) law by (auto simp: cc)
  next
    case False
    then have f: "feed (copy_chunk db p) cs (Suc k) (False, True, t1) = (k', first', ok', t')"
      using Cons.prems(6) by (simp add: cc)
    have t1: "contents_t t1 = (contents_t t)(key_t p \<mapsto> d @ c)" using law(2) False by simp
    show ?thesis
      using Cons.IH [OF _ law(1) _ _ _ f, of "d @ c"] Cons.prems(1) t1 by auto
  qed
qed

lemma copy_correct:
  assumes "inv_s s" and "inv_t t" and "crossCopy sb db sp dp s t = (r, t')"
  shows "inv_t t' \<and> (if r = 0 then contents_t t (key_t dp) = None \<and>
      (\<exists>d. contents_s s (key_s sp) = Some d \<and> contents_t t' = (contents_t t)(key_t dp \<mapsto> d))
    else r = -1 \<and> contents_t t' = contents_t t)"
proof (cases "op_isFileExist sb sp s \<and> \<not> op_isDirectory sb sp s \<and> \<not> op_isFileExist db dp t \<and> \<not> op_isDirExist db dp t")
  case True
  obtain chunks ret where rd: "op_readFile sb sp 128 0 s = (chunks, ret)" by fastforce
  obtain d where d: "contents_s s (key_s sp) = Some d" using True src.exist_law [OF assms(1)] by auto
  have none: "contents_t t (key_t dp) = None" using True dst.exist_law [OF assms(2)] by auto
  note law = src.read_law [OF assms(1) d rd]
  obtain k first ok t1 where f: "feed (copy_chunk db dp) chunks 0 (True, True, t) = (k, first, ok, t1)"
    using prod_cases4 by blast
  have fd: "inv_t t1" "ok \<Longrightarrow> k = length chunks \<and> first = (chunks = []) \<and>
      contents_t t1 = (if first then contents_t t else (contents_t t)(key_t dp \<mapsto> concat chunks))"
      "(contents_t t1)(key_t dp := None) = contents_t t"
    using copy_feed [OF _ assms(2) _ _ _ f, of "[]"] law none by (auto simp: fun_upd_idem)
  obtain rd' td where del: "op_deleteFile db dp t1 = (rd', td)" by fastforce
  obtain rc tc where crt: "op_createFile db dp (Some []) 0 t1 = (rc, tc)" by fastforce
  note dl = dst.delete_law [OF fd(1) del]
  show ?thesis
  proof (cases "ret k < 0 \<or> \<not> ok")
    case bad: True
    then show ?thesis using assms(3) True rd f del dl fd(3) by (auto simp: crossCopy_def)
  next
    case False
    note ok = fd(2) [OF conjunct2 [OF False [unfolded de_Morgan_disj not_not]]]
    show ?thesis
    proof (cases first)
      case True1: True
      then have "contents_t t1 = contents_t t" and "d = []" using ok law by auto
      then show ?thesis
        using dst.create_law [OF fd(1) _ crt] assms(3) True False rd f crt none d True1
        by (auto simp: crossCopy_def split: if_splits)
    next
      case False1: False
      then show ?thesis using assms(3) True False rd f ok law none d fd(1) by (auto simp: crossCopy_def)
    qed
  qed
next
  case False
  then have "crossCopy sb db sp dp s t = (-1, t)" unfolding crossCopy_def by (auto simp del: split_paired_All)
  then show ?thesis using assms by simp
qed

end

section \<open>TmpFs as a backend\<close>

function chunks_of :: "nat \<Rightarrow> string \<Rightarrow> string list" where
  "chunks_of n xs = (if xs = [] \<or> n = 0 then [] else take n xs # chunks_of n (drop n xs))"
  by pat_completeness auto
termination
  by (relation "measure (\<lambda>(n, xs). length xs)") auto

declare chunks_of.simps [simp del]

lemma chunks_of_Nil [simp]: "chunks_of n [] = []"
  by (simp add: chunks_of.simps)

definition tmpfs_read :: "string option \<Rightarrow> nat \<Rightarrow> nat \<Rightarrow> tmpfs \<Rightarrow> string list \<times> (nat \<Rightarrow> int)" where
  "tmpfs_read path sz offset ns =
     (case view ns (normalize path) of
        Some f \<Rightarrow>
          if path = None \<or> m_type f \<noteq> FILE_TYPE_REG then ([], \<lambda>k. -1)
          else (let total = length (m_data f) - offset; chunk = (if sz > 0 \<and> sz < total then sz else total);
                    cs = chunks_of chunk (drop offset (m_data f))
                in (cs, \<lambda>k. int (length (concat (take k cs)))))
      | None \<Rightarrow> ([], \<lambda>k. -1))"

definition tmpfs_ops :: "stamp \<Rightarrow> tmpfs fs_ops" where
  "tmpfs_ops E = \<lparr>op_init = Pair 0, op_createFile = createFile E, op_editFile = editFile E, op_writeFile = writeFile E,
     op_readFile = tmpfs_read, op_createDirectory = createDirectory E, op_deleteDirectory = deleteDirectory,
     op_rename = rename, op_copyFile = copyFile E, op_moveFile = moveFile, op_deleteFile = deleteFile,
     op_getFileSize = getFileSize, op_getDirFileList = getDirFileList, op_isFileExist = isFileExist,
     op_isDirExist = isDirExist, op_isDirectory = isDirectory, op_setFileAttr = setFileAttr, op_getFileAttr = getFileAttr,
     op_removeFileAttr = (\<lambda>p t. Pair (-1)), op_getFileMeta = getFileMeta, op_setFilePermissions = setFilePermissions,
     op_setFileOwner = setFileOwner, op_touch = touch E\<rparr>"

definition tmpfs_line_ops :: "tmpfs line_ops" where
  "tmpfs_line_ops = \<lparr>op_getOffsetFromLineNumber = (\<lambda>p n s. -1), op_getLineNumberFromOffset = (\<lambda>p off s. -1),
     op_findInFile = (\<lambda>p f idx maxi every off s. (-1, idx)), op_getLineNumbersInFile = (\<lambda>p idx maxn off s. (-1, idx)),
     op_readLineInFile = (\<lambda>p n line pattern s. (-1, line))\<rparr>"

definition tmpfs_cwd_ops :: "tmpfs cwd_ops" where
  "tmpfs_cwd_ops = \<lparr>op_getTotalSize = (\<lambda>s. 4096), op_getUsedSize = getUsedSize, op_getFreeSize = getFreeSize,
     op_getPWD = (\<lambda>s. ''/tmp''), op_setPWD = (\<lambda>p s. (False, s)), op_getLastPWD = (\<lambda>s. ''/tmp''),
     op_appendFileSeparator = (\<lambda>p s. p), op_updatePathNotations = (\<lambda>p u s. (False, u)), op_changeDirectory = (\<lambda>p s. (False, s)),
     op_getRootDirectory = (\<lambda>s. ''/tmp''), op_getHomeDirectory = (\<lambda>s. ''/tmp''), op_getTempDirectory = (\<lambda>s. ''/tmp''),
     op_setHomeDirectory = (\<lambda>h s. (False, s)), op_basename = (\<lambda>p s. basename p), op_applyFileSizeLimit = (\<lambda>n l s. n)\<rparr>"

text \<open>The chunk list is what the read loop offers its callback, and the code it returns.\<close>

lemma feed_shift: "feed fn xs (Suc k) c = (case feed fn xs k c of (j, c') \<Rightarrow> (Suc j, c'))"
  by (induction xs arbitrary: k c) (simp_all add: Let_def split: prod.split)

lemma read_loop_feed:
  assumes "0 < chunk"
  shows "read_loop fn chunk rest n c =
    (case feed fn (chunks_of chunk rest) 0 c of (k, c') \<Rightarrow> (n + length (concat (take k (chunks_of chunk rest))), c'))"
proof (induction rest arbitrary: n c rule: length_induct)
  case (1 rest)
  show ?case
  proof (cases "rest = []")
    case False
    obtain ok c1 where fn: "fn c (take chunk rest) = (ok, c1)" by fastforce
    have cs: "chunks_of chunk rest = take chunk rest # chunks_of chunk (drop chunk rest)"
      using False assms by (simp add: chunks_of.simps)
    have t: "take (min (length rest) chunk) rest = take chunk rest" "drop (min (length rest) chunk) rest = drop chunk rest"
      by (simp_all add: min_def)
    have "length (drop chunk rest) < length rest" using False assms by simp
    note IH = 1 [rule_format, OF this, of "n + min (length rest) chunk" c1]
    have "read_loop fn chunk rest n c =
        (if ok then read_loop fn chunk (drop chunk rest) (n + min (length rest) chunk) c1 else (n, c1))"
      using False assms by (subst read_loop.simps) (simp add: Let_def t fn)
    with IH fn cs show ?thesis by (simp add: feed_shift split: prod.split)
  qed (simp add: read_loop.simps chunks_of.simps)
qed

lemma readFile_feed:
  "readFile path sz fn offset ns c = (let (chunks, ret) = tmpfs_read path sz offset ns; (k, c') = feed fn chunks 0 c in (ret k, c'))"
proof (cases "view ns (normalize path)")
  case None
  then have "findNode ns (normalize path) = None" by (simp add: view_def)
  then show ?thesis by (simp add: readFile_def tmpfs_read_def None)
next
  case (Some f)
  then obtain i where i: "findNode ns (normalize path) = Some i" "ns ! i = f" by (auto simp: view_def)
  show ?thesis
  proof (cases "path = None \<or> m_type f \<noteq> FILE_TYPE_REG \<or> length (m_data f) \<le> offset")
    case True
    then show ?thesis by (auto simp: readFile_def tmpfs_read_def Some i Let_def)
  next
    case False
    define chunk where "chunk = (if sz > 0 \<and> sz < length (m_data f) - offset then sz else length (m_data f) - offset)"
    have "0 < chunk" using False by (auto simp: chunk_def)
    with False show ?thesis
      unfolding readFile_def tmpfs_read_def Some i option.case Let_def chunk_def [symmetric]
      by (simp add: read_loop_feed i(2) split: prod.split)
  qed
qed

lemma chunks_of_concat: "0 < n \<Longrightarrow> concat (chunks_of n xs) = xs"
proof (induction xs rule: length_induct)
  case (1 xs)
  then show ?case by (cases "xs = []") (simp_all add: chunks_of.simps [of n xs])
qed

lemma chunks_of_size: "c \<in> set (chunks_of n xs) \<Longrightarrow> c \<noteq> [] \<and> length c \<le> n"
proof (induction xs rule: length_induct)
  case (1 xs)
  show ?case
    using 1(1) [rule_format, of "drop n xs"] 1(2) by (cases "xs = [] \<or> n = 0") (auto simp: chunks_of.simps [of n xs])
qed

definition tmpfs_contents :: "tmpfs \<Rightarrow> string \<Rightarrow> string option" where
  "tmpfs_contents ns p = (case view ns p of Some f \<Rightarrow> if m_type f = FILE_TYPE_REG then Some (m_data f) else None | None \<Rightarrow> None)"

lemma tmpfs_exist: "isFileExist p ns \<longleftrightarrow> tmpfs_contents ns (normalize p) \<noteq> None"
  by (auto simp: isFileExist_def tmpfs_contents_def view_def split: option.split)

lemma view_root: "tmpfs_wf ns \<Longrightarrow> view ns [] = None"
  by (cases "view ns []") (auto simp: tmpfs_wf_def tree_def normal_def)

lemma tmpfs_read_law:
  assumes "tmpfs_wf ns" and "tmpfs_contents ns (normalize p) = Some d" and "tmpfs_read p 128 0 ns = (chunks, ret)"
  shows "concat chunks = d \<and> (\<forall>c \<in> set chunks. c \<noteq> [] \<and> length c \<le> 128) \<and> 0 \<le> ret (length chunks)"
proof -
  obtain f where f: "view ns (normalize p) = Some f" "m_type f = FILE_TYPE_REG" "m_data f = d"
    using assms(2) by (auto simp: tmpfs_contents_def split: option.splits if_splits)
  have "p \<noteq> None" using f(1) view_root [OF assms(1)] by (cases p) (simp_all add: normalize_def)
  define n where "n = (if 128 < length d then 128 else length d)"
  have c: "chunks = chunks_of n d" "ret = (\<lambda>k. int (length (concat (take k chunks))))"
    using assms(3) f \<open>p \<noteq> None\<close> by (auto simp: tmpfs_read_def Let_def n_def)
  have "concat chunks = d" using c(1) chunks_of_concat [of n d] by (cases "d = []") (simp_all add: n_def)
  moreover have "n \<le> 128" by (simp add: n_def)
  ultimately show ?thesis using c chunks_of_size [of _ n d] by fastforce
qed

lemma contents_put:
  "view ns' = (view ns)(p \<mapsto> f) \<Longrightarrow> m_type f = FILE_TYPE_REG \<Longrightarrow> tmpfs_contents ns' = (tmpfs_contents ns)(p \<mapsto> m_data f)"
  by (simp add: tmpfs_contents_def fun_eq_iff)

lemma tmpfs_write_law:
  assumes "tmpfs_wf ns" and "length c \<le> 128" and "writeFile E p (Some c) (of_nat (length c)) app ns = (r, ns')"
  shows "tmpfs_wf ns' \<and> tmpfs_contents ns' = (if 0 \<le> r then (tmpfs_contents ns)(normalize p \<mapsto>
      (case tmpfs_contents ns (normalize p) of Some d \<Rightarrow> if app then d else [] | None \<Rightarrow> []) @ c) else tmpfs_contents ns)"
proof -
  have n: "unat (of_nat (length c) :: u32) = length c" using assms(2) by (intro unat_of_nat_small) simp
  have wf: "tmpfs_wf ns'" using writeFile_wf [OF assms(1), of "of_nat (length c)" E p "Some c" app] assms(2,3) n by simp
  show ?thesis
  proof (cases "0 \<le> r")
    case True
    obtain f where f: "view ns' = (view ns)(normalize p \<mapsto> f)" "m_type f = FILE_TYPE_REG"
        "m_data f = (case view ns (normalize p) of None \<Rightarrow> [] | Some o1 \<Rightarrow> if app then m_data o1 else []) @ c"
      using writeFile_effect(2) [OF assms(1) n _ assms(3) True] n assms(2) by auto
    have "m_data f = (case tmpfs_contents ns (normalize p) of Some d \<Rightarrow> if app then d else [] | None \<Rightarrow> []) @ c"
      using f(3) assms(1) by (auto simp: tmpfs_contents_def tmpfs_wf_def tree_def split: option.splits)
    with wf True contents_put [OF f(1,2)] show ?thesis by simp
  next
    case False
    then have "ns' = ns" using writeFile_fail [OF _ assms(3)] n assms(2) by simp
    with wf False show ?thesis by simp
  qed
qed

lemma tmpfs_delete_law:
  assumes "tmpfs_wf ns" and "deleteFile p ns = (r, ns')"
  shows "tmpfs_wf ns' \<and> tmpfs_contents ns' = (tmpfs_contents ns)(normalize p := None)"
proof -
  have wf: "tmpfs_wf ns'" using deleteFile_wf [OF assms(1), of p] assms(2) by simp
  show ?thesis
  proof (cases "tmpfs_contents ns (normalize p)")
    case None
    then have "ns' = ns"
      using assms(2) by (auto simp: deleteFile_def tmpfs_contents_def view_def split: option.splits if_splits)
    with wf None show ?thesis by (simp add: fun_upd_idem)
  next
    case (Some d)
    then obtain i where i: "findNode ns (normalize p) = Some i" "m_type (ns ! i) = FILE_TYPE_REG"
      by (auto simp: tmpfs_contents_def view_def split: option.splits if_splits)
    then have "view ns' = (view ns)(normalize p := None)"
      using assms view_remove [OF _ i(1)] by (auto simp: deleteFile_def tmpfs_wf_def)
    with wf show ?thesis by (simp add: tmpfs_contents_def fun_eq_iff)
  qed
qed

lemma tmpfs_create_law:
  assumes "tmpfs_wf ns" and "tmpfs_contents ns (normalize p) = None" and "createFile E p (Some []) 0 ns = (r, ns')"
  shows "tmpfs_wf ns' \<and> tmpfs_contents ns' = (if 0 \<le> r then (tmpfs_contents ns)(normalize p \<mapsto> []) else tmpfs_contents ns)"
proof (cases "normalize p = [] \<or> findNode ns (normalize p) \<noteq> None")
  case True
  then have "createFile E p (Some []) 0 ns = (-1, ns)" by (auto simp: createFile_def Let_def)
  then show ?thesis using assms by simp
next
  case False
  then have "writeFile E p (Some []) (of_nat (length [])) False ns = (r, ns')"
    using assms(3) by (simp add: createFile_def writeFile_def Let_def)
  from tmpfs_write_law [OF assms(1) _ this] assms(2) show ?thesis by simp
qed

lemma tmpfs_ops_sel [simp]:
  "op_isFileExist (tmpfs_ops E) = isFileExist" "op_readFile (tmpfs_ops E) = tmpfs_read"
  "op_writeFile (tmpfs_ops E) = writeFile E" "op_deleteFile (tmpfs_ops E) = deleteFile"
  "op_createFile (tmpfs_ops E) = createFile E" "op_getFileMeta (tmpfs_ops E) = getFileMeta"
  "op_copyFile (tmpfs_ops E) = copyFile E" "op_isDirectory (tmpfs_ops E) = isDirectory"
  "op_isDirExist (tmpfs_ops E) = isDirExist"
  by (simp_all add: tmpfs_ops_def)

interpretation tmpfs_store: file_store "tmpfs_ops E" tmpfs_wf tmpfs_contents normalize for E
  by (unfold_locales, unfold tmpfs_ops_sel)
    (rule tmpfs_exist tmpfs_read_law tmpfs_write_law tmpfs_delete_law tmpfs_create_law; assumption)+

interpretation tmpfs_pair: store_pair "tmpfs_ops E" tmpfs_wf tmpfs_contents normalize "tmpfs_ops E'" tmpfs_wf tmpfs_contents normalize for E E'
  by unfold_locales

section \<open>Permission bits\<close>

lemma and_eq_bits: "(x AND y) = y \<longleftrightarrow> (\<forall>k. bit y k \<longrightarrow> bit x k)" for x y :: "'w::len word"
proof
  assume "(x AND y) = y"
  then show "\<forall>k. bit y k \<longrightarrow> bit x k" by (metis bit_and_iff)
qed (rule bit_eqI, auto simp: bit_and_iff)

lemma bit_seven: "bit (7 :: 'w::len word) k \<longleftrightarrow> k < 3 \<and> k < LENGTH('w)"
proof -
  have "(7 :: 'w word) = mask 3" by (simp add: mask_eq_exp_minus_1)
  then show ?thesis by (simp only: bit_mask_iff) auto
qed

lemma perm_bits:
  assumes "need \<le> (7 :: u8)"
  shows "((ucast (drop_bit s (perms :: u16) AND 7) :: u8) AND need) = need \<longleftrightarrow> (\<forall>k < 3. bit need k \<longrightarrow> bit perms (s + k))"
proof -
  have small: "k < 3" if "bit need k" for k
  proof -
    have "unat (take_bit 3 need) = unat need"
      using assms by (simp add: word_le_nat_alt unsigned_take_bit_eq take_bit_eq_mod unat_mod)
    then have "need = take_bit 3 need" by (metis of_nat_dec_eq)
    then show ?thesis using that by (metis bit_take_bit_iff)
  qed
  have field: "bit (ucast (drop_bit s perms AND 7) :: u8) k \<longleftrightarrow> bit perms (s + k)" if "k < 3" for k
    using that unfolding bit_unsigned_iff bit_and_iff bit_seven bit_drop_bit_eq by simp
  have "((ucast (drop_bit s perms AND 7) :: u8) AND need) = need \<longleftrightarrow>
      (\<forall>k. bit need k \<longrightarrow> bit (ucast (drop_bit s perms AND 7) :: u8) k)"
    by (rule and_eq_bits)
  also have "\<dots> \<longleftrightarrow> (\<forall>k < 3. bit need k \<longrightarrow> bit perms (s + k))"
    using small field by (auto simp del: bit_unsigned_iff)
  finally show ?thesis .
qed

lemma feed_collect: "feed collect xs k c = (k + length xs, c @ concat xs)"
  by (induction xs arbitrary: k c) (simp_all add: collect_def)

section \<open>Properties\<close>

text \<open>
  C16. With absolute mount prefixes, a path is routed to the mount with the longest prefix that ends at a
  component boundary of the path (the root mount covers everything), that mount is unique and the one
  findMountForPath reports, and the backend gets the rest of the path: the whole path under the root mount, a
  single separator at the mount point itself, otherwise what follows the prefix. Without a covering mount the
  call is not routed.
\<close>

theorem resolve_longest:
  assumes "absolute_mounts (m_mounts v)"
  shows "case findMountForPath v (Some path) of
      None \<Rightarrow> (\<forall>m \<in> set (m_mounts v). \<not> covers m path) \<and> resolve v (Some path) = (None, Some path)
    | Some m \<Rightarrow> m \<in> set (m_mounts v) \<and> covers m path \<and>
        (\<forall>m' \<in> set (m_mounts v). covers m' path \<longrightarrow> m' \<noteq> m \<longrightarrow> length (m_prefix m') < length (m_prefix m)) \<and>
        (\<exists>rel. resolve v (Some path) = (Some (m_backend m), Some rel) \<and>
           (if m_prefix m = [slash] then rel = path
            else if path = m_prefix m then rel = [slash] else path = m_prefix m @ rel \<and> hd rel = slash))"
proof (cases "findMountForPath v (Some path)")
  case None
  then show ?thesis using findMount_longest [OF assms, of path] resolve_findMount [OF assms, of path] by simp
next
  case (Some m)
  have c: "covers m path" using findMount_longest [OF assms, of path] Some by simp
  have "path = m_prefix m @ drop (length (m_prefix m)) path \<and> hd (drop (length (m_prefix m)) path) = slash"
    if "m_prefix m \<noteq> [slash]" "path \<noteq> m_prefix m"
  proof -
    have b: "take (length (m_prefix m)) path = m_prefix m" "length path = length (m_prefix m) \<or> path ! length (m_prefix m) = slash"
      using c that(1) by (auto simp: covers_def at_boundary_def)
    then have "length (m_prefix m) < length path" using that(2) by (metis linorder_not_less take_all nat_neq_iff)
    with b show ?thesis by (metis append_take_drop_id hd_drop_conv_nth nat_neq_iff)
  qed
  with findMount_longest [OF assms, of path] resolve_findMount [OF assms, of path] Some show ?thesis by simp
qed

definition witness_mounts :: "vfs_mount_t list" where
  "witness_mounts = [\<lparr>m_prefix = ''/'', m_name = ''root'', m_backend = 0, m_vtype = VFS_TYPE_LITTLEFS\<rparr>,
     \<lparr>m_prefix = ''/tmp'', m_name = ''tmp'', m_backend = 1, m_vtype = VFS_TYPE_TMPFS\<rparr>]"

definition witness_vfs :: "tmpfs vfs" where
  "witness_vfs = \<lparr>m_mounts = witness_mounts, m_priv_depth = 0, m_state = (\<lambda>b. if b = 0 then witness_fs else [])\<rparr>"

lemma witness_absolute: "absolute_mounts (m_mounts witness_vfs)"
  by (simp add: absolute_mounts_def witness_vfs_def witness_mounts_def)

lemma witness_routes:
  "resolve witness_vfs (Some ''/d/f'') = (Some 0, Some ''/d/f'')" "resolve witness_vfs (Some ''/tmp/a'') = (Some 1, Some ''/a'')"
  "resolve witness_vfs (Some ''/h'') = (Some 0, Some ''/h'')"
  by code_simp+

theorem resolve_longest_witness:
  "\<exists>rel. resolve witness_vfs (Some ''/tmp/a'') = (Some 1, Some rel) \<and> ''/tmp/a'' = ''/tmp'' @ rel"
proof -
  have "findMountForPath witness_vfs (Some ''/tmp/a'') = Some (witness_mounts ! 1)" by code_simp
  with resolve_longest [OF witness_absolute, of "''/tmp/a''"] show ?thesis by (simp add: witness_mounts_def)
qed

text \<open>
  C4. For an unprivileged session of a user other than root, access to an existing file is granted exactly when
  all requested bits are set in the permission class of the user (owner, else group, else others); without
  write access, writing, editing, deleting and touching return -1 and change nothing, and without read access
  reading delivers nothing.
\<close>

theorem access_enforced:
  assumes "m_priv_depth v = 0" and "cur_uid I \<noteq> 0" and "vfs_getFileMeta B path blank_info v = (0, meta)" and "need \<le> 7"
  shows "(checkAccess B I path need v \<longleftrightarrow>
      (let shift = (if fi_uid meta = cur_uid I then 6 else if fi_gid meta = cur_gid I then 3 else 0)
       in \<forall>k < 3. bit need k \<longrightarrow> bit (fi_perms meta) (shift + k))) \<and>
    (checkAccess B I path VFS_ACCESS_W v \<or>
       vfs_writeFile B I path content n app v = (-1, v) \<and> vfs_editFile B I path offset content n v = Some (-1, v) \<and>
       vfs_deleteFile B I path v = (-1, v) \<and> vfs_deleteDirectory B I path v = (-1, v) \<and> vfs_touch B I path v = (-1, v)) \<and>
    (checkAccess B I path VFS_ACCESS_R v \<or>
       vfs_readFile B I path sz fn off v c = (-1, c) \<and> vfs_getDirFileList B I path items v = (-1, items))"
  using assms(1-3) perm_bits [OF assms(4), of 6] perm_bits [OF assms(4), of 3] perm_bits [OF assms(4), of 0]
  by (simp add: checkAccess_def [of B I path need v] isPrivileged_def Let_def
      vfs_writeFile_def vfs_editFile_def vfs_deleteFile_def vfs_deleteDirectory_def vfs_touch_def vfs_readFile_def vfs_getDirFileList_def)

theorem access_enforced_witness:
  "\<not> checkAccess (\<lambda>b. tmpfs_ops witness_stamp) \<lparr>cur_uid = 1, cur_gid = 2\<rparr> (Some ''/d/f'') VFS_ACCESS_W witness_vfs \<and>
   vfs_writeFile (\<lambda>b. tmpfs_ops witness_stamp) \<lparr>cur_uid = 1, cur_gid = 2\<rparr> (Some ''/d/f'') (Some ''x'') 1 False witness_vfs = (-1, witness_vfs)"
proof -
  have m: "vfs_getFileMeta (\<lambda>b. tmpfs_ops witness_stamp) (Some ''/d/f'') blank_info witness_vfs
      = (0, blank_info\<lparr>fi_size := 2\<rparr>)"
    unfolding vfs_getFileMeta_def query_def witness_routes(1) by (simp, code_simp)
  have h: "m_priv_depth witness_vfs = 0" "cur_uid \<lparr>cur_uid = 1, cur_gid = 2\<rparr> \<noteq> 0" "(2 :: u8) \<le> 7"
    by (simp_all add: witness_vfs_def)
  note T = access_enforced [OF h(1,2) m h(3), of "Some ''x''" 1 False]
  have "\<not> (\<forall>k < (3 :: nat). bit (2 :: u8) k \<longrightarrow> bit (0 :: u16) (0 + k))" by (auto intro!: exI [of _ 1])
  then have "\<not> checkAccess (\<lambda>b. tmpfs_ops witness_stamp) \<lparr>cur_uid = 1, cur_gid = 2\<rparr> (Some ''/d/f'') 2 witness_vfs"
    using conjunct1 [OF T] by (simp add: blank_info_def Let_def)
  then show ?thesis using conjunct1 [OF conjunct2 [OF T]] by simp
qed





end
