(* ===== verification/StringOperations.thy ===== *)
theory StringOperations
  imports DataTypeConversions "HOL-Library.Sublist"
begin

text \<open>
  The string utilities of \<^verbatim>\<open>utility/StringOperations.cpp\<close>. A C string is the characters before its
  terminator and a null pointer is \<open>None\<close>; strings are shorter than 65536 characters, so that the 16-bit loop
  indices do not wrap. Where a function reads or writes outside its objects, or its 8-bit loop index can never
  reach the bound, the result is \<open>None\<close>. The variadic arguments of the formatter are a list, and the text of
  a floating point number is a parameter.
\<close>

section \<open>Model\<close>

subsection \<open>Searching and comparing\<close>

fun match_here :: "string \<Rightarrow> string \<Rightarrow> bool" where
  "match_here s [] = True"
| "match_here [] (p # ps) = False"
| "match_here (c # s) (p # ps) = (c = p \<and> match_here s ps)"

fun strstr_loop :: "string \<Rightarrow> string \<Rightarrow> int \<Rightarrow> int \<Rightarrow> int" where
  "strstr_loop [] substr n len = -1"
| "strstr_loop (c # cs) substr n len =
     (if n < len then (if match_here (c # cs) substr then n else strstr_loop cs substr (n + 1) len) else -1)"

definition strstr :: "string option \<Rightarrow> string option \<Rightarrow> int \<Rightarrow> int" where
  "strstr str substr len =
     (case (str, substr) of
        (Some s, Some p) \<Rightarrow> if s = [] \<or> p = [] then -1 else strstr_loop s p 0 len
      | _ \<Rightarrow> -1)"

fun trim_lead :: "char \<Rightarrow> u16 \<Rightarrow> u16 \<Rightarrow> string \<Rightarrow> nat \<Rightarrow> u16 \<Rightarrow> nat \<times> u16" where
  "trim_lead val len lim [] b n = (b, n)"
| "trim_lead val len lim (c # cs) b n =
     (if c = val \<and> n < len \<and> n < lim then trim_lead val len lim cs (Suc b) (n + 1) else (b, n))"

text \<open>Cutting at the end looks at the character before the remaining length, also when nothing remains.\<close>

fun trim_tail :: "char \<Rightarrow> u16 \<Rightarrow> nat \<Rightarrow> u16 \<Rightarrow> string \<Rightarrow> string option" where
  "trim_tail val lim 0 n s = None"
| "trim_tail val lim (Suc k) n s =
     (if n < lim \<and> s ! k = val then trim_tail val lim k (n + 1) (take k s) else Some s)"

text \<open>The offset of the returned pointer and the string left at the argument.\<close>

definition strtrim_val :: "string option \<Rightarrow> char \<Rightarrow> u16 \<Rightarrow> (nat option \<times> string option) option" where
  "strtrim_val str val lim =
     (case str of
        None \<Rightarrow> Some (None, None)
      | Some s \<Rightarrow>
          (let len = of_nat (length s) :: u16 in
           if len = 0 \<or> lim = 0 then Some (None, Some s)
           else
             (let (b, n) = trim_lead val len lim s 0 0 in
              map_option (\<lambda>s'. (Some b, Some s')) (trim_tail val lim (unat len) n s))))"

definition strtrim :: "string option \<Rightarrow> u16 \<Rightarrow> (nat option \<times> string option) option" where
  "strtrim str lim = strtrim_val str CHR '' '' lim"

definition are_str_equals :: "string option \<Rightarrow> string option \<Rightarrow> u16 \<Rightarrow> bool" where
  "are_str_equals str1 str2 lim =
     (case (str1, str2) of
        (Some s, Some t) \<Rightarrow>
          (let len = unat (of_nat (length s) :: u16) in
           len = length t \<and> (\<forall>i < min len (unat lim). s ! i = t ! i))
      | _ \<Rightarrow> False)"

text \<open>The arrays hold at least \<open>len\<close> bytes.\<close>

definition are_arrays_equal :: "string option \<Rightarrow> string option \<Rightarrow> u16 \<Rightarrow> bool" where
  "are_arrays_equal array1 array2 len =
     (case (array1, array2) of
        (Some a, Some b) \<Rightarrow> (\<forall>i < unat len. a ! i = b ! i)
      | _ \<Rightarrow> False)"

subsection \<open>Numbers into buffers\<close>

text \<open>What the number printers leave in a local buffer of \<open>n\<close> bytes.\<close>

definition uint_text :: "nat \<Rightarrow> u32 \<Rightarrow> string" where
  "uint_text n v = (case Uint32ToString v (Some (replicate n NUL)) (of_nat n) 0 of None \<Rightarrow> [] | Some b \<Rightarrow> cstr b)"

definition int_text :: "nat \<Rightarrow> u32 \<Rightarrow> string" where
  "int_text n v = (case Int32ToString v (Some (replicate n NUL)) (of_nat n) 0 of None \<Rightarrow> [] | Some b \<Rightarrow> cstr b)"

definition hex_text :: "nat \<Rightarrow> u32 \<Rightarrow> bool \<Rightarrow> string" where
  "hex_text n v cap = (case Uint32ToHexString v (Some (replicate n NUL)) (of_nat n) cap of None \<Rightarrow> [] | Some b \<Rightarrow> cstr b)"

text \<open>The local value buffer has room for 19 characters.\<close>

definition uint_value :: "string \<Rightarrow> u32 \<Rightarrow> string" where
  "uint_value format val =
     (let pre = take 19 (takeWhile (\<lambda>c. c \<noteq> CHR ''%'') format); rest = drop (length pre) format;
          (v, rest) =
            (case rest of
               [] \<Rightarrow> (pre, [])
             | c # r \<Rightarrow>
                 if c = CHR ''%''
                 then (case r of
                         d # r' \<Rightarrow> if d = CHR ''d'' \<or> d = CHR ''u'' then (pre @ take (19 - length pre) (uint_text 15 val), r') else (pre, r)
                       | [] \<Rightarrow> (pre, []))
                 else (pre, rest))
      in v @ take (19 - length v) rest)"

text \<open>A negative length is a huge one for the C library.\<close>

definition strncat :: "string \<Rightarrow> string \<Rightarrow> int \<Rightarrow> string" where
  "strncat s src n = s @ (if n < 0 then src else take (nat n) src)"

definition appendUintToBuff :: "string option \<Rightarrow> string option \<Rightarrow> u32 \<Rightarrow> int \<Rightarrow> string option" where
  "appendUintToBuff str format val len =
     (case (str, format) of
        (Some s, Some f) \<Rightarrow> Some (strncat s (uint_value f val) len)
      | _ \<Rightarrow> str)"

fun ip_loop :: "nat \<Rightarrow> byte list \<Rightarrow> string \<Rightarrow> string" where
  "ip_loop len [] out = out"
| "ip_loop len (b # bs) out =
     (let num = uint_text 4 (ucast b);
          out = out @ take (len - 1 - length out) num;
          out = (if bs \<noteq> [] \<and> length out < len - 1 then out @ ''.'' else out)
      in ip_loop len bs out)"

text \<open>The buffer holds at least \<open>len\<close> bytes and the address four.\<close>

definition int_ip_to_str :: "string option \<Rightarrow> byte list option \<Rightarrow> int \<Rightarrow> string option" where
  "int_ip_to_str str ip len =
     (case (str, ip) of
        (Some buf, Some bs) \<Rightarrow>
          if len \<le> 0 then str
          else (let out = ip_loop (nat len) (take 4 bs) [] in Some (out @ replicate (nat len - length out) NUL @ drop (nat len) buf))
      | _ \<Rightarrow> str)"

text \<open>The scan for separators; the index has 8 bits.\<close>

fun ip_scan :: "string \<Rightarrow> nat \<Rightarrow> nat \<Rightarrow> byte list \<Rightarrow> byte list" where
  "ip_scan [] k ix ip = ip"
| "ip_scan (c # cs) 0 ix ip = ip"
| "ip_scan (c # cs) (Suc k) ix ip =
     (if c = CHR ''.'' \<and> ix < 4 then ip_scan cs k (Suc ix) (ip[ix := StringToUint8 (Some cs) 3]) else ip_scan cs k ix ip)"

definition str_ip_to_int :: "string \<Rightarrow> byte list \<Rightarrow> int \<Rightarrow> bool \<Rightarrow> (byte list \<times> string) option" where
  "str_ip_to_int str ip len clear =
     (if min (length str) (nat len) > 255 then None
      else Some (ip_scan str (nat len) 1 (ip[0 := StringToUint8 (Some str) 3]), if clear \<and> len > 0 then [] else str))"

subsection \<open>The formatter\<close>

datatype 'd va_arg = ArgInt u32 | ArgLong u64 | ArgDouble 'd | ArgStr "string option"

record spec =
  zero_pad :: bool
  left_justify :: bool
  width :: nat
  is_long :: bool

fun parse_flags :: "string \<Rightarrow> spec \<Rightarrow> spec \<times> string" where
  "parse_flags [] f = (f, [])"
| "parse_flags (c # cs) f =
     (if c = CHR ''0'' then parse_flags cs (f\<lparr>zero_pad := True\<rparr>)
      else if c = CHR ''-'' then parse_flags cs (f\<lparr>left_justify := True\<rparr>) else (f, c # cs))"

fun parse_width :: "string \<Rightarrow> spec \<Rightarrow> spec \<times> string" where
  "parse_width [] f = (f, [])"
| "parse_width (c # cs) f = (if is_dec c then parse_width cs (f\<lparr>width := width f * 10 + (code c - 48)\<rparr>) else (f, c # cs))"

definition parse_long :: "string \<Rightarrow> spec \<Rightarrow> spec \<times> string" where
  "parse_long s f = (case s of c # cs \<Rightarrow> if c = CHR ''l'' then (f\<lparr>is_long := True\<rparr>, cs) else (f, s) | [] \<Rightarrow> (f, []))"

definition parse_spec :: "string \<Rightarrow> spec \<times> string" where
  "parse_spec s =
     (let (f, s) = parse_flags s \<lparr>zero_pad = False, left_justify = False, width = 0, is_long = False\<rparr>;
          (f, s) = parse_width s f
      in parse_long s f)"

text \<open>Fetching a 32-bit number with the type the specifier asks for.\<close>

fun int_arg :: "bool \<Rightarrow> 'd va_arg list \<Rightarrow> (u32 \<times> 'd va_arg list) option" where
  "int_arg False (ArgInt v # as) = Some (v, as)"
| "int_arg True (ArgLong v # as) = Some (ucast v, as)"
| "int_arg l as = None"

text \<open>Padding inside the 32-byte temporary, which keeps room for the terminator.\<close>

definition pad_tmp :: "spec \<Rightarrow> string \<Rightarrow> string" where
  "pad_tmp f tmp =
     (let tmplen = length tmp in
      if width f > tmplen \<and> tmplen < 31
      then
        (let shift = min (width f - tmplen) (31 - tmplen) in
         if left_justify f then tmp @ replicate shift CHR '' ''
         else if zero_pad f \<and> tmplen > 0 \<and> hd tmp = CHR ''-'' then CHR ''-'' # replicate shift CHR ''0'' @ tl tmp
         else replicate shift (if zero_pad f then CHR ''0'' else CHR '' '') @ tmp)
      else tmp)"

text \<open>What one conversion produces: the text of the temporary, text written directly, or an echoed specifier.\<close>

datatype 'd conversion = Tmp string "'d va_arg list" | Direct string "'d va_arg list" | Echo

definition convert :: "('d \<Rightarrow> string) \<Rightarrow> spec \<Rightarrow> char \<Rightarrow> 'd va_arg list \<Rightarrow> 'd conversion option" where
  "convert ftos f c as =
     (if c = CHR ''d'' \<or> c = CHR ''i'' then map_option (\<lambda>(v, as). Tmp (int_text 32 v) as) (int_arg (is_long f) as)
      else if c = CHR ''u'' then map_option (\<lambda>(v, as). Tmp (uint_text 32 v) as) (int_arg (is_long f) as)
      else if c = CHR ''x'' \<or> c = CHR ''X'' then map_option (\<lambda>(v, as). Tmp (hex_text 32 v (c = CHR ''X'')) as) (int_arg (is_long f) as)
      else if c = CHR ''f'' then (case as of ArgDouble d # as' \<Rightarrow> Some (Tmp (ftos d) as') | _ \<Rightarrow> None)
      else if c = CHR ''s'' then
        (case as of
           ArgStr s # as' \<Rightarrow>
             (let s = (case s of None \<Rightarrow> [] | Some s \<Rightarrow> s); blanks = replicate (width f - length s) CHR '' ''
              in Some (Direct (if left_justify f then s @ blanks else blanks @ s) as'))
         | _ \<Rightarrow> None)
      else if c = CHR ''c'' then (case as of ArgInt v # as' \<Rightarrow> Some (Tmp [char_of (unat (ucast v :: u8))] as') | _ \<Rightarrow> None)
      else if c = CHR ''%'' then Some (Tmp ''%'' as)
      else Some Echo)"

text \<open>Copying into the output, which keeps room for the terminator.\<close>

definition snprintf_copy :: "nat \<Rightarrow> string \<Rightarrow> string \<Rightarrow> string" where
  "snprintf_copy sz out src = out @ take (sz - 1 - length out) src"

lemma parse_flags_length: "length (snd (parse_flags s f)) \<le> length s"
  by (induction s f rule: parse_flags.induct) auto

lemma parse_width_length: "length (snd (parse_width s f)) \<le> length s"
  by (induction s f rule: parse_width.induct) auto

lemma parse_spec_length: "length (snd (parse_spec s)) \<le> length s"
proof -
  define f0 where "f0 = \<lparr>zero_pad = False, left_justify = False, width = 0, is_long = False\<rparr>"
  obtain f1 s1 where 1: "parse_flags s f0 = (f1, s1)" by fastforce
  obtain f2 s2 where 2: "parse_width s1 f1 = (f2, s2)" by fastforce
  have "length s1 \<le> length s" "length s2 \<le> length s1"
    using parse_flags_length [of s f0] parse_width_length [of s1 f1] by (simp_all add: 1 2)
  then show ?thesis using 1 2 by (auto simp: parse_spec_def f0_def [symmetric] parse_long_def split: list.split)
qed

lemma parse_spec_rest: "(f, d # p') = parse_spec p \<Longrightarrow> length p' < Suc (length p)"
  using parse_spec_length [of p] by (metis Suc_le_lessD le_SucI length_Cons snd_conv)

function vsnprintf_loop :: "('d \<Rightarrow> string) \<Rightarrow> nat \<Rightarrow> string \<Rightarrow> 'd va_arg list \<Rightarrow> string \<Rightarrow> string option" where
  "vsnprintf_loop ftos sz [] as out = Some out"
| "vsnprintf_loop ftos sz (c # p) as out =
     (if length out \<ge> sz - 1 then Some out
      else if c \<noteq> CHR ''%'' then vsnprintf_loop ftos sz p as (out @ [c])
      else
        (let (f, p) = parse_spec p in
         case p of
           [] \<Rightarrow> Some (snprintf_copy sz out (if is_long f then ''%l'' else ''%''))
         | d # p' \<Rightarrow>
             (case convert ftos f d as of
                None \<Rightarrow> None
              | Some (Tmp t as') \<Rightarrow> vsnprintf_loop ftos sz p' as' (snprintf_copy sz out (pad_tmp f t))
              | Some (Direct t as') \<Rightarrow> vsnprintf_loop ftos sz p' as' (snprintf_copy sz out t)
              | Some Echo \<Rightarrow> vsnprintf_loop ftos sz p' as (snprintf_copy sz out (if is_long f then [CHR ''%'', CHR ''l'', d] else [CHR ''%'', d])))))"
  by pat_completeness auto
termination
  by (relation "measure (\<lambda>(ftos, sz, p, as, out). length p)") (auto dest!: parse_spec_rest)

declare vsnprintf_loop.simps [simp del]

text \<open>The result and the memory at the destination; \<open>None\<close> also when the text does not fit that memory.\<close>

definition vsnprintf :: "('d \<Rightarrow> string) \<Rightarrow> string option \<Rightarrow> int \<Rightarrow> string option \<Rightarrow> 'd va_arg list \<Rightarrow> (int \<times> string option) option" where
  "vsnprintf ftos str sz format as =
     (case (str, format) of
        (Some buf, Some fmt) \<Rightarrow>
          if sz \<le> 0 then Some (0, str)
          else
            (case vsnprintf_loop ftos (nat sz) fmt as [] of
               None \<Rightarrow> None
             | Some out \<Rightarrow>
                 if length out < length buf then Some (int (length out), Some (out @ NUL # drop (Suc (length out)) buf)) else None)
      | _ \<Rightarrow> Some (0, str))"

definition snprintf :: "('d \<Rightarrow> string) \<Rightarrow> string option \<Rightarrow> int \<Rightarrow> string option \<Rightarrow> 'd va_arg list \<Rightarrow> (int \<times> string option) option" where
  "snprintf ftos str sz format as = vsnprintf ftos str sz format as"

definition sprintf :: "('d \<Rightarrow> string) \<Rightarrow> string option \<Rightarrow> string option \<Rightarrow> 'd va_arg list \<Rightarrow> (int \<times> string option) option" where
  "sprintf ftos str format as = vsnprintf ftos str 2147483647 format as"

subsection \<open>Replacing\<close>

text \<open>The loop: the rest of the string, how many replacements were made, and the text built so far.\<close>

function replace_loop :: "string \<Rightarrow> string \<Rightarrow> int \<Rightarrow> string \<Rightarrow> int \<Rightarrow> string \<Rightarrow> string \<times> int \<times> string" where
  "replace_loop pat rep occ rest k buf =
     (if rest \<noteq> [] \<and> k < occ
      then
        (let ix = strstr (Some rest) (Some pat) (int (length rest)) in
         if ix \<ge> 0
         then replace_loop pat rep occ (drop (nat ix + length pat) rest) (k + 1) (buf @ take (nat ix) rest @ rep)
         else (rest, k, buf))
      else (rest, k, buf))"
  by pat_completeness auto
termination
  by (relation "measure (\<lambda>(pat, rep, occ, rest, k, buf). nat (occ - k))") auto

declare replace_loop.simps [simp del]

definition find_and_replace :: "string option \<Rightarrow> string option \<Rightarrow> string option \<Rightarrow> int \<Rightarrow> string option" where
  "find_and_replace str find_str replace_with occ =
     (case (str, find_str, replace_with) of
        (Some s, Some pat, Some rep) \<Rightarrow>
          (let (rest, k, buf) = replace_loop pat rep occ s 0 [];
               buf = buf @ rest;
               fin = int (length s) - k * int (length pat) + k * int (length rep) in
           if buf \<noteq> [] \<and> k > 0 \<and> int (length s) > fin then Some buf else Some s)
      | _ \<Rightarrow> str)"

subsection \<open>Values of a JSON text\<close>

record json_state =
  quotes :: bool
  braces :: int
  brackets :: int

text \<open>Whether a quote after the given (reversed) text is escaped.\<close>

definition escaped :: "string \<Rightarrow> bool" where
  "escaped before \<longleftrightarrow> odd (length (takeWhile (\<lambda>c. c = CHR 0x5C) before))"

fun json_scan :: "json_state \<Rightarrow> string \<Rightarrow> string \<Rightarrow> string" where
  "json_scan j before [] = rev before"
| "json_scan j before (c # cs) =
     (let stop = (c \<noteq> CHR 0x22 \<and> \<not> quotes j \<and> c = CHR '','' \<and> braces j = 0 \<and> brackets j = 0);
          j = (if c = CHR 0x22 then (if escaped before then j else j\<lparr>quotes := \<not> quotes j\<rparr>)
               else if quotes j then j
               else if c = CHR ''{'' then j\<lparr>braces := braces j + 1\<rparr>
               else if c = CHR ''}'' then j\<lparr>braces := braces j - 1\<rparr>
               else if c = CHR ''['' then j\<lparr>brackets := brackets j + 1\<rparr>
               else if c = CHR '']'' then j\<lparr>brackets := brackets j - 1\<rparr> else j)
      in if stop \<or> braces j < 0 \<or> brackets j < 0 then rev before else json_scan j (c # before) cs)"

text \<open>Trimming in place: the copy back reads as many bytes as the cut string has, from the returned pointer on.\<close>

definition trim_value :: "nat \<Rightarrow> char \<Rightarrow> string \<Rightarrow> string option" where
  "trim_value maxlen val s =
     (case strtrim_val (Some s) val (of_nat maxlen) of
        Some (Some b, Some s') \<Rightarrow> if b + length s' \<le> maxlen then Some (drop b s') else None
      | Some (None, Some s') \<Rightarrow> Some s'
      | _ \<Rightarrow> None)"

text \<open>The value buffer has \<open>maxlen\<close> bytes; the result is whether the key was found and the text left there.\<close>

definition get_from_json :: "string option \<Rightarrow> string option \<Rightarrow> string option \<Rightarrow> int \<Rightarrow> (bool \<times> string option) option" where
  "get_from_json str key val maxlen =
     (case (str, key, val) of
        (Some s, Some k, Some v) \<Rightarrow>
          if maxlen \<le> 0 then Some (False, val)
          else
            (let key_index = strstr str key (int (length s)) in
             if key_index < 0 \<or> key_index \<ge> int (length s) then Some (False, val)
             else
               (let rest = drop (nat key_index) s; colon = strstr (Some rest) (Some '':'') (int (length rest)) in
                if colon < 0 then Some (False, val)
                else
                  (let pos = dropWhile (\<lambda>c. c = CHR '' '' \<or> c = CHR 0x09 \<or> c = CHR 0x0A) (drop (nat colon + 1) rest);
                       text = json_scan \<lparr>quotes = False, braces = 0, brackets = 0\<rparr> [] pos;
                       n = nat maxlen in
                   case trim_value n CHR '','' (take (n - 1) text) of
                     None \<Rightarrow> None
                   | Some a \<Rightarrow>
                       (case trim_value n CHR '' '' a of
                          None \<Rightarrow> None
                        | Some b \<Rightarrow> map_option (\<lambda>c. (True, Some c)) (trim_value n CHR 0x22 b)))))
      | _ \<Rightarrow> Some (False, val))"

subsection \<open>Letter case and interface keys\<close>

definition lower :: "char \<Rightarrow> char" where
  "lower c = (if 65 \<le> code c \<and> code c \<le> 90 then char_of (code c + 32) else c)"

definition upper :: "char \<Rightarrow> char" where
  "upper c = (if 97 \<le> code c \<and> code c \<le> 122 then char_of (code c - 32) else c)"

definition tolowercase :: "string \<Rightarrow> int \<Rightarrow> string" where
  "tolowercase s n = map lower (take (nat n) s) @ drop (nat n) s"

definition touppercase :: "string option \<Rightarrow> int \<Rightarrow> string option" where
  "touppercase str n = map_option (\<lambda>s. map upper (take (nat n) s) @ drop (nat n) s) str"

text \<open>The key buffers have \<open>maxlen\<close> bytes; \<open>None\<close> when a key does not fit.\<close>

definition iface_key :: "(string \<Rightarrow> string) \<Rightarrow> string \<Rightarrow> u16 \<Rightarrow> int \<Rightarrow> string option" where
  "iface_key conv iface port maxlen =
     (if int (length iface) > maxlen then None
      else (case appendUintToBuff (Some (conv iface)) (Some ''%d'') (ucast port) (maxlen - 1) of
              Some s \<Rightarrow> if int (length s) < maxlen then Some s else None
            | None \<Rightarrow> None))"

definition get_iface_key_informat :: "string \<Rightarrow> u16 \<Rightarrow> string option \<Rightarrow> string option \<Rightarrow> int \<Rightarrow> (string option \<times> string option) option" where
  "get_iface_key_informat iface port up low maxlen =
     (case (if up = None then Some None
            else map_option Some (iface_key (\<lambda>s. case touppercase (Some s) maxlen of None \<Rightarrow> s | Some t \<Rightarrow> t) iface port maxlen)) of
        None \<Rightarrow> None
      | Some up' \<Rightarrow>
          (case (if low = None then Some None else map_option Some (iface_key (\<lambda>s. tolowercase s maxlen) iface port maxlen)) of
             None \<Rightarrow> None
           | Some low' \<Rightarrow> Some (up', low')))"

definition get_iface_data_fromjson :: "string \<Rightarrow> u16 \<Rightarrow> string option \<Rightarrow> int \<Rightarrow> string option \<Rightarrow> int \<Rightarrow> (bool \<times> string option) option" where
  "get_iface_data_fromjson iface port payload plen data maxlen =
     (case get_iface_key_informat iface port (Some []) (Some []) (int (length iface) + 6) of
        Some (Some up, Some low) \<Rightarrow>
          if 0 \<le> strstr payload (Some up) (plen - int (length up)) \<or> 0 \<le> strstr payload (Some low) (plen - int (length low))
          then
            (case get_from_json payload (Some up) data maxlen of
               None \<Rightarrow> None
             | Some (True, d) \<Rightarrow> Some (True, d)
             | Some (False, d) \<Rightarrow> get_from_json payload (Some low) d maxlen)
          else Some (False, data)
      | _ \<Rightarrow> None)"

section \<open>Searching\<close>

lemma match_here_prefix: "match_here s p \<longleftrightarrow> prefix p s"
  by (induction s p rule: match_here.induct) auto

lemma strstr_loop_cases:
  "strstr_loop s p n len = -1 \<and> (\<forall>k < length s. n + int k < len \<longrightarrow> \<not> prefix p (drop k s)) \<or>
   (\<exists>k < length s. strstr_loop s p n len = n + int k \<and> n + int k < len \<and> prefix p (drop k s) \<and> (\<forall>j < k. \<not> prefix p (drop j s)))"
proof (induction s p n len rule: strstr_loop.induct)
  case (2 c cs p n len)
  show ?case
  proof (cases "n < len \<and> \<not> prefix p (c # cs)")
    case False
    then show ?thesis by (cases "n < len") (auto simp: match_here_prefix intro!: exI [of _ 0])
  next
    case True
    then have e: "strstr_loop (c # cs) p n len = strstr_loop cs p (n + 1) len" by (simp add: match_here_prefix)
    from True 2 consider
        (none) "strstr_loop cs p (n + 1) len = -1" "\<forall>k < length cs. n + 1 + int k < len \<longrightarrow> \<not> prefix p (drop k cs)"
      | (some) k where "k < length cs" "strstr_loop cs p (n + 1) len = n + 1 + int k" "n + 1 + int k < len" "prefix p (drop k cs)"
          "\<forall>j < k. \<not> prefix p (drop j cs)"
      by (auto simp: match_here_prefix)
    then show ?thesis
    proof cases
      case none
      have "\<not> prefix p (drop k (c # cs))" if "k < length (c # cs)" "n + int k < len" for k
        using none(2) True that by (cases k) auto
      with e none(1) show ?thesis by auto
    next
      case (some k)
      have "\<not> prefix p (drop j (c # cs))" if "j < Suc k" for j using some(5) True that by (cases j) auto
      with e some show ?thesis by (intro disjI2 exI [of _ "Suc k"]) auto
    qed
  qed
qed simp

lemma strstr_cases:
  assumes "s \<noteq> []" and "p \<noteq> []"
  obtains (none) "strstr (Some s) (Some p) len = -1" and "\<And>k. k < length s \<Longrightarrow> int k < len \<Longrightarrow> \<not> prefix p (drop k s)"
  | (some) k where "k < length s" and "strstr (Some s) (Some p) len = int k" and "int k < len" and "prefix p (drop k s)"
      and "\<And>j. j < k \<Longrightarrow> \<not> prefix p (drop j s)"
  using strstr_loop_cases [of s p 0 len] assms by (auto simp: strstr_def)

section \<open>Replacing\<close>

fun replace_first :: "string \<Rightarrow> string \<Rightarrow> nat \<Rightarrow> string \<Rightarrow> string" where
  "replace_first pat rep k [] = []"
| "replace_first pat rep 0 (c # cs) = c # cs"
| "replace_first pat rep (Suc k) (c # cs) =
     (if prefix pat (c # cs) \<and> pat \<noteq> [] then rep @ replace_first pat rep k (drop (length pat - 1) cs)
      else c # replace_first pat rep (Suc k) cs)"

lemma replace_first_0 [simp]: "replace_first pat rep 0 s = s"
  by (cases s) auto

lemma replace_first_skip:
  assumes "pat \<noteq> []" and "\<And>j. j < k \<Longrightarrow> \<not> prefix pat (drop j s)" and "prefix pat (drop k s)" and "k < length s"
  shows "replace_first pat rep (Suc n) s = take k s @ rep @ replace_first pat rep n (drop (k + length pat) s)"
  using assms
proof (induction k arbitrary: s)
  case 0
  then show ?case by (cases s; cases pat) auto
next
  case (Suc k)
  then obtain c cs where s: "s = c # cs" by (cases s) auto
  have "\<not> prefix pat (drop j cs)" if "j < k" for j using Suc.prems(2) [of "Suc j"] that s by simp
  with Suc s have "replace_first pat rep (Suc n) cs = take k cs @ rep @ replace_first pat rep n (drop (k + length pat) cs)" by simp
  moreover have "\<not> prefix pat s" using Suc.prems(2) [of 0] by simp
  ultimately show ?case by (simp add: s)
qed

lemma replace_first_none:
  assumes "\<And>j. j < length s \<Longrightarrow> \<not> prefix pat (drop j s)"
  shows "replace_first pat rep n s = s"
  using assms
proof (induction s arbitrary: n)
  case (Cons c cs)
  have "\<not> prefix pat (drop j cs)" if "j < length cs" for j using Cons.prems [of "Suc j"] that by simp
  with Cons.IH Cons.prems [of 0] show ?case by (cases n) simp_all
qed simp

lemma replace_loop_spec:
  assumes "pat \<noteq> []" and "replace_loop pat rep occ s k buf = (rest, k', buf')" and "0 \<le> k"
  shows "buf' @ rest = buf @ replace_first pat rep (nat (occ - k)) s \<and> k \<le> k' \<and>
    int (length (buf' @ rest)) = int (length buf + length s) + (k' - k) * (int (length rep) - int (length pat)) \<and>
    (k' = k \<longrightarrow> buf' = buf \<and> rest = s)"
  using assms
proof (induction pat rep occ s k buf rule: replace_loop.induct)
  case (1 pat rep occ s k buf)
  note step = replace_loop.simps [of pat rep occ s k buf]
  show ?case
  proof (cases "s \<noteq> [] \<and> k < occ")
    case False
    then show ?thesis using 1(3) step by auto
  next
    case True
    have occ: "nat (occ - k) = Suc (nat (occ - (k + 1)))" using True by arith
    show ?thesis
    proof (cases rule: strstr_cases [OF conjunct1 [OF True] 1(2), of "int (length s)"])
      case 1
      then have "replace_first pat rep (nat (occ - k)) s = s" by (intro replace_first_none) simp
      with 1(1) step True \<open>replace_loop pat rep occ s k buf = (rest, k', buf')\<close> show ?thesis by simp
    next
      case (2 j)
      define s2 b2 where "s2 = drop (j + length pat) s" and "b2 = buf @ take j s @ rep"
      have loop: "replace_loop pat rep occ s2 (k + 1) b2 = (rest, k', buf')"
        using step True 2(2) \<open>replace_loop pat rep occ s k buf = (rest, k', buf')\<close> by (simp add: s2_def b2_def)
      have IH: "buf' @ rest = b2 @ replace_first pat rep (nat (occ - (k + 1))) s2 \<and> k + 1 \<le> k' \<and>
          int (length (buf' @ rest)) = int (length b2 + length s2) + (k' - (k + 1)) * (int (length rep) - int (length pat)) \<and>
          (k' = k + 1 \<longrightarrow> buf' = b2 \<and> rest = s2)"
        by (rule 1(1) [OF True refl, unfolded 2(2) nat_int, folded s2_def b2_def, OF _ 1(2) loop]) (use 1(4) in simp_all)
      have "length pat + j \<le> length s" using 2(4) prefix_length_le [OF 2(4)] 2(1) by simp
      then have len: "int (length b2 + length s2) = int (length buf + length s) + (int (length rep) - int (length pat))"
        using 2(1) by (simp add: b2_def s2_def)
      have "replace_first pat rep (nat (occ - k)) s = take j s @ rep @ replace_first pat rep (nat (occ - (k + 1))) s2"
        unfolding occ s2_def using 2 1(2) by (intro replace_first_skip) auto
      then have newtext: "buf' @ rest = buf @ replace_first pat rep (nat (occ - k)) s" using IH by (simp add: b2_def)
      define d where "d = int (length rep) - int (length pat)"
      have "int (length (buf' @ rest)) = int (length buf + length s) + (d + (k' - (k + 1)) * d)"
        using IH len unfolding d_def [symmetric] by linarith
      moreover have "d + (k' - (k + 1)) * d = (k' - k) * d" by (simp add: algebra_simps)
      ultimately show ?thesis using newtext IH unfolding d_def by simp
    qed
  qed
qed

section \<open>The text of numbers\<close>

lemma uint_text_eq: "0 < n \<Longrightarrow> n < 256 \<Longrightarrow> uint_text n v = take (n - 1) (dec_string (unat v))"
proof -
  assume n: "0 < n" "n < 256"
  then have u: "unat (of_nat n :: u8) = n" by (intro unat_of_nat_small) simp
  with n have "(of_nat n :: u8) \<noteq> 0" by (metis unsigned_0 less_numeral_extra(3))
  then show ?thesis
    using n by (simp add: uint_text_def Uint32ToString_eq u cstr_number_field dec_string_no_NUL)
qed

lemma int_text_eq: "0 < n \<Longrightarrow> n < 256 \<Longrightarrow> int_text n v = take (n - 1) (int_string (sint v))"
proof -
  assume n: "0 < n" "n < 256"
  then have u: "unat (of_nat n :: u8) = n" by (intro unat_of_nat_small) simp
  with n have "(of_nat n :: u8) \<noteq> 0" by (metis unsigned_0 less_numeral_extra(3))
  then show ?thesis
    using n by (simp add: int_text_def Int32ToString_eq u cstr_number_field int_string_no_NUL)
qed

lemma octet_text: "uint_text 4 (ucast (b :: byte)) = dec_string (unat b)" "length (dec_string (unat b)) \<le> 3"
proof -
  have b: "unat b < 1000" using unat_bound [of b] by simp
  then show l: "length (dec_string (unat b)) \<le> 3" using length_dec_string_le [of "unat b" 3] by simp
  have "unat (ucast b :: u32) = unat b" using b by (simp add: unsigned_ucast_eq take_bit_nat_eq_self)
  with l show "uint_text 4 (ucast b) = dec_string (unat b)" by (simp add: uint_text_eq)
qed

lemma take_take_append: "take n (take n xs @ ys) = take n (xs @ ys)"
  by (cases "length xs \<le> n") (simp_all add: min_def)

section \<open>Dotted addresses\<close>

definition dotrest :: "byte list \<Rightarrow> string" where
  "dotrest bs = concat (map (\<lambda>b. CHR ''.'' # dec_string (unat b)) bs)"

definition dotted :: "byte list \<Rightarrow> string" where
  "dotted bs = tl (dotrest bs)"

lemma dotrest_simps [simp]: "dotrest [] = []" "dotrest (b # bs) = CHR ''.'' # dec_string (unat b) @ dotrest bs"
  by (simp_all add: dotrest_def)

lemma ip_loop_take:
  assumes "length out \<le> len - 1"
  shows "ip_loop len bs out = take (len - 1) (out @ dotted bs)"
  using assms
proof (induction bs arbitrary: out)
  case Nil
  then show ?case by (simp add: dotted_def)
next
  case (Cons b bs)
  define o1 where "o1 = out @ take (len - 1 - length out) (dec_string (unat b))"
  have o1: "o1 = take (len - 1) (out @ dec_string (unat b))" using Cons.prems by (simp add: o1_def)
  define o2 where "o2 = (if bs \<noteq> [] \<and> length o1 < len - 1 then o1 @ ''.'' else o1)"
  have "ip_loop len (b # bs) out = ip_loop len bs o2"
    unfolding ip_loop.simps Let_def octet_text(1) o2_def o1_def by (rule refl)
  also have "\<dots> = take (len - 1) (o2 @ dotted bs)" by (intro Cons.IH) (auto simp: o2_def o1)
  also have "\<dots> = take (len - 1) (out @ dotted (b # bs))"
  proof (cases bs)
    case (Cons x xs)
    have d: "dotted (b # bs) = dec_string (unat b) @ ''.'' @ dotted bs" by (simp add: dotted_def Cons)
    have "o2 = take (len - 1) (out @ dec_string (unat b) @ ''.'')"
      using Cons by (auto simp: o2_def o1 take_Cons')
    then show ?thesis using take_take_append [of "len - 1" "out @ dec_string (unat b) @ ''.''" "dotted bs"] by (simp add: d)
  qed (use Cons.prems in \<open>simp add: o2_def o1 dotted_def min_def\<close>)
  finally show ?case .
qed

declare ip_loop.simps [simp del]

lemma dotted_length: "length (dotted [a, b, c, d]) \<le> 15"
  using octet_text(2) [of a] octet_text(2) [of b] octet_text(2) [of c] octet_text(2) [of d] by (simp add: dotted_def)

lemma dotted_no_NUL: "NUL \<notin> set (dotted bs)"
proof -
  have "NUL \<notin> set (dotrest bs)" by (induction bs) (simp_all add: dec_string_no_NUL)
  then show ?thesis unfolding dotted_def by (cases "dotrest bs") auto
qed

lemma ip_scan_digits:
  assumes "\<forall>x \<in> set ds. x \<noteq> CHR ''.''" and "length ds \<le> k"
  shows "ip_scan (ds @ rest) k ix ip = ip_scan rest (k - length ds) ix ip"
  using assms
proof (induction ds arbitrary: k)
  case (Cons x ds)
  then obtain k' where "k = Suc k'" by (cases k) auto
  with Cons show ?case by simp
qed simp

lemma dec_no_dot: "\<forall>x \<in> set (dec_string n). x \<noteq> CHR ''.''"
  using dec_string_digits [of n] by auto

lemma octet_parse: "StringToUint8 (Some (dec_string (unat b) @ dotrest bs)) 3 = b"
proof -
  have "stops (dotrest bs)" by (cases bs) (simp_all add: stops_def)
  then show ?thesis
    using parse_number [of "[]" "dec_string (unat b)" 3 "dotrest bs", where 'w = 8] dec_string_digits octet_text(2) [of b]
    by (simp add: StringToUint8_def)
qed

lemma scan_rest:
  assumes "length (dotrest bs) \<le> k" and "ix + length bs \<le> 4" and "length ip = 4"
  shows "ip_scan (dotrest bs) k ix ip = take ix ip @ bs @ drop (ix + length bs) ip"
  using assms
proof (induction bs arbitrary: k ix ip)
  case Nil
  then show ?case by (cases k) simp_all
next
  case (Cons b bs)
  obtain k' where k: "k = Suc k'" using Cons.prems(1) by (cases k) auto
  have "ip_scan (dotrest (b # bs)) k ix ip = ip_scan (dec_string (unat b) @ dotrest bs) k' (Suc ix) (ip[ix := b])"
    using Cons.prems(2) octet_parse [of b bs] by (simp add: k)
  also have "\<dots> = ip_scan (dotrest bs) (k' - length (dec_string (unat b))) (Suc ix) (ip[ix := b])"
    using Cons.prems(1) by (intro ip_scan_digits dec_no_dot) (simp add: k)
  also have "\<dots> = take (Suc ix) (ip[ix := b]) @ bs @ drop (Suc ix + length bs) (ip[ix := b])"
    using Cons.prems by (intro Cons.IH) (simp_all add: k)
  also have "\<dots> = take ix ip @ (b # bs) @ drop (ix + length (b # bs)) ip"
    using Cons.prems by (simp add: take_Suc_conv_app_nth)
  finally show ?case .
qed

lemma scan_dotted:
  assumes "15 \<le> len" and "length ip = 4"
  shows "ip_scan (dotted [a, b, c, d]) len 1 (ip[0 := StringToUint8 (Some (dotted [a, b, c, d])) 3]) = [a, b, c, d]"
proof -
  note l = octet_text(2) [of a] octet_text(2) [of b] octet_text(2) [of c] octet_text(2) [of d]
  have e: "dotted [a, b, c, d] = dec_string (unat a) @ dotrest [b, c, d]" by (simp add: dotted_def)
  have "ip_scan (dec_string (unat a) @ dotrest [b, c, d]) len 1 (ip[0 := a]) = ip_scan (dotrest [b, c, d]) (len - length (dec_string (unat a))) 1 (ip[0 := a])"
    using l assms(1) by (intro ip_scan_digits dec_no_dot) simp
  also have "\<dots> = take 1 (ip[0 := a]) @ [b, c, d] @ drop 4 (ip[0 := a])"
    using l assms scan_rest [of "[b, c, d]" "len - length (dec_string (unat a))" 1 "ip[0 := a]"] by simp
  also have "\<dots> = [a, b, c, d]" using assms(2) by (cases ip) simp_all
  finally show ?thesis unfolding e octet_parse [of a "[b, c, d]"] .
qed

section \<open>Truncated formatting\<close>

text \<open>The whole text a format produces, without any bound.\<close>

function render :: "('d \<Rightarrow> string) \<Rightarrow> string \<Rightarrow> 'd va_arg list \<Rightarrow> string option" where
  "render ftos [] as = Some []"
| "render ftos (c # p) as =
     (if c \<noteq> CHR ''%'' then map_option (Cons c) (render ftos p as)
      else
        (let (f, p) = parse_spec p in
         case p of
           [] \<Rightarrow> Some (if is_long f then ''%l'' else ''%'')
         | d # p' \<Rightarrow>
             (case convert ftos f d as of
                None \<Rightarrow> None
              | Some (Tmp t as') \<Rightarrow> map_option ((@) (pad_tmp f t)) (render ftos p' as')
              | Some (Direct t as') \<Rightarrow> map_option ((@) t) (render ftos p' as')
              | Some Echo \<Rightarrow> map_option ((@) (if is_long f then [CHR ''%'', CHR ''l'', d] else [CHR ''%'', d])) (render ftos p' as))))"
  by pat_completeness auto
termination
  by (relation "measure (\<lambda>(ftos, p, as). length p)") (auto dest!: parse_spec_rest)

declare render.simps [simp del]

lemma snprintf_copy_take: "length out \<le> sz - 1 \<Longrightarrow> snprintf_copy sz out t = take (sz - 1) (out @ t)"
  by (simp add: snprintf_copy_def)

lemma vsnprintf_loop_full: "length out \<ge> sz - 1 \<Longrightarrow> vsnprintf_loop ftos sz p as out = Some out"
  by (cases p) (simp_all add: vsnprintf_loop.simps)

text \<open>One conversion: its text and the arguments it leaves.\<close>

definition field :: "('d \<Rightarrow> string) \<Rightarrow> spec \<Rightarrow> char \<Rightarrow> 'd va_arg list \<Rightarrow> (string \<times> 'd va_arg list) option" where
  "field ftos f d as =
     (case convert ftos f d as of
        None \<Rightarrow> None
      | Some (Tmp t as') \<Rightarrow> Some (pad_tmp f t, as')
      | Some (Direct t as') \<Rightarrow> Some (t, as')
      | Some Echo \<Rightarrow> Some (if is_long f then [CHR ''%'', CHR ''l'', d] else [CHR ''%'', d], as))"

lemma render_percent:
  assumes "parse_spec p = (f, d # p')"
  shows "render ftos (CHR ''%'' # p) as =
    (case field ftos f d as of None \<Rightarrow> None | Some (t, as') \<Rightarrow> map_option ((@) t) (render ftos p' as'))"
  by (simp add: render.simps assms field_def split: option.split conversion.split)

lemma loop_percent:
  assumes "parse_spec p = (f, d # p')" and "length out < sz - 1"
  shows "vsnprintf_loop ftos sz (CHR ''%'' # p) as out =
    (case field ftos f d as of None \<Rightarrow> None | Some (t, as') \<Rightarrow> vsnprintf_loop ftos sz p' as' (snprintf_copy sz out t))"
  using assms(2) by (simp add: vsnprintf_loop.simps assms(1) field_def split: option.split conversion.split)

lemma vsnprintf_loop_render:
  assumes "render ftos p as = Some full" and "length out \<le> sz - 1"
  shows "vsnprintf_loop ftos sz p as out = Some (take (sz - 1) (out @ full))"
  using assms
proof (induction "length p" arbitrary: p as full out rule: less_induct)
  case less
  show ?case
  proof (cases p)
    case Nil
    then show ?thesis using less.prems by (simp add: render.simps vsnprintf_loop.simps)
  next
    case (Cons c q)
    obtain f p1 where ps: "parse_spec q = (f, p1)" by fastforce
    consider (full) "length out \<ge> sz - 1" | (plain) "length out < sz - 1" "c \<noteq> CHR ''%''"
      | (bare) "length out < sz - 1" "c = CHR ''%''" "p1 = []" | (spec) d p' where "length out < sz - 1" "c = CHR ''%''" "p1 = d # p'"
      by (cases p1) (force simp: not_le)+
    then show ?thesis
    proof cases
      case full
      then show ?thesis using less.prems(2) by (simp add: vsnprintf_loop_full)
    next
      case plain
      then obtain t where t: "render ftos q as = Some t" "full = c # t" using less.prems(1) Cons by (auto simp: render.simps)
      have "length (out @ [c]) \<le> sz - 1" using plain by simp
      from less.hyps [OF _ t(1) this] show ?thesis using plain t(2) Cons by (simp add: vsnprintf_loop.simps)
    next
      case bare
      then show ?thesis using less.prems Cons ps by (simp add: render.simps vsnprintf_loop.simps snprintf_copy_take)
    next
      case (spec d p')
      then have ps': "parse_spec q = (f, d # p')" using ps by simp
      then obtain u as' t where u: "field ftos f d as = Some (u, as')" "render ftos p' as' = Some t" "full = u @ t"
        using less.prems(1) Cons spec(2) by (auto simp: render_percent split: option.splits)
      have "length p' < length p" using parse_spec_rest [OF ps' [symmetric]] Cons by simp
      from less.hyps [OF this u(2), of "take (sz - 1) (out @ u)"] show ?thesis
        using spec(1,2) Cons u less.prems(2) by (simp add: loop_percent [OF ps'] snprintf_copy_take take_take_append del: take_append)
    qed
  qed
qed

section \<open>Properties\<close>



text \<open>
  Replacing: when the replacement is shorter than the text it replaces (and something is left), exactly the
  first occurrences, from left to right and up to the given number, are replaced; when it is as long or
  longer, the string is left unchanged.
\<close>

theorem find_and_replace_spec:
  assumes "pat \<noteq> []"
  shows "find_and_replace (Some s) (Some pat) (Some rep) occ =
    (let r = replace_first pat rep (nat occ) s in Some (if length rep < length pat \<and> r \<noteq> [] then r else s))"
proof -
  obtain rest k buf where loop: "replace_loop pat rep occ s 0 [] = (rest, k, buf)" by (metis prod_cases3)
  note L = replace_loop_spec [OF assms loop, simplified]
  have tx: "buf @ rest = replace_first pat rep (nat occ) s" and k: "0 \<le> k" and k0: "k = 0 \<Longrightarrow> buf @ rest = s" using L by auto
  have "int (length s) > int (length s) - k * int (length pat) + k * int (length rep) \<longleftrightarrow> 0 < k * (int (length pat) - int (length rep))"
    by (simp add: algebra_simps)
  also have "\<dots> \<longleftrightarrow> 0 < k \<and> length rep < length pat" using k by (simp add: zero_less_mult_iff)
  finally have c: "int (length s) > int (length s) - k * int (length pat) + k * int (length rep) \<longleftrightarrow> 0 < k \<and> length rep < length pat" .
  show ?thesis
  proof (cases "k = 0")
    case True
    then show ?thesis using k0 tx c by (auto simp: find_and_replace_def loop Let_def)
  next
    case False
    then show ?thesis using k tx c by (auto simp: find_and_replace_def loop Let_def)
  qed
qed

theorem find_and_replace_spec_witness:
  "find_and_replace (Some ''a[mac]/[mac]'') (Some ''[mac]'') (Some ''id'') 2 = Some ''aid/id'' \<and>
   find_and_replace (Some ''a[mac]/x'') (Some ''[mac]'') (Some ''aabbcc'') 2 = Some ''a[mac]/x''"
proof -
  have "replace_first ''[mac]'' ''id'' (nat 2) ''a[mac]/[mac]'' = ''aid/id''" by code_simp
  then show ?thesis
    using find_and_replace_spec [of "''[mac]''" "''a[mac]/[mac]''" "''id''" 2] find_and_replace_spec [of "''[mac]''" "''a[mac]/x''" "''aabbcc''" 2]
    by (simp add: Let_def)
qed

text \<open>
  Addresses: printing stores the dotted decimal form cut to one character less than the length; reading it
  back returns the address whenever the length is at least 16. With the default length of 15 an address whose
  dotted form has 15 characters loses its last digit.
\<close>

theorem ip_round_trip:
  assumes "0 < len" and "length ip = 4"
  shows "\<exists>out. int_ip_to_str (Some buf) (Some [a, b, c, d]) len = Some out \<and> cstr out = take (nat len - 1) (dotted [a, b, c, d]) \<and>
    (if 16 \<le> len then \<exists>s. str_ip_to_int (cstr out) ip 15 clear = Some ([a, b, c, d], s)
     else length (dotted [a, b, c, d]) = 15 \<longrightarrow> cstr out \<noteq> dotted [a, b, c, d])"
proof -
  define out where "out = take (nat len - 1) (dotted [a, b, c, d])"
  have loop: "ip_loop (nat len) [a, b, c, d] [] = out" by (simp add: ip_loop_take out_def)
  have lt: "length out < nat len" using assms(1) by (simp add: out_def)
  have no: "NUL \<notin> set out" using dotted_no_NUL in_set_takeD unfolding out_def by fast
  have e: "int_ip_to_str (Some buf) (Some [a, b, c, d]) len = Some (out @ replicate (nat len - length out) NUL @ drop (nat len) buf)"
    using assms(1) loop by (simp add: int_ip_to_str_def)
  have c: "cstr (out @ replicate (nat len - length out) NUL @ drop (nat len) buf) = out"
    using cstr_pad [OF no, of "nat len - length out"] lt by simp
  show ?thesis
  proof (cases "16 \<le> len")
    case True
    then have "out = dotted [a, b, c, d]" using dotted_length [of a b c d] by (simp add: out_def)
    moreover have "ip_scan out 15 1 (ip[0 := StringToUint8 (Some out) 3]) = [a, b, c, d]"
      unfolding \<open>out = dotted [a, b, c, d]\<close> using assms(2) by (intro scan_dotted) simp_all
    ultimately show ?thesis
      using e c True dotted_length [of a b c d] unfolding out_def [symmetric] by (simp add: str_ip_to_int_def)
  next
    case False
    have "out \<noteq> dotted [a, b, c, d]" if "length (dotted [a, b, c, d]) = 15"
    proof
      assume "out = dotted [a, b, c, d]"
      then have "length out = 15" using that by simp
      with lt False show False by simp
    qed
    with e c False show ?thesis unfolding out_def [symmetric] by simp
  qed
qed

theorem ip_round_trip_witness:
  "\<exists>out. int_ip_to_str (Some (replicate 20 NUL)) (Some [192, 168, 0, 10]) 20 = Some out \<and>
     (\<exists>s. str_ip_to_int (cstr out) [0, 0, 0, 0] 15 True = Some ([192, 168, 0, 10], s))"
  using ip_round_trip [of 20 "[0, 0, 0, 0]" "replicate 20 NUL" 192 168 0 10 True] by auto

end
