(* ===== verification/FileSystemImpl.thy ===== *)
theory FileSystemImpl
  imports TmpFs
begin

text \<open>
  What \<^verbatim>\<open>interface/pdi/impl/modules/storage/FileSystemInterfaceImpl.cpp\<close> adds to the flash file system it
  extends: the working directory, removal of dot notations from paths, names and default metadata. The operations
  of the underlying file system wrapper are a record of functions on its state. \<open>None\<close> is an access outside a
  string or buffer.
\<close>

section \<open>Model\<close>

record fsi =
  m_pwd :: string
  m_lastpwd :: string
  m_root :: string
  m_home :: string
  m_temp :: string

definition fsi_new :: fsi where
  "fsi_new = \<lparr>m_pwd = [slash], m_lastpwd = [slash], m_root = [slash], m_home = [slash], m_temp = ''/temp/''\<rparr>"

text \<open>Appending the separator looks at the last character, which an empty string does not have.\<close>

definition with_separator :: "string \<Rightarrow> string option" where
  "with_separator path = (if path = [] then None else Some (if last path \<noteq> slash then path @ [slash] else path))"

definition fsi_appendFileSeparator :: "string option \<Rightarrow> string option option" where
  "fsi_appendFileSeparator path = (case path of None \<Rightarrow> Some None | Some p \<Rightarrow> map_option Some (with_separator p))"

definition fsi_getPWD :: "fsi \<Rightarrow> string" where
  "fsi_getPWD v = m_pwd v"

definition fsi_getLastPWD :: "fsi \<Rightarrow> string" where
  "fsi_getLastPWD v = m_lastpwd v"

definition fsi_setPWD :: "(string \<Rightarrow> bool) \<Rightarrow> string \<Rightarrow> fsi \<Rightarrow> (bool \<times> fsi) option" where
  "fsi_setPWD isDir path v =
     (if isDir path then map_option (\<lambda>p. (True, v\<lparr>m_lastpwd := m_pwd v, m_pwd := p\<rparr>)) (with_separator path)
      else Some (False, v))"

definition fsi_setHomeDirectory :: "(string \<Rightarrow> bool) \<Rightarrow> string \<Rightarrow> fsi \<Rightarrow> (bool \<times> fsi) option" where
  "fsi_setHomeDirectory isDir path v =
     (if isDir path then map_option (\<lambda>p. (True, v\<lparr>m_home := p\<rparr>)) (with_separator path) else Some (False, v))"

definition fsi_getRootDirectory :: "fsi \<Rightarrow> string" where
  "fsi_getRootDirectory v = m_root v"

definition fsi_getHomeDirectory :: "fsi \<Rightarrow> string" where
  "fsi_getHomeDirectory v = m_home v"

definition fsi_getTempDirectory :: "fsi \<Rightarrow> string" where
  "fsi_getTempDirectory v = m_temp v"

text \<open>The dots between a separator and the next one; zero when another character comes first.\<close>

fun dotcount :: "string \<Rightarrow> nat \<Rightarrow> nat" where
  "dotcount [] n = n"
| "dotcount (c # cs) n = (if c = CHR ''.'' then dotcount cs (Suc n) else if c = slash then n else 0)"

text \<open>The new path is built back to front: its head is the last character written.\<close>

definition backtrack :: "string \<Rightarrow> string" where
  "backtrack out = drop 1 (dropWhile (\<lambda>c. c \<noteq> slash) out)"

function notation_loop :: "string \<Rightarrow> string \<Rightarrow> string" where
  "notation_loop [] out = out"
| "notation_loop (c # cs) out =
     (if c = slash
      then
        (if dotcount cs 0 = 1 then notation_loop (drop 1 cs) out
         else if dotcount cs 0 = 2 then notation_loop (drop 2 cs) (backtrack out)
         else notation_loop cs (if out = [] \<or> hd out \<noteq> slash then slash # out else out))
      else notation_loop cs (c # out))"
  by pat_completeness auto
termination
  by (relation "measure (\<lambda>(p, out). length p)") auto

declare notation_loop.simps [simp del]

definition finish_path :: "string \<Rightarrow> string" where
  "finish_path out =
     (let out = (if length out > 1 \<and> hd out = slash then tl out else out) in if out = [] then [slash] else rev out)"

definition updatePathNotations :: "(string \<Rightarrow> bool) \<Rightarrow> string option \<Rightarrow> string \<Rightarrow> (bool \<times> string) option" where
  "updatePathNotations isDir path updatedpath =
     (case path of
        None \<Rightarrow> Some (False, updatedpath)
      | Some p \<Rightarrow>
          if p = [] then None
          else (let newpath = finish_path (notation_loop p [])
                in Some (if isDir newpath then (True, newpath) else (False, updatedpath))))"

definition fsi_changeDirectory :: "(string \<Rightarrow> bool) \<Rightarrow> string option \<Rightarrow> fsi \<Rightarrow> (bool \<times> fsi) option" where
  "fsi_changeDirectory isDir path v = map_option (\<lambda>(r, p). (r, v\<lparr>m_pwd := p\<rparr>)) (updatePathNotations isDir path (m_pwd v))"

definition fsi_basename :: "string option \<Rightarrow> string" where
  "fsi_basename path =
     (case path of None \<Rightarrow> [] | Some p \<Rightarrow> if slash \<in> set p then rev (takeWhile (\<lambda>c. c \<noteq> slash) (rev p)) else p)"

text \<open>The extension from the last dot on, and how much of the name is kept, in 32 bits.\<close>

definition file_ext :: "string \<Rightarrow> string" where
  "file_ext name =
     (if CHR ''.'' \<in> set name then CHR ''.'' # rev (takeWhile (\<lambda>c. c \<noteq> CHR ''.'') (rev name)) else [])"

definition fsi_applyFileSizeLimit :: "string \<Rightarrow> u32 \<Rightarrow> string" where
  "fsi_applyFileSizeLimit name sizelimit =
     (if length name > unat sizelimit
      then (let keepsize = sizelimit - 1 - of_nat (length (file_ext name)) in take (unat keepsize) name @ file_ext name)
      else name)"

text \<open>The operations of the underlying wrapper. Reading an attribute yields the bytes it stores.\<close>

record 's lfs_base =
  b_isFileExist :: "string \<Rightarrow> 's \<Rightarrow> bool"
  b_isDirExist :: "string \<Rightarrow> 's \<Rightarrow> bool"
  b_isDirectory :: "string \<Rightarrow> 's \<Rightarrow> bool"
  b_getFileSize :: "string \<Rightarrow> 's \<Rightarrow> int"
  b_getFileAttr :: "string \<Rightarrow> u8 \<Rightarrow> nat \<Rightarrow> 's \<Rightarrow> byte list"
  b_setFileAttr :: "string \<Rightarrow> u8 \<Rightarrow> byte list \<Rightarrow> 's \<Rightarrow> int \<times> 's"
  b_createFile :: "string \<Rightarrow> string \<Rightarrow> 's \<Rightarrow> int \<times> 's"

text \<open>An attribute read over a variable with a default value replaces its leading bytes.\<close>

definition read_attr :: "'s lfs_base \<Rightarrow> string \<Rightarrow> u8 \<Rightarrow> nat \<Rightarrow> 's \<Rightarrow> 'w::len word \<Rightarrow> 'w word" where
  "read_attr L path type k s dflt = (let bs = take k (b_getFileAttr L path type k s) in le_value k (bs @ drop (length bs) (le_bytes k dflt)))"

definition fsi_getFileMeta :: "'s lfs_base \<Rightarrow> string \<Rightarrow> file_info_t \<Rightarrow> 's \<Rightarrow> int \<times> file_info_t" where
  "fsi_getFileMeta L path out s =
     (if \<not> b_isFileExist L path s \<and> \<not> b_isDirExist L path s then (-1, out)
      else
        (let isDir = b_isDirectory L path s in
         (0, \<lparr>fi_type = (if isDir then FILE_TYPE_DIR else FILE_TYPE_REG),
              fi_size = (if isDir then 0 else nat (b_getFileSize L path s mod 2 ^ 64)), fi_name = fi_name out,
              fi_perms = read_attr L path FILE_ATTR_PERMS 2 s (if isDir then FILE_PERM_DEFAULT_DIR else FILE_PERM_DEFAULT_FILE),
              fi_uid = read_attr L path FILE_ATTR_UID 2 s 0, fi_gid = read_attr L path FILE_ATTR_GID 2 s 0,
              fi_ctime = read_attr L path FILE_ATTR_CTIME 4 s 0, fi_mtime = read_attr L path FILE_ATTR_MTIME 4 s 0\<rparr>)))"

definition fsi_setFilePermissions :: "'s lfs_base \<Rightarrow> string \<Rightarrow> u16 \<Rightarrow> 's \<Rightarrow> int \<times> 's" where
  "fsi_setFilePermissions L path perms s = b_setFileAttr L path FILE_ATTR_PERMS (le_bytes 2 perms) s"

definition fsi_touch :: "'s lfs_base \<Rightarrow> u32 \<Rightarrow> string \<Rightarrow> 's \<Rightarrow> int \<times> 's" where
  "fsi_touch L now path s =
     (if \<not> b_isFileExist L path s then b_createFile L path [] s
      else if now = 0 then (0, s) else b_setFileAttr L path FILE_ATTR_MTIME (le_bytes 4 now) s)"

section \<open>Canonical paths\<close>

text \<open>A path as the list of its components, each preceded by a separator.\<close>

definition enc :: "string list \<Rightarrow> string" where
  "enc cs = concat (map (\<lambda>c. slash # c) cs)"

text \<open>The directory stack after a component.\<close>

definition step :: "string list \<Rightarrow> string \<Rightarrow> string list" where
  "step st c = (if c = [] \<or> c = ''.'' then st else if c = ''..'' then butlast st else st @ [c])"

definition canonical :: "string list \<Rightarrow> string" where
  "canonical cs = (let st = foldl step [] cs in if st = [] then [slash] else enc st)"

definition component :: "string \<Rightarrow> bool" where
  "component c \<longleftrightarrow> c \<noteq> [] \<and> slash \<notin> set c"

lemma enc_simps [simp]: "enc [] = []" "enc (c # cs) = slash # c @ enc cs" "enc (cs @ ds) = enc cs @ enc ds"
  by (simp_all add: enc_def)

lemma dotcount_component:
  assumes "component c"
  shows "dotcount (c @ enc cs) n = (if set c \<subseteq> {CHR ''.''} then n + length c else 0)"
proof -
  have "slash \<notin> set c \<Longrightarrow> dotcount (c @ enc cs) n = (if set c \<subseteq> {CHR ''.''} then n + length c else 0)" for n
  proof (induction c arbitrary: n)
    case Nil
    then show ?case by (cases cs) simp_all
  qed auto
  then show ?thesis using assms by (simp add: component_def)
qed

lemma dots_only: "set c \<subseteq> {x} \<longleftrightarrow> c = replicate (length c) x"
  by (induction c) auto

lemma dotcount_special:
  assumes "component c"
  shows "dotcount (c @ enc cs) 0 = 1 \<longleftrightarrow> c = ''.''" and "dotcount (c @ enc cs) 0 = 2 \<longleftrightarrow> c = ''..''"
  using assms dotcount_component [OF assms, of cs 0] dots_only [of c "CHR ''.''"]
  by (auto simp: component_def numeral_2_eq_2 length_Suc_conv)

lemma copy_component: "slash \<notin> set c \<Longrightarrow> notation_loop (c @ r) out = notation_loop r (rev c @ out)"
  by (induction c arbitrary: out) (auto simp: notation_loop.simps)

lemma backtrack_enc:
  assumes "\<forall>x \<in> set st. component x"
  shows "backtrack (rev (enc st)) = rev (enc (butlast st))"
proof (cases st rule: rev_cases)
  case (snoc s x)
  then have "slash \<notin> set x" using assms by (simp add: component_def)
  then have "dropWhile (\<lambda>c. c \<noteq> slash) (rev x @ slash # rev (enc s)) = slash # rev (enc s)"
    by (subst dropWhile_append2) auto
  then show ?thesis by (simp add: snoc backtrack_def)
qed (simp add: backtrack_def)

lemma enc_last:
  assumes "\<forall>x \<in> set st. component x" and "st \<noteq> []"
  shows "rev (enc st) \<noteq> []" and "hd (rev (enc st)) \<noteq> slash"
proof -
  obtain s x where st: "st = s @ [x]" using assms(2) by (cases st rule: rev_cases) auto
  then have x: "x \<noteq> []" "slash \<notin> set x" using assms(1) by (auto simp: component_def)
  then show "rev (enc st) \<noteq> []" and "hd (rev (enc st)) \<noteq> slash"
    using st by (auto simp: hd_append) (metis hd_in_set rev_is_Nil_conv set_rev)
qed

lemma step_components: "\<forall>x \<in> set st. component x \<Longrightarrow> slash \<notin> set c \<Longrightarrow> \<forall>x \<in> set (step st c). component x"
  by (auto simp: step_def component_def dest: in_set_butlastD)

lemma notation_loop_enc:
  assumes "\<forall>x \<in> set st. component x" and "\<forall>c \<in> set cs. component c"
  shows "notation_loop (enc (cs @ ds)) (rev (enc st)) = notation_loop (enc ds) (rev (enc (foldl step st cs)))"
  using assms
proof (induction cs arbitrary: st)
  case (Cons c cs)
  have c: "component c" and ns: "slash \<notin> set c" using Cons.prems(2) by (auto simp: component_def)
  define r out where "r = enc (cs @ ds)" and "out = rev (enc st)"
  note dots = dotcount_special [OF c, of "cs @ ds", folded r_def]
  note loop = notation_loop.simps(2) [of slash "c @ r" out]
  have "notation_loop (slash # c @ r) out = notation_loop r (rev (enc (step st c)))"
  proof (cases "c = ''.'' \<or> c = ''..''")
    case True
    then show ?thesis using loop dots backtrack_enc [OF Cons.prems(1)] by (auto simp: step_def out_def)
  next
    case False
    have "out = [] \<or> hd out \<noteq> slash" using enc_last [OF Cons.prems(1)] by (cases "st = []") (auto simp: out_def)
    then have "notation_loop (slash # c @ r) out = notation_loop (c @ r) (slash # out)" using loop dots False by simp
    also have "\<dots> = notation_loop r (rev c @ slash # out)" using ns by (rule copy_component)
    finally show ?thesis using False c by (simp add: step_def component_def out_def)
  qed
  then have "notation_loop (enc ((c # cs) @ ds)) (rev (enc st)) = notation_loop r (rev (enc (step st c)))"
    by (simp add: r_def out_def)
  also have "\<dots> = notation_loop (enc ds) (rev (enc (foldl step (step st c) cs)))"
    unfolding r_def using Cons.prems(2) step_components [OF Cons.prems(1) ns] by (intro Cons.IH) auto
  finally show ?case by simp
qed simp

lemma foldl_step_components:
  assumes "\<forall>c \<in> set cs. slash \<notin> set c" and "\<forall>x \<in> set st. component x"
  shows "\<forall>x \<in> set (foldl step st cs). component x \<and> x \<noteq> ''.'' \<and> x \<noteq> ''..'' \<or> x \<in> set st"
  using assms
proof (induction cs arbitrary: st)
  case (Cons c cs)
  have "\<forall>x \<in> set (step st c). component x" using Cons.prems by (intro step_components) simp_all
  moreover have "x \<in> set st \<or> component x \<and> x \<noteq> ''.'' \<and> x \<noteq> ''..''" if "x \<in> set (step st c)" for x
    using that Cons.prems(1) by (auto simp: step_def component_def split: if_splits dest: in_set_butlastD)
  ultimately show ?case using Cons.IH [of "step st c"] Cons.prems(1) by fastforce
qed simp

lemma finish_canonical:
  assumes "\<forall>c \<in> set cs. component c" and "ds = [] \<or> ds = [[]]" and "cs @ ds \<noteq> []"
  shows "finish_path (notation_loop (enc (cs @ ds)) []) = canonical cs"
proof -
  define st where "st = foldl step [] cs"
  have comp: "\<forall>x \<in> set st. component x"
    using foldl_step_components [of cs "[]"] assms(1) by (auto simp: st_def component_def)
  have loop: "notation_loop (enc (cs @ ds)) [] = notation_loop (enc ds) (rev (enc st))"
    using notation_loop_enc [of "[]" cs ds] assms(1) by (simp add: st_def)
  have out: "notation_loop (enc ds) (rev (enc st)) = (if ds = [] then rev (enc st) else slash # rev (enc st))"
    using assms(2) enc_last [OF comp] by (cases "st = []") (auto simp: notation_loop.simps)
  show ?thesis
  proof (cases "st = []")
    case True
    then show ?thesis using loop out by (simp add: canonical_def st_def [symmetric] finish_path_def)
  next
    case False
    then show ?thesis
      using loop out enc_last [OF comp False] by (cases "ds = []") (auto simp: canonical_def st_def [symmetric] finish_path_def Let_def)
  qed
qed

section \<open>Properties\<close>

text \<open>
  C23. For an absolute path without empty components, except after a final separator, removing the dot notations
  gives the path of the directory stack: a single dot keeps it, two dots leave the last directory and stay at the
  root, every other component enters a directory. The result has no dot components, and the working directory
  changes to it exactly when it is a directory. An empty component before two dots, however, is taken for a
  directory.
\<close>

theorem updatePathNotations_canonical:
  assumes "\<forall>c \<in> set cs. component c" and "ds = [] \<or> ds = [[]]" and "cs @ ds \<noteq> []"
  shows "updatePathNotations isDir (Some (enc (cs @ ds))) old =
      Some (if isDir (canonical cs) then (True, canonical cs) else (False, old)) \<and>
    (\<forall>c \<in> set (foldl step [] cs). component c \<and> c \<noteq> ''.'' \<and> c \<noteq> ''..'') \<and>
    updatePathNotations (\<lambda>p. True) (Some ''/a//..'') old = Some (True, ''/a'')"
proof -
  have "enc (cs @ ds) \<noteq> []" using assms(3) by (cases cs; cases ds) auto
  then have "updatePathNotations isDir (Some (enc (cs @ ds))) old =
      Some (if isDir (canonical cs) then (True, canonical cs) else (False, old))"
    using finish_canonical [OF assms] by (simp add: updatePathNotations_def Let_def)
  moreover have "\<forall>c \<in> set (foldl step [] cs). component c \<and> c \<noteq> ''.'' \<and> c \<noteq> ''..''"
    using foldl_step_components [of cs "[]"] assms(1) by (simp add: component_def)
  moreover have "finish_path (notation_loop ''/a//..'' []) = ''/a''" by code_simp
  ultimately show ?thesis by (simp add: updatePathNotations_def)
qed

theorem updatePathNotations_canonical_witness:
  "updatePathNotations (\<lambda>p. p = ''/a/c'') (Some ''/a/b/../c/./'') ''/'' = Some (True, ''/a/c'')"
proof -
  let ?cs = "[''a'', ''b'', ''..'', ''c'', ''.'']"
  have e: "enc (?cs @ [[]]) = ''/a/b/../c/./''" "canonical ?cs = ''/a/c''" by code_simp+
  have h: "\<forall>c \<in> set ?cs. component c" "[[]] = [] \<or> [[]] = [[] :: string]" "?cs @ [[]] \<noteq> []" by code_simp+
  show ?thesis
    using conjunct1 [OF updatePathNotations_canonical [OF h, of "\<lambda>p. p = ''/a/c''" "''/''"]]
    unfolding e by (simp only: refl if_True)
qed

end
