(* ===== verification/HashStream.thy ===== *)
theory HashStream
  imports Prelude
begin

text \<open>
  What the hash functions of \<^verbatim>\<open>utility/crypto/hash\<close> have in common. A context holds a chaining value, the
  bytes of an incomplete block and the number of bits hashed, modulo \<open>2 ^ 64\<close>; data arrives in pieces. The
  interface \<open>stream_hash\<close> states what the three operations of such a hash do to the context, and its lemma
  that the digest depends on the concatenation of the pieces alone: it is the compression of the padded message,
  block by block.
\<close>

function absorb :: "nat \<Rightarrow> ('s \<Rightarrow> 'b list \<Rightarrow> 's) \<Rightarrow> 's \<Rightarrow> 'b list \<Rightarrow> 's \<times> 'b list" where
  "absorb n f s xs = (if n = 0 \<or> length xs < n then (s, xs) else absorb n f (f s (take n xs)) (drop n xs))"
  by pat_completeness auto
termination
  by (relation "measure (\<lambda>(n, f, s, xs). length xs)") auto

declare absorb.simps [simp del]

lemma absorb_short: "length xs < n \<Longrightarrow> absorb n f s xs = (s, xs)"
  by (simp add: absorb.simps)

lemma absorb_block: "0 < n \<Longrightarrow> length b = n \<Longrightarrow> absorb n f s (b @ xs) = absorb n f (f s b) xs"
  by (subst absorb.simps) simp

lemma absorb_append:
  "0 < n \<Longrightarrow> absorb n f s (xs @ ys) = (case absorb n f s xs of (t, r) \<Rightarrow> absorb n f t (r @ ys))"
proof (induction n f s xs rule: absorb.induct)
  case (1 n f s xs)
  show ?case
  proof (cases "length xs < n")
    case True
    then show ?thesis by (simp add: absorb_short)
  next
    case False
    then have "absorb n f s (xs @ ys) = absorb n f (f s (take n xs)) (drop n xs @ ys)"
      using absorb_block [of n "take n xs" f s "drop n xs @ ys"] 1(2) by (simp flip: append_assoc)
    moreover have "absorb n f s xs = absorb n f (f s (take n xs)) (drop n xs)"
      using False 1(2) by (subst absorb.simps) simp
    ultimately show ?thesis using 1 False by simp
  qed
qed

lemma absorb_rest: "0 < n \<Longrightarrow> length (snd (absorb n f s xs)) = length xs mod n"
proof (induction n f s xs rule: absorb.induct)
  case (1 n f s xs)
  then show ?case
    by (cases "length xs < n") (simp_all add: absorb_short absorb.simps [of n f s xs] le_mod_geq)
qed

lemma absorb_invariant: "(\<And>s b. P (f s b)) \<Longrightarrow> P s \<Longrightarrow> P (fst (absorb n f s xs))"
proof (induction n f s xs rule: absorb.induct)
  case (1 n f s xs)
  then show ?case using absorb.simps [of n f s xs] by (cases "n = 0 \<or> length xs < n") simp_all
qed

text \<open>Big-endian bytes of a 64-bit number.\<close>

definition be64 :: "u64 \<Rightarrow> byte list" where
  "be64 x = map (\<lambda>i. ucast (drop_bit (56 - 8 * i) x)) [0..<8]"

lemma length_be64 [simp]: "length (be64 x) = 8"
  by (simp add: be64_def)

text \<open>Words as big-endian bytes.\<close>

definition be32 :: "u32 \<Rightarrow> byte list" where
  "be32 w = [ucast (drop_bit 24 w), ucast (drop_bit 16 w), ucast (drop_bit 8 w), ucast w]"

definition words_out :: "u32 list \<Rightarrow> byte list" where
  "words_out s = concat (map be32 s)"

lemma ucast_low_byte: "ucast (x AND 0xff) = (ucast (x :: u32) :: byte)"
proof -
  have m: "(0xff :: u32) = mask 8" by (simp add: mask_eq_exp_minus_1)
  show ?thesis unfolding m by (rule bit_word_eqI) (auto simp: bit_simps)
qed

lemma length_words_out: "length (words_out s) = 4 * length s"
  by (induction s) (simp_all add: words_out_def be32_def)

lemma take_update_Suc: "n < length xs \<Longrightarrow> take (Suc n) (xs[n := x]) = take n xs @ [x]"
  by (simp add: take_Suc_conv_app_nth)

text \<open>The number of zeros that fill a block of 64 bytes up to its last eight.\<close>

lemma mod_pad: "n < 56 \<Longrightarrow> (119 - n) mod 64 = 55 - n" "\<not> n < 56 \<Longrightarrow> n < 64 \<Longrightarrow> (119 - n) mod 64 = 119 - (n :: nat)"
proof -
  assume "n < 56"
  then have "119 - n = (55 - n) + 64" "55 - n < 64" by simp_all
  then show "(119 - n) mod 64 = 55 - n" by (metis mod_add_self2 mod_less)
qed simp

definition pad64 :: "nat \<Rightarrow> u64 \<Rightarrow> byte list" where
  "pad64 r b = 0x80 # replicate ((119 - r) mod 64) 0 @ be64 b"

lemma padded_whole: "(n + (9 + (119 - n mod 64) mod 64)) mod 64 = (0 :: nat)"
proof -
  have "(n mod 64 + (9 + (119 - n mod 64) mod 64)) mod 64 = 0"
    using mod_pad [of "n mod 64"] by (cases "n mod 64 < 56") auto
  then show ?thesis by (simp only: mod_add_left_eq)
qed

text \<open>The digest of a message: the compression of its blocks after padding.\<close>

definition padded_digest :: "nat \<Rightarrow> ('s \<Rightarrow> byte list \<Rightarrow> 's) \<Rightarrow> 's \<Rightarrow> (nat \<Rightarrow> u64 \<Rightarrow> byte list) \<Rightarrow> ('s \<Rightarrow> byte list) \<Rightarrow> byte list \<Rightarrow> byte list" where
  "padded_digest block compress iv pad out m =
     out (fst (absorb block compress iv (m @ pad (length m mod block) (of_nat (8 * length m)))))"

text \<open>Contexts that take data, and hash functions on them.\<close>

locale stream_context =
  fixes block :: nat
    and compress :: "'s \<Rightarrow> byte list \<Rightarrow> 's"
    and invar :: "'c \<Rightarrow> bool"
    and view :: "'c \<Rightarrow> 's \<times> byte list"
    and bits :: "'c \<Rightarrow> u64"
    and fits :: "byte list \<Rightarrow> bool"
    and update :: "'c \<Rightarrow> byte list \<Rightarrow> 'c"
  assumes rest_short: "invar c \<Longrightarrow> length (snd (view c)) < block"
    and update_invar: "invar c \<Longrightarrow> fits xs \<Longrightarrow> invar (update c xs)"
    and update_view: "invar c \<Longrightarrow> fits xs \<Longrightarrow>
      view (update c xs) = absorb block compress (fst (view c)) (snd (view c) @ xs)"
    and update_bits: "invar c \<Longrightarrow> fits xs \<Longrightarrow> bits (update c xs) = bits c + of_nat (8 * length xs)"
begin

lemma updates:
  assumes "invar c" "list_all fits ps"
  shows "invar (foldl update c ps)"
    "view (foldl update c ps) = absorb block compress (fst (view c)) (snd (view c) @ concat ps)"
    "bits (foldl update c ps) = bits c + of_nat (8 * length (concat ps))"
proof -
  have "invar (foldl update c ps) \<and>
      view (foldl update c ps) = absorb block compress (fst (view c)) (snd (view c) @ concat ps) \<and>
      bits (foldl update c ps) = bits c + of_nat (8 * length (concat ps))"
    using assms
  proof (induction ps arbitrary: c)
    case Nil
    then show ?case by (simp add: absorb_short rest_short)
  next
    case (Cons p ps)
    have "0 < block" using rest_short [OF Cons.prems(1)] by simp
    then have "absorb block compress (fst (view c)) ((snd (view c) @ p) @ concat ps) =
        absorb block compress (fst (view (update c p))) (snd (view (update c p)) @ concat ps)"
      using Cons.prems update_view [of c p] by (subst absorb_append) (simp_all add: case_prod_beta)
    then show ?case
      using Cons.IH [of "update c p"] Cons.prems update_invar [of c p] update_bits [of c p] by (simp add: algebra_simps)
  qed
  then show "invar (foldl update c ps)"
    "view (foldl update c ps) = absorb block compress (fst (view c)) (snd (view c) @ concat ps)"
    "bits (foldl update c ps) = bits c + of_nat (8 * length (concat ps))" by simp_all
qed

end

locale stream_hash = stream_context +
  fixes iv :: "'a"
    and pad :: "nat \<Rightarrow> u64 \<Rightarrow> byte list"
    and out :: "'a \<Rightarrow> byte list"
    and starts :: "'b \<Rightarrow> bool"
    and final :: "'b \<Rightarrow> byte list"
  assumes start_invar: "starts c \<Longrightarrow> invar c"
    and start_view: "starts c \<Longrightarrow> view c = (iv, [])"
    and start_bits: "starts c \<Longrightarrow> bits c = 0"
    and final_out: "invar c \<Longrightarrow>
      final c = out (fst (absorb block compress (fst (view c)) (snd (view c) @ pad (length (snd (view c))) (bits c))))"
begin

lemma digest_pieces:
  assumes "starts c" "list_all fits ps"
  shows "final (foldl update c ps) = padded_digest block compress iv pad out (concat ps)"
proof -
  note c = start_invar [OF assms(1)]
  have pos: "0 < block" using rest_short [OF c] by simp
  note u = updates [OF c assms(2)]
  have v: "view (foldl update c ps) = absorb block compress iv (concat ps)"
    "bits (foldl update c ps) = of_nat (8 * length (concat ps))"
    using u assms(1) by (simp_all add: start_view start_bits)
  show ?thesis
    unfolding final_out [OF u(1)] v padded_digest_def absorb_append [OF pos, of compress iv "concat ps"]
    by (simp add: case_prod_beta absorb_rest [OF pos])
qed

end

end
