(* ===== verification/Sha256.thy ===== *)
theory Sha256
  imports HashStream
begin

text \<open>
  The SHA-256 hash of \<^verbatim>\<open>utility/crypto/hash/sha256.cpp\<close>. The arrays of the context are lists of their length;
  a pointer with a length is the list of the bytes it points to and the length.
\<close>

section \<open>Model\<close>

record sha256_context =
  sha_data :: "byte list"
  datalen :: u32
  bitlen :: u64
  sha_state :: "u32 list"

definition ROTRIGHT :: "u32 \<Rightarrow> nat \<Rightarrow> u32" where
  "ROTRIGHT a b = drop_bit b a OR push_bit (32 - b) a"

definition CH :: "u32 \<Rightarrow> u32 \<Rightarrow> u32 \<Rightarrow> u32" where
  "CH x y z = (x AND y) XOR (NOT x AND z)"

definition MAJ :: "u32 \<Rightarrow> u32 \<Rightarrow> u32 \<Rightarrow> u32" where
  "MAJ x y z = (x AND y) XOR (x AND z) XOR (y AND z)"

definition EP0 :: "u32 \<Rightarrow> u32" where
  "EP0 x = ROTRIGHT x 2 XOR ROTRIGHT x 13 XOR ROTRIGHT x 22"

definition EP1 :: "u32 \<Rightarrow> u32" where
  "EP1 x = ROTRIGHT x 6 XOR ROTRIGHT x 11 XOR ROTRIGHT x 25"

definition SIG0 :: "u32 \<Rightarrow> u32" where
  "SIG0 x = ROTRIGHT x 7 XOR ROTRIGHT x 18 XOR drop_bit 3 x"

definition SIG1 :: "u32 \<Rightarrow> u32" where
  "SIG1 x = ROTRIGHT x 17 XOR ROTRIGHT x 19 XOR drop_bit 10 x"

text \<open>The round constants, row by row as the source lists them.\<close>

definition k256 :: "u32 list" where
  "k256 = concat
    [[0x428a2f98, 0x71374491, 0xb5c0fbcf, 0xe9b5dba5, 0x3956c25b, 0x59f111f1, 0x923f82a4, 0xab1c5ed5],
     [0xd807aa98, 0x12835b01, 0x243185be, 0x550c7dc3, 0x72be5d74, 0x80deb1fe, 0x9bdc06a7, 0xc19bf174],
     [0xe49b69c1, 0xefbe4786, 0x0fc19dc6, 0x240ca1cc, 0x2de92c6f, 0x4a7484aa, 0x5cb0a9dc, 0x76f988da],
     [0x983e5152, 0xa831c66d, 0xb00327c8, 0xbf597fc7, 0xc6e00bf3, 0xd5a79147, 0x06ca6351, 0x14292967],
     [0x27b70a85, 0x2e1b2138, 0x4d2c6dfc, 0x53380d13, 0x650a7354, 0x766a0abb, 0x81c2c92e, 0x92722c85],
     [0xa2bfe8a1, 0xa81a664b, 0xc24b8b70, 0xc76c51a3, 0xd192e819, 0xd6990624, 0xf40e3585, 0x106aa070],
     [0x19a4c116, 0x1e376c08, 0x2748774c, 0x34b0bcb5, 0x391c0cb3, 0x4ed8aa4a, 0x5b9cca4f, 0x682e6ff3],
     [0x748f82ee, 0x78a5636f, 0x84c87814, 0x8cc70208, 0x90befffa, 0xa4506ceb, 0xbef9a3f7, 0xc67178f2]]"

text \<open>The message schedule: sixteen words of the block, then forty-eight computed ones.\<close>

definition load_word :: "byte list \<Rightarrow> nat \<Rightarrow> u32" where
  "load_word d j = push_bit 24 (ucast (d ! j)) OR push_bit 16 (ucast (d ! (j + 1))) OR push_bit 8 (ucast (d ! (j + 2))) OR ucast (d ! (j + 3))"

definition extend_word :: "u32 list \<Rightarrow> nat \<Rightarrow> u32 list" where
  "extend_word m i = m @ [SIG1 (m ! (i - 2)) + m ! (i - 7) + SIG0 (m ! (i - 15)) + m ! (i - 16)]"

definition schedule :: "byte list \<Rightarrow> u32 list" where
  "schedule d = foldl extend_word (map (\<lambda>i. load_word d (4 * i)) [0..<16]) [16..<64]"

type_synonym sha_vars = "u32 \<times> u32 \<times> u32 \<times> u32 \<times> u32 \<times> u32 \<times> u32 \<times> u32"

definition sha256_round :: "u32 list \<Rightarrow> sha_vars \<Rightarrow> nat \<Rightarrow> sha_vars" where
  "sha256_round m v i =
     (case v of (a, b, c, d, e, f, g, h) \<Rightarrow>
        (let t1 = h + EP1 e + CH e f g + k256 ! i + m ! i; t2 = EP0 a + MAJ a b c
         in (t1 + t2, a, b, c, d + t1, e, f, g)))"

text \<open>The chaining value alone, and the function on contexts.\<close>

definition transform :: "u32 list \<Rightarrow> byte list \<Rightarrow> u32 list" where
  "transform s data =
     (case foldl (sha256_round (schedule data)) (s ! 0, s ! 1, s ! 2, s ! 3, s ! 4, s ! 5, s ! 6, s ! 7) [0..<64] of
        (a, b, c, d, e, f, g, h) \<Rightarrow> [s ! 0 + a, s ! 1 + b, s ! 2 + c, s ! 3 + d, s ! 4 + e, s ! 5 + f, s ! 6 + g, s ! 7 + h])"

definition sha256_transform :: "sha256_context \<Rightarrow> byte list \<Rightarrow> sha256_context" where
  "sha256_transform ctx data = ctx\<lparr>sha_state := transform (sha_state ctx) data\<rparr>"

definition sha256_init :: "sha256_context \<Rightarrow> sha256_context" where
  "sha256_init ctx = ctx\<lparr>datalen := 0, bitlen := 0,
     sha_state := [0x6a09e667, 0xbb67ae85, 0x3c6ef372, 0xa54ff53a, 0x510e527f, 0x9b05688c, 0x1f83d9ab, 0x5be0cd19]\<rparr>"

definition update_byte :: "sha256_context \<Rightarrow> byte \<Rightarrow> sha256_context" where
  "update_byte ctx x =
     (let ctx = ctx\<lparr>sha_data := (sha_data ctx)[unat (datalen ctx) := x], datalen := datalen ctx + 1\<rparr> in
      if datalen ctx = 64
      then (let ctx = sha256_transform ctx (sha_data ctx) in ctx\<lparr>bitlen := bitlen ctx + 512, datalen := 0\<rparr>)
      else ctx)"

definition sha256_update :: "sha256_context \<Rightarrow> byte list \<Rightarrow> u32 \<Rightarrow> sha256_context" where
  "sha256_update ctx data len = foldl update_byte ctx (take (unat len) data)"

text \<open>The loops that store zeros up to an index.\<close>

function zero_to :: "nat \<Rightarrow> nat \<Rightarrow> byte list \<Rightarrow> byte list" where
  "zero_to k i data = (if i < k then zero_to k (i + 1) (data[i := 0]) else data)"
  by pat_completeness auto
termination
  by (relation "measure (\<lambda>(k, i, data). k - i)") auto

declare zero_to.simps [simp del]

definition sha256_final :: "sha256_context \<Rightarrow> byte list" where
  "sha256_final ctx =
     (let i = unat (datalen ctx);
          ctx = (if datalen ctx < 56
                 then ctx\<lparr>sha_data := zero_to 56 (i + 1) ((sha_data ctx)[i := 0x80])\<rparr>
                 else (let ctx = ctx\<lparr>sha_data := zero_to 64 (i + 1) ((sha_data ctx)[i := 0x80])\<rparr>;
                           ctx = sha256_transform ctx (sha_data ctx)
                       in ctx\<lparr>sha_data := replicate 56 0 @ drop 56 (sha_data ctx)\<rparr>));
          bitlen = bitlen ctx + ucast (datalen ctx * 8);
          ctx = ctx\<lparr>bitlen := bitlen,
                    sha_data := (sha_data ctx)[63 := ucast bitlen, 62 := ucast (drop_bit 8 bitlen), 61 := ucast (drop_bit 16 bitlen),
                      60 := ucast (drop_bit 24 bitlen), 59 := ucast (drop_bit 32 bitlen), 58 := ucast (drop_bit 40 bitlen),
                      57 := ucast (drop_bit 48 bitlen), 56 := ucast (drop_bit 56 bitlen)]\<rparr>;
          ctx = sha256_transform ctx (sha_data ctx)
      in concat (map (\<lambda>w. map (\<lambda>i. ucast (drop_bit (24 - i * 8) (sha_state ctx ! w) AND 0xff)) [0..<4]) [0..<8]))"

definition sha256 :: "sha256_context \<Rightarrow> byte list \<Rightarrow> u32 \<Rightarrow> byte list" where
  "sha256 ctx message message_len = sha256_final (sha256_update (sha256_init ctx) message message_len)"

text \<open>A context before its initialisation.\<close>

definition sha256_blank :: sha256_context where
  "sha256_blank = \<lparr>sha_data = replicate 64 0, datalen = 0, bitlen = 0, sha_state = []\<rparr>"

section \<open>Contexts and messages\<close>

definition sha256_iv :: "u32 list" where
  "sha256_iv = [0x6a09e667, 0xbb67ae85, 0x3c6ef372, 0xa54ff53a, 0x510e527f, 0x9b05688c, 0x1f83d9ab, 0x5be0cd19]"

definition sha_ok :: "sha256_context \<Rightarrow> bool" where
  "sha_ok c \<longleftrightarrow> length (sha_data c) = 64 \<and> unat (datalen c) < 64 \<and> length (sha_state c) = 8"

definition sha_view :: "sha256_context \<Rightarrow> u32 list \<times> byte list" where
  "sha_view c = (sha_state c, take (unat (datalen c)) (sha_data c))"

definition sha_bits :: "sha256_context \<Rightarrow> u64" where
  "sha_bits c = bitlen c + of_nat (8 * unat (datalen c))"

lemma length_transform [simp]: "length (transform s d) = 8"
  by (simp add: transform_def split: prod.split)

lemma update_byte_view:
  assumes "sha_ok c"
  shows "sha_ok (update_byte c x) \<and> sha_bits (update_byte c x) = sha_bits c + 8 \<and>
    sha_view (update_byte c x) = absorb 64 transform (fst (sha_view c)) (snd (sha_view c) @ [x])"
proof -
  let ?n = "unat (datalen c)" and ?d = "sha_data c"
  have n: "?n < 64" "length ?d = 64" using assms by (simp_all add: sha_ok_def)
  have inc: "unat (datalen c + 1) = Suc ?n" using n(1) by (intro unat_inc [of _ 64]) (simp add: word_less_nat_alt)
  have full: "datalen c + 1 = 64 \<longleftrightarrow> Suc ?n = 64" unfolding word_unat_eq_iff inc by simp
  have t: "take (Suc ?n) (?d[?n := x]) = take ?n ?d @ [x]" using n by (simp add: take_update_Suc)
  show ?thesis
  proof (cases "Suc ?n = 64")
    case True
    then have d: "take ?n ?d @ [x] = ?d[?n := x]" using t n by simp
    have "absorb 64 transform (sha_state c) (take ?n ?d @ [x]) = (transform (sha_state c) (?d[?n := x]), [])"
      using absorb_block [of 64 "?d[?n := x]" transform "sha_state c" "[]"] n d by (simp add: absorb_short)
    moreover have "?n = 63" using True by simp
    then have "(of_nat (8 * ?n) :: u64) + 8 = 512" by (simp only:) simp
    ultimately show ?thesis
      using True full n by (simp add: update_byte_def sha256_transform_def sha_ok_def sha_view_def sha_bits_def Let_def)
  next
    case False
    then have "absorb 64 transform (sha_state c) (take ?n ?d @ [x]) = (sha_state c, take ?n ?d @ [x])"
      using n by (intro absorb_short) simp
    then show ?thesis
      using False full n t inc assms
      by (simp add: update_byte_def sha_ok_def sha_view_def sha_bits_def algebra_simps Let_def)
  qed
qed

lemma update_bytes_view:
  "sha_ok c \<Longrightarrow> sha_ok (foldl update_byte c xs) \<and> sha_bits (foldl update_byte c xs) = sha_bits c + of_nat (8 * length xs) \<and>
    sha_view (foldl update_byte c xs) = absorb 64 transform (fst (sha_view c)) (snd (sha_view c) @ xs)"
proof (induction xs arbitrary: c)
  case Nil
  then have "length (snd (sha_view c)) < 64" by (simp add: sha_ok_def sha_view_def)
  with Nil show ?case by (simp add: absorb_short)
next
  case (Cons x xs)
  note u = update_byte_view [OF Cons.prems, of x]
  have "absorb 64 transform (fst (sha_view c)) ((snd (sha_view c) @ [x]) @ xs) =
      absorb 64 transform (fst (sha_view (update_byte c x))) (snd (sha_view (update_byte c x)) @ xs)"
    using u by (subst absorb_append) (simp_all add: case_prod_beta)
  then show ?case using Cons.IH [of "update_byte c x"] u by (simp add: algebra_simps)
qed

section \<open>Padding\<close>

lemma zero_to_eq: "i \<le> k \<Longrightarrow> k \<le> length d \<Longrightarrow> zero_to k i d = take i d @ replicate (k - i) 0 @ drop k d"
proof (induction k i d rule: zero_to.induct)
  case (1 k i d)
  show ?case
  proof (cases "i < k")
    case True
    have "zero_to k i d = zero_to k (i + 1) (d[i := 0])" using True by (subst zero_to.simps) simp
    also have "\<dots> = take (Suc i) (d[i := 0]) @ replicate (k - Suc i) 0 @ drop k (d[i := 0])"
      using 1 True by simp
    also have "\<dots> = take i d @ replicate (k - i) 0 @ drop k d"
      using True 1(3) by (simp add: take_update_Suc Suc_diff_Suc flip: replicate_Suc)
    finally show ?thesis .
  qed (use 1 zero_to.simps [of k i d] in simp)
qed

lemma store_bits:
  assumes "length d = 64"
  shows "d[63 := ucast b, 62 := ucast (drop_bit 8 b), 61 := ucast (drop_bit 16 b), 60 := ucast (drop_bit 24 b),
    59 := ucast (drop_bit 32 b), 58 := ucast (drop_bit 40 b), 57 := ucast (drop_bit 48 b), 56 := ucast (drop_bit 56 b)] =
    take 56 d @ be64 b"
proof -
  obtain r where r: "d = take 56 d @ r" "length r = 8" using assms by (intro that [of "drop 56 d"]) simp_all
  obtain a0 a1 a2 a3 a4 a5 a6 a7 where e: "r = [a0, a1, a2, a3, a4, a5, a6, a7]"
    using r(2) by (auto simp: numeral_eq_Suc length_Suc_conv)
  show ?thesis
    by (subst r(1)) (simp add: e list_update_append assms be64_def upt_rec)
qed

lemma ucast_times_8: "unat d < 64 \<Longrightarrow> (ucast (d * 8 :: u32) :: u64) = of_nat (8 * unat d)"
proof -
  assume d: "unat d < 64"
  have "unat (d * 8) = unat d * 8" using d by (subst unat_word_ariths(2)) simp
  then have "(of_nat (unat (d * 8)) :: u64) = of_nat (8 * unat d)" by (simp only: mult.commute)
  then show ?thesis by simp
qed

lemma datalen_small: "unat (d :: u32) < 56 \<Longrightarrow> d < 56" "\<not> unat d < 56 \<Longrightarrow> \<not> d < 56"
  by (simp_all add: word_less_nat_alt)

lemma pad_block:
  "n < k \<Longrightarrow> k \<le> length d \<Longrightarrow> zero_to k (Suc n) (d[n := v]) = (take n d @ v # replicate (k - Suc n) 0) @ drop k d"
  by (simp add: zero_to_eq take_update_Suc)

lemma digest_bytes:
  assumes "length s = 8"
  shows "concat (map (\<lambda>w. map (\<lambda>i. ucast (drop_bit (24 - i * 8) (s ! w) AND 0xff)) [0..<4]) [0..<8]) = words_out s"
proof -
  have "map (\<lambda>i. ucast (drop_bit (24 - i * 8) w AND 0xff)) [0..<4] = be32 w" for w :: u32
    by (simp add: be32_def upt_rec ucast_low_byte)
  moreover have "map (\<lambda>w. be32 (s ! w)) [0..<8] = map be32 s"
    using arg_cong [OF map_nth [of s], of "map be32"] assms by (simp add: comp_def)
  ultimately show ?thesis by (simp add: words_out_def comp_def)
qed

lemma final_padding:
  assumes "sha_ok c"
  shows "sha256_final c = words_out (fst (absorb 64 transform (fst (sha_view c))
    (snd (sha_view c) @ pad64 (length (snd (sha_view c))) (sha_bits c))))"
proof -
  let ?n = "unat (datalen c)" and ?s = "sha_state c"
  define r where "r = take ?n (sha_data c)"
  define b where "b = bitlen c + ucast (datalen c * 8)"
  have n: "?n < 64" "length (sha_data c) = 64" "length ?s = 8" "length r = ?n" using assms by (simp_all add: sha_ok_def r_def)
  have b: "sha_bits c = b" using n(1) by (simp add: b_def sha_bits_def ucast_times_8)
  have "sha256_final c = words_out (fst (absorb 64 transform ?s (r @ pad64 ?n b)))"
  proof (cases "?n < 56")
    case True
    define A where "A = r @ 0x80 # replicate (55 - ?n) 0"
    have A: "length A = 56" using True n by (simp add: A_def)
    have d: "zero_to 56 (Suc ?n) ((sha_data c)[?n := 0x80]) = A @ drop 56 (sha_data c)"
      using True n by (simp add: pad_block A_def r_def)
    have "absorb 64 transform ?s (r @ pad64 ?n b) = (transform ?s (A @ be64 b), [])"
      using absorb_block [of 64 "A @ be64 b" transform ?s "[]"] A mod_pad(1) [OF True]
      by (simp add: pad64_def A_def absorb_short)
    moreover have "sha256_final c = words_out (transform ?s (A @ be64 b))"
      using True n A by (simp add: sha256_final_def Let_def datalen_small sha256_transform_def d store_bits digest_bytes flip: b_def)
    ultimately show ?thesis by simp
  next
    case False
    define B where "B = r @ 0x80 # replicate (63 - ?n) 0"
    have B: "length B = 64" using False n by (simp add: B_def)
    have d: "zero_to 64 (Suc ?n) ((sha_data c)[?n := 0x80]) = B"
      using False n by (simp add: pad_block B_def r_def)
    have "replicate (119 - ?n) (0 :: byte) = replicate (63 - ?n) 0 @ replicate 56 0"
      using n False by (simp flip: replicate_add)
    then have "r @ pad64 ?n b = B @ (replicate 56 0 @ be64 b)"
      using mod_pad(2) [OF False n(1)] by (simp add: pad64_def B_def)
    then have "absorb 64 transform ?s (r @ pad64 ?n b) = (transform (transform ?s B) (replicate 56 0 @ be64 b), [])"
      using absorb_block [of 64 B transform ?s "replicate 56 0 @ be64 b"] B
        absorb_block [of 64 "replicate 56 0 @ be64 b" transform "transform ?s B" "[]"] by (simp add: absorb_short)
    moreover have "sha256_final c = words_out (transform (transform ?s B) (replicate 56 0 @ be64 b))"
      using False n B by (simp add: sha256_final_def Let_def datalen_small sha256_transform_def d store_bits digest_bytes flip: b_def)
    ultimately show ?thesis by simp
  qed
  then show ?thesis using n b by (simp add: sha_view_def r_def)
qed

definition sha_started :: "sha256_context \<Rightarrow> bool" where
  "sha_started c \<longleftrightarrow> (\<exists>ctx. length (sha_data ctx) = 64 \<and> c = sha256_init ctx)"

interpretation sha: stream_hash 64 transform sha_ok sha_view sha_bits "\<lambda>xs. length xs < 2 ^ 32"
  "\<lambda>c xs. sha256_update c xs (of_nat (length xs))" sha256_iv pad64 words_out sha_started sha256_final
proof
  fix c xs assume c: "sha_ok c" and "length (xs :: byte list) < 2 ^ 32"
  then have "sha256_update c xs (of_nat (length xs)) = foldl update_byte c xs"
    by (simp add: sha256_update_def unat_of_nat_small)
  then show "sha_ok (sha256_update c xs (of_nat (length xs)))"
    "sha_view (sha256_update c xs (of_nat (length xs))) = absorb 64 transform (fst (sha_view c)) (snd (sha_view c) @ xs)"
    "sha_bits (sha256_update c xs (of_nat (length xs))) = sha_bits c + of_nat (8 * length xs)"
    using update_bytes_view [OF c, of xs] by simp_all
qed (rule final_padding | simp add: sha_started_def sha256_init_def sha_ok_def sha_view_def sha_bits_def sha256_iv_def;
     elim exE conjE; simp)+

definition sha256_digest :: "byte list \<Rightarrow> byte list" where
  "sha256_digest = padded_digest 64 transform sha256_iv pad64 words_out"

lemma length_sha256_digest: "length (sha256_digest m) = 32"
  using absorb_invariant [of "\<lambda>s. length s = 8" transform]
  by (simp add: sha256_digest_def padded_digest_def length_words_out sha256_iv_def)

section \<open>Properties\<close>

text \<open>
  C14. Hashing a message in any pieces, each shorter than \<open>2 ^ 32\<close> bytes and with the context initialised before
  the first one, gives the digest of the standard: the bytes of the chaining value after compressing the blocks of
  the message followed by a one bit, zeros and its length in bits, modulo \<open>2 ^ 64\<close>. The digest has 32 bytes, and
  the padded message consists of whole blocks.
\<close>

theorem sha256_pieces:
  assumes "length (sha_data ctx) = 64" and "\<forall>p \<in> set ps. length p < 2 ^ 32"
  shows "sha256_final (foldl (\<lambda>c p. sha256_update c p (of_nat (length p))) (sha256_init ctx) ps) = sha256_digest (concat ps) \<and>
    length (sha256_digest (concat ps)) = 32 \<and>
    (length m < 2 ^ 32 \<longrightarrow> sha256 ctx m (of_nat (length m)) = sha256_digest m) \<and>
    64 dvd length (m @ pad64 (length m mod 64) (of_nat (8 * length m)))"
proof (intro conjI impI)
  have s: "sha_started (sha256_init ctx)" using assms(1) by (auto simp: sha_started_def)
  then show "sha256_final (foldl (\<lambda>c p. sha256_update c p (of_nat (length p))) (sha256_init ctx) ps) = sha256_digest (concat ps)"
    unfolding sha256_digest_def using assms(2) by (intro sha.digest_pieces) (simp_all add: list_all_iff)
  show "sha256 ctx m (of_nat (length m)) = sha256_digest m" if "length m < 2 ^ 32"
    using sha.digest_pieces [OF s, of "[m]"] that by (simp add: sha256_def sha256_digest_def)
  show "64 dvd length (m @ pad64 (length m mod 64) (of_nat (8 * length m)))"
    using padded_whole [of "length m"] by (simp add: pad64_def dvd_eq_mod_eq_0 algebra_simps)
qed (rule length_sha256_digest)

text \<open>The test vector of the standard.\<close>

lemma sha256_abc:
  "sha256 sha256_blank [97, 98, 99] 3 =
    [0xba, 0x78, 0x16, 0xbf, 0x8f, 0x01, 0xcf, 0xea, 0x41, 0x41, 0x40, 0xde, 0x5d, 0xae, 0x22, 0x23,
     0xb0, 0x03, 0x61, 0xa3, 0x96, 0x17, 0x7a, 0x9c, 0xb4, 0x10, 0xff, 0x61, 0xf2, 0x00, 0x15, 0xad]"
  by code_simp

theorem sha256_pieces_witness:
  "sha256_final (sha256_update (sha256_update (sha256_init sha256_blank) [97] 1) [98, 99] 2) =
    [0xba, 0x78, 0x16, 0xbf, 0x8f, 0x01, 0xcf, 0xea, 0x41, 0x41, 0x40, 0xde, 0x5d, 0xae, 0x22, 0x23,
     0xb0, 0x03, 0x61, 0xa3, 0x96, 0x17, 0x7a, 0x9c, 0xb4, 0x10, 0xff, 0x61, 0xf2, 0x00, 0x15, 0xad]"
proof -
  have h: "length (sha_data sha256_blank) = 64" "\<forall>p \<in> set [[97], [98, 99 :: byte]]. length p < 2 ^ 32"
    by (simp_all add: sha256_blank_def)
  show ?thesis using sha256_pieces [OF h, of "[97, 98, 99]"] by (simp add: sha256_abc)
qed

end
