(* ===== verification/Sha1.thy ===== *)
theory Sha1
  imports HashStream
begin

text \<open>
  The SHA-1 hash of \<^verbatim>\<open>utility/crypto/hash/sha1.cpp\<close> and the message authentication code of
  \<^verbatim>\<open>utility/crypto/hmac/hmac_sha1.h\<close>, for a little-endian processor. The arrays of the context are lists of
  their length; a pointer with a length is the list of the bytes it points to and the length.
\<close>

section \<open>Model\<close>

record SHA1_CTX =
  h_state :: "u32 list"
  h_count0 :: u32
  h_count1 :: u32
  h_buffer :: "byte list"

definition rol :: "u32 \<Rightarrow> nat \<Rightarrow> u32" where
  "rol v n = push_bit n v OR drop_bit (32 - n) v"

text \<open>The sixteen words of the block are loaded in the byte order of the processor and replaced as they are used.\<close>

definition le_word :: "byte list \<Rightarrow> nat \<Rightarrow> u32" where
  "le_word d j = ucast (d ! j) OR push_bit 8 (ucast (d ! (j + 1))) OR push_bit 16 (ucast (d ! (j + 2))) OR push_bit 24 (ucast (d ! (j + 3)))"

definition blk0 :: "u32 list \<Rightarrow> nat \<Rightarrow> u32 \<times> u32 list" where
  "blk0 block i =
     (let w = (rol (block ! i) 24 AND 0xFF00FF00) OR (rol (block ! i) 8 AND 0x00FF00FF) in (w, block[i := w]))"

definition blk :: "u32 list \<Rightarrow> nat \<Rightarrow> u32 \<times> u32 list" where
  "blk block i =
     (let w = rol (block ! ((i + 13) mod 16) XOR block ! ((i + 8) mod 16) XOR block ! ((i + 2) mod 16) XOR block ! (i mod 16)) 1
      in (w, block[i mod 16 := w]))"

text \<open>
  The rounds. Each of the macros changes its fifth and its second variable, and the next one is called with the
  variables shifted by one place, so a tuple in the order of the macro's arguments is shifted after every round;
  after eighty rounds it is in the order of the declaration again.
\<close>

type_synonym sha1_vars = "u32 \<times> u32 \<times> u32 \<times> u32 \<times> u32"

definition mix :: "(u32 \<Rightarrow> u32 \<Rightarrow> u32 \<Rightarrow> u32) \<Rightarrow> u32 \<Rightarrow> u32 \<Rightarrow> sha1_vars \<Rightarrow> sha1_vars" where
  "mix f k b vars = (case vars of (v, w, x, y, z) \<Rightarrow> (z + f w x y + b + k + rol v 5, v, rol w 30, x, y))"

definition R0 :: "nat \<Rightarrow> sha1_vars \<times> u32 list \<Rightarrow> sha1_vars \<times> u32 list" where
  "R0 i st = (let (b, block) = blk0 (snd st) i in (mix (\<lambda>w x y. (w AND (x XOR y)) XOR y) 0x5A827999 b (fst st), block))"

definition R1 :: "nat \<Rightarrow> sha1_vars \<times> u32 list \<Rightarrow> sha1_vars \<times> u32 list" where
  "R1 i st = (let (b, block) = blk (snd st) i in (mix (\<lambda>w x y. (w AND (x XOR y)) XOR y) 0x5A827999 b (fst st), block))"

definition R2 :: "nat \<Rightarrow> sha1_vars \<times> u32 list \<Rightarrow> sha1_vars \<times> u32 list" where
  "R2 i st = (let (b, block) = blk (snd st) i in (mix (\<lambda>w x y. w XOR x XOR y) 0x6ED9EBA1 b (fst st), block))"

definition R3 :: "nat \<Rightarrow> sha1_vars \<times> u32 list \<Rightarrow> sha1_vars \<times> u32 list" where
  "R3 i st = (let (b, block) = blk (snd st) i in (mix (\<lambda>w x y. ((w OR x) AND y) OR (w AND x)) 0x8F1BBCDC b (fst st), block))"

definition R4 :: "nat \<Rightarrow> sha1_vars \<times> u32 list \<Rightarrow> sha1_vars \<times> u32 list" where
  "R4 i st = (let (b, block) = blk (snd st) i in (mix (\<lambda>w x y. w XOR x XOR y) 0xCA62C1D6 b (fst st), block))"

definition SHA1Transform :: "u32 list \<Rightarrow> byte list \<Rightarrow> u32 list" where
  "SHA1Transform s buffer =
     (let st = ((s ! 0, s ! 1, s ! 2, s ! 3, s ! 4), map (\<lambda>i. le_word buffer (4 * i)) [0..<16]);
          st = fold R0 [0..<16] st; st = fold R1 [16..<20] st; st = fold R2 [20..<40] st;
          st = fold R3 [40..<60] st; st = fold R4 [60..<80] st
      in case fst st of (a, b, c, d, e) \<Rightarrow> [s ! 0 + a, s ! 1 + b, s ! 2 + c, s ! 3 + d, s ! 4 + e])"

definition SHA1Init :: "SHA1_CTX \<Rightarrow> SHA1_CTX" where
  "SHA1Init ctx = ctx\<lparr>h_state := [0x67452301, 0xEFCDAB89, 0x98BADCFE, 0x10325476, 0xC3D2E1F0], h_count0 := 0, h_count1 := 0\<rparr>"

text \<open>\<open>put_at d j xs\<close> is the copy of \<open>xs\<close> to position \<open>j\<close> of a buffer.\<close>

definition put_at :: "byte list \<Rightarrow> nat \<Rightarrow> byte list \<Rightarrow> byte list" where
  "put_at d j xs = take j d @ xs @ drop (j + length xs) d"

function whole_blocks :: "u32 list \<Rightarrow> byte list \<Rightarrow> nat \<Rightarrow> nat \<Rightarrow> u32 list \<times> nat" where
  "whole_blocks s data len i =
     (if i + 63 < len then whole_blocks (SHA1Transform s (take 64 (drop i data))) data len (i + 64) else (s, i))"
  by pat_completeness auto
termination
  by (relation "measure (\<lambda>(s, data, len, i). len - i)") auto

declare whole_blocks.simps [simp del]

text \<open>
  The sum \<^verbatim>\<open>j + len\<close> and the loop bound \<^verbatim>\<open>i + 63\<close> are taken modulo \<open>2 ^ 32\<close> by the code; the first is written
  out, the second stays below \<^verbatim>\<open>len + 63\<close> and the model is meant for lengths where it does not wrap.
\<close>

definition SHA1Update :: "SHA1_CTX \<Rightarrow> byte list \<Rightarrow> u32 \<Rightarrow> SHA1_CTX" where
  "SHA1Update ctx data len =
     (let j = h_count0 ctx;
          c0 = j + push_bit 3 len;
          c1 = (if c0 < j then h_count1 ctx + 1 else h_count1 ctx) + drop_bit 29 len;
          ctx = ctx\<lparr>h_count0 := c0, h_count1 := c1\<rparr>;
          j = drop_bit 3 j AND 63;
          (ctx, i, j) =
            (if j + len > 63
             then (let i = 64 - unat j;
                       ctx = ctx\<lparr>h_buffer := put_at (h_buffer ctx) (unat j) (take i data)\<rparr>;
                       (s, i) = whole_blocks (SHA1Transform (h_state ctx) (h_buffer ctx)) data (unat len) i
                   in (ctx\<lparr>h_state := s\<rparr>, i, 0))
             else (ctx, 0, j))
      in ctx\<lparr>h_buffer := put_at (h_buffer ctx) (unat j) (take (unat len - i) (drop i data))\<rparr>)"

text \<open>The loop that appends zero bytes ends when the length has reached its last eight bytes; it has fuel.\<close>

fun pad_zeros :: "nat \<Rightarrow> SHA1_CTX \<Rightarrow> SHA1_CTX option" where
  "pad_zeros 0 ctx = None"
| "pad_zeros (Suc n) ctx = (if h_count0 ctx AND 504 \<noteq> 448 then pad_zeros n (SHA1Update ctx [0] 1) else Some ctx)"

definition finalcount :: "SHA1_CTX \<Rightarrow> byte list" where
  "finalcount ctx = map (\<lambda>i. ucast (drop_bit ((3 - i mod 4) * 8) (if i \<ge> 4 then h_count0 ctx else h_count1 ctx) AND 255)) [0..<8]"

definition SHA1Final :: "nat \<Rightarrow> SHA1_CTX \<Rightarrow> byte list option" where
  "SHA1Final fuel ctx =
     (let fc = finalcount ctx in
      case pad_zeros fuel (SHA1Update ctx [0x80] 1) of
        None \<Rightarrow> None
      | Some ctx \<Rightarrow>
          (let ctx = SHA1Update ctx fc 8
           in Some (map (\<lambda>i. ucast (drop_bit ((3 - i mod 4) * 8) (h_state ctx ! (i div 4)) AND 255)) [0..<20])))"

definition SHA1 :: "nat \<Rightarrow> SHA1_CTX \<Rightarrow> byte list \<Rightarrow> u32 \<Rightarrow> byte list option" where
  "SHA1 fuel ctx str len = SHA1Final fuel (foldl (\<lambda>c x. SHA1Update c [x] 1) (SHA1Init ctx) (take (unat len) str))"

definition hmac_sha1 :: "nat \<Rightarrow> SHA1_CTX \<Rightarrow> byte list \<Rightarrow> byte list \<Rightarrow> byte list option" where
  "hmac_sha1 fuel ctx key data =
     (case (if length key > 64 then SHA1 fuel ctx key (of_nat (length key)) else Some key) of
        None \<Rightarrow> None
      | Some key \<Rightarrow>
          (let pad = key @ replicate (64 - length key) 0; k_ipad = map (\<lambda>b. b XOR 0x36) pad; k_opad = map (\<lambda>b. b XOR 0x5c) pad in
           case SHA1 fuel ctx (k_ipad @ data) (64 + of_nat (length data)) of
             None \<Rightarrow> None
           | Some temp \<Rightarrow> SHA1 fuel ctx (k_opad @ temp) (64 + 20)))"

section \<open>The compression function of the standard\<close>

definition be_word :: "byte list \<Rightarrow> nat \<Rightarrow> u32" where
  "be_word d j = push_bit 24 (ucast (d ! j)) OR push_bit 16 (ucast (d ! (j + 1))) OR push_bit 8 (ucast (d ! (j + 2))) OR ucast (d ! (j + 3))"

function W :: "byte list \<Rightarrow> nat \<Rightarrow> u32" where
  "W d t = (if t < 16 then be_word d (4 * t) else rol (W d (t - 3) XOR W d (t - 8) XOR W d (t - 14) XOR W d (t - 16)) 1)"
  by pat_completeness auto
termination
  by (relation "measure snd") auto

declare W.simps [simp del]

definition Ch :: "u32 \<Rightarrow> u32 \<Rightarrow> u32 \<Rightarrow> u32" where
  "Ch x y z = (x AND y) XOR (NOT x AND z)"

definition Parity :: "u32 \<Rightarrow> u32 \<Rightarrow> u32 \<Rightarrow> u32" where
  "Parity x y z = x XOR y XOR z"

definition Maj :: "u32 \<Rightarrow> u32 \<Rightarrow> u32 \<Rightarrow> u32" where
  "Maj x y z = (x AND y) XOR (x AND z) XOR (y AND z)"

definition standard_round :: "byte list \<Rightarrow> nat \<Rightarrow> sha1_vars \<Rightarrow> sha1_vars" where
  "standard_round d t v =
     (let (f, k) = (if t < 20 then (Ch, 0x5A827999) else if t < 40 then (Parity, 0x6ED9EBA1)
                    else if t < 60 then (Maj, 0x8F1BBCDC) else (Parity, 0xCA62C1D6));
          (a, b, c, d', e) = v
      in (rol a 5 + f b c d' + e + k + W d t, a, rol b 30, c, d'))"

definition sha1_compress :: "u32 list \<Rightarrow> byte list \<Rightarrow> u32 list" where
  "sha1_compress s d =
     (case fold (standard_round d) [0..<80] (s ! 0, s ! 1, s ! 2, s ! 3, s ! 4) of
        (a, b, c, d', e) \<Rightarrow> [s ! 0 + a, s ! 1 + b, s ! 2 + c, s ! 3 + d', s ! 4 + e])"

lemma choice_forms: "(w AND (x XOR y)) XOR y = Ch w x y" "((w OR x) AND y) OR (w AND x) = Maj w x y"
  by (rule bit_word_eqI, auto simp: Ch_def Maj_def bit_simps)+

lemma bit_byte: "bit (ucast (a :: byte) :: u32) n \<longleftrightarrow> n < 8 \<and> bit a n"
  by (auto simp: bit_simps dest: bit_imp_le_length)

lemma byte_masks:
  "(0xFF00FF00 :: u32) = push_bit 24 (mask 8) OR push_bit 8 (mask 8)" "(0x00FF00FF :: u32) = push_bit 16 (mask 8) OR mask 8"
  by code_simp+

lemma swap_word:
  fixes a b c e :: byte
  defines "l \<equiv> (ucast a OR push_bit 8 (ucast b) OR push_bit 16 (ucast c) OR push_bit 24 (ucast e) :: u32)"
  shows "(rol l 24 AND 0xFF00FF00) OR (rol l 8 AND 0x00FF00FF) =
    push_bit 24 (ucast a) OR push_bit 16 (ucast b) OR push_bit 8 (ucast c) OR ucast e"
  unfolding byte_masks
proof (rule bit_word_eqI)
  fix n assume n: "n < LENGTH(32)"
  note bits = rol_def l_def bit_or_iff bit_and_iff bit_push_bit_iff bit_drop_bit_eq bit_byte bit_mask_iff
  consider "n < 8" | "8 \<le> n \<and> n < 16" | "16 \<le> n \<and> n < 24" | "24 \<le> n" by linarith
  then show "bit ((rol l 24 AND (push_bit 24 (mask 8) OR push_bit 8 (mask 8))) OR (rol l 8 AND (push_bit 16 (mask 8) OR mask 8))) n =
      bit (push_bit 24 (ucast a) OR push_bit 16 (ucast b) OR push_bit 8 (ucast c) OR ucast e :: u32) n"
    using n by cases (auto simp: bits less_diff_conv2)
qed

text \<open>The block array holds the words of the schedule that later rounds need.\<close>

definition block_ok :: "byte list \<Rightarrow> nat \<Rightarrow> u32 list \<Rightarrow> bool" where
  "block_ok d i block \<longleftrightarrow> length block = 16 \<and> (\<forall>t < i. i \<le> t + 16 \<longrightarrow> block ! (t mod 16) = W d t) \<and>
     (\<forall>t < 16. i \<le> t \<longrightarrow> block ! t = le_word d (4 * t))"

lemma mod_16_differ: "t < i \<Longrightarrow> Suc i \<le> t + 16 \<Longrightarrow> i mod 16 \<noteq> t mod (16 :: nat)"
proof
  assume "t < i" "Suc i \<le> t + 16" "i mod 16 = t mod 16"
  then have "16 dvd i - t" by (metis mod_eq_dvd_iff_nat less_imp_le)
  then show False using \<open>t < i\<close> \<open>Suc i \<le> t + 16\<close> by (auto dest: dvd_imp_le)
qed

lemma block_ok_store:
  assumes "block_ok d i block"
  shows "block_ok d (Suc i) (block[i mod 16 := W d i])"
  using assms mod_16_differ by (auto simp: block_ok_def nth_list_update less_Suc_eq)

lemma blk0_W: "block_ok d i block \<Longrightarrow> i < 16 \<Longrightarrow> blk0 block i = (W d i, block[i mod 16 := W d i])"
  using swap_word [of "d ! (4 * i)" "d ! (4 * i + 1)" "d ! (4 * i + 2)" "d ! (4 * i + 3)"]
  by (simp add: blk0_def block_ok_def W.simps [of d i] be_word_def le_word_def Let_def)

lemma blk_W:
  assumes "block_ok d i block" "16 \<le> i"
  shows "blk block i = (W d i, block[i mod 16 := W d i])"
proof -
  have ix: "(i + 13) mod 16 = (i - 3) mod 16" "(i + 8) mod 16 = (i - 8) mod 16" "(i + 2) mod 16 = (i - 14) mod 16"
    "i mod 16 = (i - 16) mod 16"
    using assms(2) mod_add_self2 [of "i - 3" 16] mod_add_self2 [of "i - 8" 16] mod_add_self2 [of "i - 14" 16] mod_add_self2 [of "i - 16" 16]
    by (simp_all add: add.commute)
  have "block ! ((i - k) mod 16) = W d (i - k)" if "0 < k" "k \<le> 16" for k
    using assms that by (auto simp: block_ok_def)
  then show ?thesis
    unfolding blk_def ix(1,2,3) using ix(4) W.simps [of d i] assms(2) by (simp add: Let_def)
qed

definition rounds_ok :: "byte list \<Rightarrow> sha1_vars \<Rightarrow> nat \<Rightarrow> sha1_vars \<times> u32 list \<Rightarrow> bool" where
  "rounds_ok d v i st \<longleftrightarrow> fst st = fold (standard_round d) [0..<i] v \<and> block_ok d i (snd st)"

lemma round_step:
  assumes "rounds_ok d v i st"
  shows "i < 16 \<Longrightarrow> rounds_ok d v (Suc i) (R0 i st)" "16 \<le> i \<Longrightarrow> i < 20 \<Longrightarrow> rounds_ok d v (Suc i) (R1 i st)"
    "20 \<le> i \<Longrightarrow> i < 40 \<Longrightarrow> rounds_ok d v (Suc i) (R2 i st)" "40 \<le> i \<Longrightarrow> i < 60 \<Longrightarrow> rounds_ok d v (Suc i) (R3 i st)"
    "60 \<le> i \<Longrightarrow> rounds_ok d v (Suc i) (R4 i st)"
  using assms block_ok_store [of d i "snd st"] blk0_W [of d i "snd st"] blk_W [of d i "snd st"]
  by (simp_all add: rounds_ok_def R0_def R1_def R2_def R3_def R4_def mix_def standard_round_def choice_forms Parity_def Ch_def
      algebra_simps split: prod.split)

lemma round_loop:
  assumes "\<And>i st. n \<le> i \<Longrightarrow> i < m \<Longrightarrow> rounds_ok d v i st \<Longrightarrow> rounds_ok d v (Suc i) (R i st)" "n \<le> m"
  shows "rounds_ok d v n st \<Longrightarrow> rounds_ok d v m (fold R [n..<m] st)"
  using assms(2,1)
proof (induction m rule: nat_induct_at_least)
  case (Suc m)
  then show ?case by simp
qed simp

lemma SHA1Transform_standard: "SHA1Transform s d = sha1_compress s d"
proof -
  let ?v = "(s ! 0, s ! 1, s ! 2, s ! 3, s ! 4)"
  have "rounds_ok d ?v 0 (?v, map (\<lambda>i. le_word d (4 * i)) [0..<16])" by (simp add: rounds_ok_def block_ok_def)
  then have "rounds_ok d ?v 16 (fold R0 [0..<16] (?v, map (\<lambda>i. le_word d (4 * i)) [0..<16]))"
    by (intro round_loop round_step) auto
  note round_loop [of 16 20 d ?v R1, OF round_step(2) _ this]
  note round_loop [of 20 40 d ?v R2, OF round_step(3) _ this]
  note round_loop [of 40 60 d ?v R3, OF round_step(4) _ this]
  note round_loop [of 60 80 d ?v R4, OF round_step(5) _ this]
  then show ?thesis by (simp add: SHA1Transform_def sha1_compress_def rounds_ok_def Let_def)
qed

section \<open>Contexts and messages\<close>

definition used :: "SHA1_CTX \<Rightarrow> nat" where
  "used c = unat (h_count0 c) div 8 mod 64"

definition h_ok :: "SHA1_CTX \<Rightarrow> bool" where
  "h_ok c \<longleftrightarrow> length (h_buffer c) = 64 \<and> length (h_state c) = 5"

definition h_view :: "SHA1_CTX \<Rightarrow> u32 list \<times> byte list" where
  "h_view c = (h_state c, take (used c) (h_buffer c))"

definition h_bits :: "SHA1_CTX \<Rightarrow> u64" where
  "h_bits c = of_nat (unat (h_count1 c) * 2 ^ 32 + unat (h_count0 c))"

lemma used_word: "unat (drop_bit 3 (h_count0 c) AND 63) = used c"
proof -
  have "(63 :: u32) = mask 6" by (simp add: mask_eq_exp_minus_1)
  then have "drop_bit 3 (h_count0 c) AND 63 = take_bit 6 (drop_bit 3 (h_count0 c))" by (simp only: take_bit_eq_mask)
  then show ?thesis
    by (simp only: unsigned_take_bit_eq unat_drop_bit_eq used_def) (simp add: drop_bit_eq_div take_bit_eq_mod)
qed

lemma length_SHA1Transform [simp]: "length (SHA1Transform s d) = 5"
  by (simp add: SHA1Transform_def Let_def split: prod.split)

text \<open>The two words count the bits, with a carry.\<close>

lemma count_carry:
  fixes c0 c1 len :: nat
  assumes "c0 < 2 ^ 32" "len < 2 ^ 32"
  defines "n0 \<equiv> (c0 + (8 * len) mod 2 ^ 32) mod 2 ^ 32"
  shows "(c1 + (if n0 < c0 then 1 else 0) + len div 2 ^ 29) * 2 ^ 32 + n0 = c1 * 2 ^ 32 + c0 + 8 * len"
proof -
  have "8 * len = (len div 2 ^ 29) * 2 ^ 32 + (8 * len) mod 2 ^ 32"
    using div_mult_mod_eq [of "8 * len" "2 ^ 32"] by (simp add: div_mult2_eq [symmetric, of _ _ 8] )
  moreover have "(8 * len) mod 2 ^ 32 < 2 ^ 32" by simp
  moreover have "n0 = (if c0 + (8 * len) mod 2 ^ 32 < 2 ^ 32 then c0 + (8 * len) mod 2 ^ 32 else c0 + (8 * len) mod 2 ^ 32 - 2 ^ 32)"
    using assms(1) calculation(2) by (simp add: n0_def mod_if [of "c0 + _"])
  ultimately show ?thesis using assms(1) by (auto simp: algebra_simps)
qed

lemma used_mod: "(x mod 2 ^ 32) div 8 mod 64 = x div 8 mod (64 :: nat)"
proof -
  have "take_bit 6 (drop_bit 3 (take_bit 32 x)) = take_bit 6 (drop_bit 3 x)" by (simp add: drop_bit_take_bit)
  then show ?thesis by (simp add: drop_bit_eq_div take_bit_eq_mod)
qed

lemma high_word_mod: "(of_nat ((y mod 2 ^ 32) * 2 ^ 32 + z) :: u64) = of_nat (y * 2 ^ 32 + z)"
proof -
  have "(2 ^ 64 :: u64) = 0" by (rule exp_eq_zero_iff [THEN iffD2]) simp
  then have "(of_nat (2 ^ 64 * (y div 2 ^ 32)) :: u64) = 0" by (simp only: of_nat_mult of_nat_power of_nat_numeral mult_zero_left)
  moreover have "(q * 2 ^ 32 + r) * 2 ^ 32 + z = 2 ^ 64 * q + (r * 2 ^ 32 + z)" for q r :: nat by (simp add: algebra_simps)
  from this [of "y div 2 ^ 32" "y mod 2 ^ 32"]
  have "y * 2 ^ 32 + z = 2 ^ 64 * (y div 2 ^ 32) + ((y mod 2 ^ 32) * 2 ^ 32 + z)" unfolding div_mult_mod_eq .
  ultimately show ?thesis by (simp only: of_nat_add add_0_left)
qed

lemma update_count:
  fixes ctx :: SHA1_CTX and len :: u32 and data :: "byte list"
  defines "c \<equiv> SHA1Update ctx data len"
  shows "h_bits c = h_bits ctx + of_nat (8 * unat len)" "used c = (used ctx + unat len) mod 64"
proof -
  let ?c0 = "h_count0 ctx" and ?c1 = "h_count1 ctx"
  have c0: "h_count0 c = ?c0 + push_bit 3 len" and c1: "h_count1 c = (if ?c0 + push_bit 3 len < ?c0 then ?c1 + 1 else ?c1) + drop_bit 29 len"
    by (simp_all add: c_def SHA1Update_def Let_def split: prod.split)
  have u0: "unat (h_count0 c) = (unat ?c0 + (8 * unat len) mod 2 ^ 32) mod 2 ^ 32"
    unfolding c0 by (simp add: unat_word_ariths(1) push_bit_eq_mult unat_word_ariths(2) mult.commute)
  have "used c = (unat ?c0 + 8 * unat len) div 8 mod 64"
    unfolding used_def u0 mod_add_right_eq by (rule used_mod)
  then show "used c = (used ctx + unat len) mod 64" by (simp add: used_def mod_add_right_eq add.commute)
  have bounds: "unat ?c0 < 2 ^ 32" "unat len < 2 ^ 32" using unat_bound [of ?c0] unat_bound [of len] by simp_all
  have dl: "unat (drop_bit 29 len) = unat len div 2 ^ 29" unfolding unat_drop_bit_eq by (rule drop_bit_eq_div)
  define carry :: nat where "carry = (if unat (h_count0 c) < unat ?c0 then 1 else 0)"
  have "unat (h_count1 c) = (unat ?c1 + carry + unat len div 2 ^ 29) mod 2 ^ 32"
    unfolding c1 carry_def c0 [symmetric] using dl
    by (simp add: unat_word_ariths(1) word_less_nat_alt drop_bit_eq_div mod_add_left_eq)
  then have "h_bits c = of_nat ((unat ?c1 + carry + unat len div 2 ^ 29) * 2 ^ 32 + unat (h_count0 c))"
    unfolding h_bits_def by (simp only: high_word_mod)
  also have "\<dots> = of_nat (unat ?c1 * 2 ^ 32 + unat ?c0 + 8 * unat len)"
    unfolding carry_def u0 count_carry [OF bounds] ..
  finally show "h_bits c = h_bits ctx + of_nat (8 * unat len)" by (simp add: h_bits_def)
qed

lemma whole_blocks_absorb:
  "len = length data \<Longrightarrow> i \<le> len \<Longrightarrow> whole_blocks s data len i = (s', i') \<Longrightarrow>
    i' \<le> len \<and> absorb 64 SHA1Transform s (drop i data) = (s', drop i' data)"
proof (induction s data len i rule: whole_blocks.induct)
  case (1 s data len i)
  show ?case
  proof (cases "i + 63 < len")
    case True
    have "absorb 64 SHA1Transform s (drop i data) = absorb 64 SHA1Transform (SHA1Transform s (take 64 (drop i data))) (drop (i + 64) data)"
      using absorb_block [of 64 "take 64 (drop i data)" SHA1Transform s "drop 64 (drop i data)", unfolded append_take_drop_id] True 1(2)
      by (simp add: add.commute)
    then show ?thesis using 1 True whole_blocks.simps [of s data len i] by simp
  next
    case False
    then show ?thesis using 1 whole_blocks.simps [of s data len i] by (auto simp: absorb_short)
  qed
qed

lemma update_view:
  assumes "h_ok c" "length data < 2 ^ 32 - 64"
  shows "h_ok (SHA1Update c data (of_nat (length data)))"
    "h_view (SHA1Update c data (of_nat (length data))) = absorb 64 SHA1Transform (fst (h_view c)) (snd (h_view c) @ data)"
proof -
  let ?len = "of_nat (length data) :: u32" and ?j = "drop_bit 3 (h_count0 c) AND 63" and ?n = "used c"
  let ?c = "SHA1Update c data ?len"
  have buf: "length (h_buffer c) = 64" "length (h_state c) = 5" using assms(1) by (simp_all add: h_ok_def)
  have n: "?n < 64" by (simp add: used_def)
  have len: "unat ?len = length data" using assms(2) by (intro unat_of_nat_small) simp
  have "unat (?j + ?len) = ?n + length data"
    unfolding unat_word_ariths(1) used_word len using n assms(2) by simp
  then have branch: "?j + ?len > 63 \<longleftrightarrow> ?n + length data > 63" by (simp add: word_less_nat_alt)
  have used: "used ?c = (?n + length data) mod 64" using update_count(2) [of c data ?len] len by simp
  have "h_ok ?c \<and> h_view ?c = absorb 64 SHA1Transform (h_state c) (take ?n (h_buffer c) @ data)"
  proof (cases "?n + length data > 63")
    case True
    define b where "b = put_at (h_buffer c) ?n (take (64 - ?n) data)"
    have b: "b = take ?n (h_buffer c) @ take (64 - ?n) data" using True buf n by (simp add: b_def put_at_def)
    obtain s i where w: "whole_blocks (SHA1Transform (h_state c) b) data (length data) (64 - ?n) = (s, i)" by fastforce
    have i: "i \<le> length data" "absorb 64 SHA1Transform (SHA1Transform (h_state c) b) (drop (64 - ?n) data) = (s, drop i data)"
      using whole_blocks_absorb [OF refl _ w] True by simp_all
    have ab: "absorb 64 SHA1Transform (h_state c) (take ?n (h_buffer c) @ data) = (s, drop i data)"
      using absorb_block [of 64 b SHA1Transform "h_state c" "drop (64 - ?n) data"] b n buf True i(2) by simp
    then have "length (drop i data) = (?n + length data) mod 64"
      using absorb_rest [of 64 SHA1Transform "h_state c" "take ?n (h_buffer c) @ data"] buf n by simp
    moreover have "length s = 5"
      using absorb_invariant [of "\<lambda>s. length s = 5" SHA1Transform] ab buf by (metis fst_conv length_SHA1Transform)
    moreover have c: "h_state ?c = s" "h_buffer ?c = put_at b 0 (drop i data)"
      using True branch w i(1) by (simp_all add: SHA1Update_def Let_def used_word len b_def)
    ultimately show ?thesis
      using ab used b buf n True by (simp add: h_ok_def h_view_def put_at_def)
  next
    case False
    have c: "h_state ?c = h_state c" "h_buffer ?c = put_at (h_buffer c) ?n data"
      using False branch by (simp_all add: SHA1Update_def Let_def used_word len)
    then show ?thesis
      using False used buf n by (simp add: h_ok_def h_view_def put_at_def absorb_short)
  qed
  then show "h_ok ?c" "h_view ?c = absorb 64 SHA1Transform (fst (h_view c)) (snd (h_view c) @ data)"
    by (simp_all add: h_view_def)
qed

interpretation h: stream_context 64 SHA1Transform h_ok h_view h_bits "\<lambda>xs. length xs < 2 ^ 32 - 64"
  "\<lambda>c xs. SHA1Update c xs (of_nat (length xs))"
proof
  fix c xs assume "length (xs :: byte list) < 2 ^ 32 - 64"
  then have "unat (of_nat (length xs) :: u32) = length xs" by (intro unat_of_nat_small) simp
  then show "h_bits (SHA1Update c xs (of_nat (length xs))) = h_bits c + of_nat (8 * length xs)"
    using update_count(1) [of c xs "of_nat (length xs)"] by simp
qed (auto simp: update_view, simp add: h_view_def used_def h_ok_def)

section \<open>Padding\<close>

lemma masked_count: "c AND 504 = 448 \<longleftrightarrow> unat (c :: u32) div 8 mod 64 = 56"
proof -
  have m: "(504 :: u32) = push_bit 3 (mask 6)" by (simp add: mask_eq_exp_minus_1)
  have "c AND 504 = push_bit 3 (take_bit 6 (drop_bit 3 c))"
    unfolding m by (rule bit_word_eqI) (auto simp: bit_simps)
  moreover have "unat (take_bit 6 (drop_bit 3 c)) = unat c div 8 mod 64"
    by (simp only: unsigned_take_bit_eq unat_drop_bit_eq) (simp add: drop_bit_eq_div take_bit_eq_mod)
  moreover have "unat (push_bit 3 x) = 8 * unat x" if "unat x < 64" for x :: u32
    using that by (simp add: push_bit_eq_mult unat_word_ariths(2) mult.commute)
  ultimately have "unat (c AND 504) = 8 * (unat c div 8 mod 64)" by simp
  then show ?thesis by (simp add: word_unat_eq_iff)
qed

definition zeros :: "SHA1_CTX \<Rightarrow> nat" where
  "zeros c = (120 - used c) mod 64"

lemma zeros_step: "used c \<noteq> 56 \<Longrightarrow> zeros c = Suc (zeros (SHA1Update c [0] 1))"
proof -
  assume "used c \<noteq> 56"
  moreover have "used c < 64" by (simp add: used_def)
  moreover have "used (SHA1Update c [0] 1) = (used c + 1) mod 64" using update_count(2) [of c "[0]" 1] by simp
  ultimately show ?thesis
    by (cases "used c < 56"; cases "used c = 63") (auto simp: zeros_def mod_if)
qed

lemma pad_zeros_ends: "zeros c < n \<Longrightarrow> pad_zeros n c = Some (foldl (\<lambda>c xs. SHA1Update c xs (of_nat (length xs))) c (replicate (zeros c) [0]))"
proof (induction n arbitrary: c)
  case (Suc n)
  show ?case
  proof (cases "used c = 56")
    case True
    then have "h_count0 c AND 504 = 448" "zeros c = 0" by (simp_all add: masked_count used_def zeros_def)
    then show ?thesis by simp
  next
    case False
    then have "h_count0 c AND 504 \<noteq> 448" by (simp add: masked_count used_def)
    then show ?thesis using Suc zeros_step [OF False] by simp
  qed
qed simp

lemma finalcount_be64: "finalcount c = be64 (h_bits c)"
proof -
  have "h_bits c = push_bit 32 (ucast (h_count1 c)) + ucast (h_count0 c)"
    by (simp add: h_bits_def push_bit_eq_mult mult.commute)
  also have "\<dots> = push_bit 32 (ucast (h_count1 c)) OR ucast (h_count0 c)"
    by (rule disjunctive_add) (auto simp: bit_simps dest: bit_imp_le_length)
  finally have b: "h_bits c = push_bit 32 (ucast (h_count1 c)) OR ucast (h_count0 c)" .
  have hi: "ucast (drop_bit n (h_count1 c)) = (ucast (drop_bit (n + 32) (h_bits c)) :: byte)" for n
    unfolding b by (rule bit_word_eqI) (auto simp: bit_simps dest: bit_imp_le_length)
  have lo: "n \<le> 24 \<Longrightarrow> ucast (drop_bit n (h_count0 c)) = (ucast (drop_bit n (h_bits c)) :: byte)" for n
    unfolding b by (rule bit_word_eqI) (auto simp: bit_simps)
  show ?thesis using hi [of 0] lo [of 0] by (simp add: finalcount_def be64_def upt_rec ucast_low_byte hi lo)
qed

lemma sha1_bytes:
  assumes "length s = 5"
  shows "map (\<lambda>i. ucast (drop_bit ((3 - i mod 4) * 8) (s ! (i div 4)) AND 255)) [0..<20] = words_out s"
proof -
  obtain a b c d e where "s = [a, b, c, d, e]" using assms by (auto simp: numeral_eq_Suc length_Suc_conv)
  then show ?thesis by (simp add: words_out_def be32_def upt_rec ucast_low_byte)
qed

lemma final_pieces:
  assumes "h_ok c" "64 \<le> fuel"
  shows "SHA1Final fuel c = Some (words_out (fst (absorb 64 SHA1Transform (fst (h_view c))
    (snd (h_view c) @ pad64 (length (snd (h_view c))) (h_bits c)))))"
proof -
  let ?u = "\<lambda>c xs. SHA1Update c xs (of_nat (length xs))"
  define c1 where "c1 = SHA1Update c [0x80] 1"
  define ps where "ps = [0x80] # replicate (zeros c1) [0] @ [be64 (h_bits c)]"
  have z: "zeros c1 < fuel" using assms(2) by (simp add: zeros_def)
  have ps: "list_all (\<lambda>xs. length xs < 2 ^ 32 - 64) ps" by (simp add: ps_def list_all_iff)
  note u = h.updates [OF assms(1) ps]
  have f: "foldl ?u c ps = SHA1Update (foldl ?u c1 (replicate (zeros c1) [0])) (be64 (h_bits c)) 8"
    by (simp add: ps_def c1_def)
  have r: "length (snd (h_view c)) = used c" "used c < 64" using assms(1) by (auto simp: h_view_def h_ok_def used_def)
  have "used c1 = (used c + 1) mod 64" using update_count(2) [of c "[0x80]" 1] by (simp add: c1_def)
  then have "zeros c1 = (119 - used c) mod 64" using r(2) by (cases "used c = 63") (simp_all add: zeros_def)
  then have "concat ps = pad64 (length (snd (h_view c))) (h_bits c)"
    unfolding ps_def r(1) pad64_def by (simp add: concat_replicate_single)
  then have "fst (h_view (foldl ?u c ps)) = fst (absorb 64 SHA1Transform (fst (h_view c)) (snd (h_view c) @ pad64 (length (snd (h_view c))) (h_bits c)))"
    using u(2) by simp
  moreover have "SHA1Final fuel c = Some (words_out (fst (h_view (foldl ?u c ps))))"
    using u(1) unfolding f
    by (simp add: SHA1Final_def c1_def [symmetric] pad_zeros_ends [OF z] finalcount_be64 sha1_bytes h_view_def h_ok_def Let_def)
  ultimately show ?thesis by simp
qed

definition h_started :: "SHA1_CTX \<Rightarrow> bool" where
  "h_started c \<longleftrightarrow> (\<exists>ctx. length (h_buffer ctx) = 64 \<and> c = SHA1Init ctx)"

definition sha1_iv :: "u32 list" where
  "sha1_iv = [0x67452301, 0xEFCDAB89, 0x98BADCFE, 0x10325476, 0xC3D2E1F0]"

interpretation sha1: stream_hash 64 SHA1Transform h_ok h_view h_bits "\<lambda>xs. length xs < 2 ^ 32 - 64"
  "\<lambda>c xs. SHA1Update c xs (of_nat (length xs))" sha1_iv pad64 words_out h_started "\<lambda>c. the (SHA1Final 64 c)"
  by unfold_locales (auto simp: h_started_def SHA1Init_def h_ok_def h_view_def used_def h_bits_def sha1_iv_def, simp add: final_pieces h_ok_def h_view_def used_def h_bits_def)

definition sha1_digest :: "byte list \<Rightarrow> byte list" where
  "sha1_digest = padded_digest 64 sha1_compress sha1_iv pad64 words_out"

lemma sha1_digest_final:
  assumes "length (h_buffer ctx) = 64" "\<forall>p \<in> set ps. length p < 2 ^ 32 - 64" "64 \<le> fuel"
  shows "SHA1Final fuel (foldl (\<lambda>c p. SHA1Update c p (of_nat (length p))) (SHA1Init ctx) ps) = Some (sha1_digest (concat ps))"
proof -
  let ?c = "foldl (\<lambda>c p. SHA1Update c p (of_nat (length p))) (SHA1Init ctx) ps"
  have s: "h_started (SHA1Init ctx)" "list_all (\<lambda>p. length p < 2 ^ 32 - 64) ps"
    using assms(1,2) by (auto simp: h_started_def list_all_iff)
  have "h_ok ?c" using h.updates(1) [OF sha1.start_invar [OF s(1)] s(2)] .
  then have "SHA1Final fuel ?c = Some (the (SHA1Final 64 ?c))" using assms(3) by (simp add: final_pieces)
  then show ?thesis
    using sha1.digest_pieces [OF s] by (simp add: sha1_digest_def SHA1Transform_standard [abs_def, symmetric])
qed

lemma SHA1_digest:
  assumes "length (h_buffer ctx) = 64" "length m < 2 ^ 32" "64 \<le> fuel"
  shows "SHA1 fuel ctx m (of_nat (length m)) = Some (sha1_digest m)"
proof -
  have "foldl (\<lambda>c x. SHA1Update c [x] 1) c xs = foldl (\<lambda>c p. SHA1Update c p (of_nat (length p))) c (map (\<lambda>x. [x]) xs)" for c xs
    by (induction xs arbitrary: c) simp_all
  moreover have "concat (map (\<lambda>x. [x]) m) = m" by (induction m) simp_all
  ultimately show ?thesis
    using sha1_digest_final [of ctx "map (\<lambda>x. [x]) m" fuel] assms by (simp add: SHA1_def unat_of_nat_small)
qed

lemma length_sha1_digest: "length (sha1_digest m) = 20"
proof -
  have "length (sha1_compress s d) = 5" for s d by (simp add: sha1_compress_def split: prod.split)
  then show ?thesis
    using absorb_invariant [of "\<lambda>s. length s = 5" sha1_compress]
    by (simp add: sha1_digest_def padded_digest_def length_words_out sha1_iv_def)
qed

text \<open>A context before its initialisation.\<close>

definition sha1_blank :: SHA1_CTX where
  "sha1_blank = \<lparr>h_state = [], h_count0 = 0, h_count1 = 0, h_buffer = replicate 64 0\<rparr>"

lemma hmac_sha1_value:
  assumes "length (h_buffer ctx) = 64" and "length key < 2 ^ 32" and "length data < 2 ^ 32 - 64" and "64 \<le> fuel"
  shows "let k = (if length key > 64 then sha1_digest key else key); pad = k @ replicate (64 - length k) 0
    in hmac_sha1 fuel ctx key data =
      Some (sha1_digest (map (\<lambda>b. b XOR 0x5c) pad @ sha1_digest (map (\<lambda>b. b XOR 0x36) pad @ data)))"
proof -
  define k where "k = (if length key > 64 then sha1_digest key else key)"
  define pad where "pad = k @ replicate (64 - length k) 0"
  have "length pad = 64" by (simp add: pad_def k_def length_sha1_digest)
  then have i: "SHA1 fuel ctx (map (\<lambda>b. b XOR 0x36) pad @ data) (64 + of_nat (length data)) = Some (sha1_digest (map (\<lambda>b. b XOR 0x36) pad @ data))"
    and o: "SHA1 fuel ctx (map (\<lambda>b. b XOR 0x5c) pad @ sha1_digest m) (64 + 20) = Some (sha1_digest (map (\<lambda>b. b XOR 0x5c) pad @ sha1_digest m))" for m
    using SHA1_digest [OF assms(1) _ assms(4), of "map (\<lambda>b. b XOR 0x36) pad @ data"]
      SHA1_digest [OF assms(1) _ assms(4), of "map (\<lambda>b. b XOR 0x5c) pad @ sha1_digest m"] assms(3)
    by (simp_all add: length_sha1_digest)
  have "(if length key > 64 then SHA1 fuel ctx key (of_nat (length key)) else Some key) = Some k"
    using SHA1_digest [OF assms(1,2,4)] by (simp add: k_def)
  then have "hmac_sha1 fuel ctx key data = Some (sha1_digest (map (\<lambda>b. b XOR 0x5c) pad @ sha1_digest (map (\<lambda>b. b XOR 0x36) pad @ data)))"
    unfolding hmac_sha1_def Let_def using i o pad_def by simp
  then show ?thesis by (simp add: k_def pad_def Let_def)
qed

lemma hmac_sha1_mac:
  assumes "length key \<le> 64" "length data < 2 ^ 32 - 64"
  obtains mac where "hmac_sha1 64 sha1_blank key data = Some mac" "length mac = 20"
proof -
  have "length (h_buffer sha1_blank) = 64" by (simp add: sha1_blank_def)
  from hmac_sha1_value [OF this, of key data 64] assms that show thesis by (auto simp: Let_def length_sha1_digest)
qed

section \<open>Properties\<close>

text \<open>
  Hashing a message in any pieces gives the digest of the standard, computed with its eighty-word message schedule
  and round functions, over the blocks of the padded message. The code reuses sixteen words, writes the functions with
  fewer operations and copies data by blocks. \<^verbatim>\<open>SHA1\<close> computes it for every message of less than \<open>2 ^ 32\<close> bytes.
\<close>

theorem sha1_pieces:
  assumes "length (h_buffer ctx) = 64" and "\<forall>p \<in> set ps. length p < 2 ^ 32 - 64" and "64 \<le> fuel"
  shows "SHA1Final fuel (foldl (\<lambda>c p. SHA1Update c p (of_nat (length p))) (SHA1Init ctx) ps) = Some (sha1_digest (concat ps)) \<and>
    (length m < 2 ^ 32 \<longrightarrow> SHA1 fuel ctx m (of_nat (length m)) = Some (sha1_digest m)) \<and>
    length (sha1_digest m) = 20 \<and> SHA1Transform s d = sha1_compress s d"
  using sha1_digest_final [OF assms] SHA1_digest [OF assms(1) _ assms(3)] by (simp add: length_sha1_digest SHA1Transform_standard)

theorem sha1_pieces_witness:
  "SHA1Final 64 (SHA1Update (SHA1Update (SHA1Init sha1_blank) [97] 1) [98, 99] 2) = SHA1 64 sha1_blank [97, 98, 99] 3"
proof -
  have h: "length (h_buffer sha1_blank) = 64" "\<forall>p \<in> set [[97], [98, 99 :: byte]]. length p < 2 ^ 32 - 64" "64 \<le> (64 :: nat)"
    by (simp_all add: sha1_blank_def)
  show ?thesis using sha1_pieces [OF h, of "[97, 98, 99]"] by simp
qed

text \<open>
  C32. The loop that fills the last block ends after at most 63 zero bytes, whatever the state of the context, even
  though it watches only six bits of a counter that may wrap; it stops when 56 bytes of the block are used.
\<close>

theorem padding_ends:
  "\<exists>c' z. z < 64 \<and> c' = ((\<lambda>c. SHA1Update c [0] 1) ^^ z) c \<and> used c' = 56 \<and> (\<forall>n. pad_zeros (64 + n) c = Some c')"
proof (intro exI conjI)
  let ?c' = "((\<lambda>c. SHA1Update c [0] 1) ^^ zeros c) c"
  have "used c mod 64 = used c" "used (SHA1Update x [0] 1) = Suc (used x) mod 64" for x
    using update_count(2) [of x "[0]" 1] by (simp_all add: used_def)
  then have "used (((\<lambda>c. SHA1Update c [0] 1) ^^ k) c) = (used c + k) mod 64" for k
    by (induction k) (simp_all add: mod_Suc_eq)
  moreover have "(used c + (120 - used c) mod 64) mod 64 = 56"
    using mod_add_right_eq [of "used c" "120 - used c" 64] by (simp add: used_def)
  ultimately show "used ?c' = 56" by (simp add: zeros_def)
  show "zeros c < 64" by (simp add: zeros_def)
  have "foldl (\<lambda>c xs. SHA1Update c xs (of_nat (length xs))) c (replicate k [0]) = ((\<lambda>c. SHA1Update c [0] 1) ^^ k) c" for k
    by (induction k arbitrary: c) (simp_all add: funpow_Suc_right del: funpow.simps(2))
  then show "\<forall>n. pad_zeros (64 + n) c = Some ?c'"
    using pad_zeros_ends [of c] \<open>zeros c < 64\<close> by simp
qed simp

text \<open>
  C26. The message authentication code is that of the standard: the hash of the key, hashed first when it is longer than
  a block and filled with zeros, combined with the two pads, around the message.
\<close>

theorem hmac_sha1_standard:
  assumes "length (h_buffer ctx) = 64" and "length key < 2 ^ 32" and "length data < 2 ^ 32 - 64" and "64 \<le> fuel"
  shows "let k = (if length key > 64 then sha1_digest key else key); pad = k @ replicate (64 - length k) 0
    in hmac_sha1 fuel ctx key data =
      Some (sha1_digest (map (\<lambda>b. b XOR 0x5c) pad @ sha1_digest (map (\<lambda>b. b XOR 0x36) pad @ data)))"
  using hmac_sha1_value [OF assms] .

theorem hmac_sha1_standard_witness:
  "hmac_sha1 64 sha1_blank [1] [2] =
    Some (sha1_digest (map (\<lambda>b. b XOR 0x5c) (1 # replicate 63 0) @ sha1_digest (map (\<lambda>b. b XOR 0x36) (1 # replicate 63 0) @ [2])))"
proof -
  have h: "length (h_buffer sha1_blank) = 64" "length [1 :: byte] < 2 ^ 32" "length [2 :: byte] < 2 ^ 32 - 64" "64 \<le> (64 :: nat)"
    by (simp_all add: sha1_blank_def)
  show ?thesis using hmac_sha1_standard [OF h] by (simp add: Let_def)
qed

end
