(* ===== verification/Sha512.thy ===== *)
theory Sha512
  imports HashStream
begin

text \<open>
  The SHA-512 hash of \<^verbatim>\<open>utility/crypto/hash/sha512.cpp\<close>. A pointer that the code compares with \<^verbatim>\<open>NULL\<close> is an
  option; the functions return zero or an error code with the context. The arrays of the context are lists of their
  length.
\<close>

section \<open>Model\<close>

record sha512_context =
  md_length :: u64
  md_state :: "u64 list"
  curlen :: u32
  md_buf :: "byte list"

text \<open>The round constants, row by row as the source lists them.\<close>

definition K512 :: "u64 list" where
  "K512 = concat
    [[0x428a2f98d728ae22, 0x7137449123ef65cd], [0xb5c0fbcfec4d3b2f, 0xe9b5dba58189dbbc],
     [0x3956c25bf348b538, 0x59f111f1b605d019], [0x923f82a4af194f9b, 0xab1c5ed5da6d8118],
     [0xd807aa98a3030242, 0x12835b0145706fbe], [0x243185be4ee4b28c, 0x550c7dc3d5ffb4e2],
     [0x72be5d74f27b896f, 0x80deb1fe3b1696b1], [0x9bdc06a725c71235, 0xc19bf174cf692694],
     [0xe49b69c19ef14ad2, 0xefbe4786384f25e3], [0x0fc19dc68b8cd5b5, 0x240ca1cc77ac9c65],
     [0x2de92c6f592b0275, 0x4a7484aa6ea6e483], [0x5cb0a9dcbd41fbd4, 0x76f988da831153b5],
     [0x983e5152ee66dfab, 0xa831c66d2db43210], [0xb00327c898fb213f, 0xbf597fc7beef0ee4],
     [0xc6e00bf33da88fc2, 0xd5a79147930aa725], [0x06ca6351e003826f, 0x142929670a0e6e70],
     [0x27b70a8546d22ffc, 0x2e1b21385c26c926], [0x4d2c6dfc5ac42aed, 0x53380d139d95b3df],
     [0x650a73548baf63de, 0x766a0abb3c77b2a8], [0x81c2c92e47edaee6, 0x92722c851482353b],
     [0xa2bfe8a14cf10364, 0xa81a664bbc423001], [0xc24b8b70d0f89791, 0xc76c51a30654be30],
     [0xd192e819d6ef5218, 0xd69906245565a910], [0xf40e35855771202a, 0x106aa07032bbd1b8],
     [0x19a4c116b8d2d0c8, 0x1e376c085141ab53], [0x2748774cdf8eeb99, 0x34b0bcb5e19b48a8],
     [0x391c0cb3c5c95a63, 0x4ed8aa4ae3418acb], [0x5b9cca4f7763e373, 0x682e6ff3d6b2b8a3],
     [0x748f82ee5defb2fc, 0x78a5636f43172f60], [0x84c87814a1f0ab72, 0x8cc702081a6439ec],
     [0x90befffa23631e28, 0xa4506cebde82bde9], [0xbef9a3f7b2c67915, 0xc67178f2e372532b],
     [0xca273eceea26619c, 0xd186b8c721c0c207], [0xeada7dd6cde0eb1e, 0xf57d4f7fee6ed178],
     [0x06f067aa72176fba, 0x0a637dc5a2c898a6], [0x113f9804bef90dae, 0x1b710b35131c471b],
     [0x28db77f523047d84, 0x32caab7b40c72493], [0x3c9ebe0a15c9bebc, 0x431d67c49c100d4c],
     [0x4cc5d4becb3e42b6, 0x597f299cfc657e2a], [0x5fcb6fab3ad6faec, 0x6c44198c4a475817]]"

definition ROR64c :: "u64 \<Rightarrow> nat \<Rightarrow> u64" where
  "ROR64c x y = drop_bit (y mod 64) x OR push_bit (64 - y mod 64) x"

definition LOAD64H :: "byte list \<Rightarrow> nat \<Rightarrow> u64" where
  "LOAD64H y j =
     push_bit 56 (ucast (y ! j)) OR push_bit 48 (ucast (y ! (j + 1))) OR push_bit 40 (ucast (y ! (j + 2))) OR
     push_bit 32 (ucast (y ! (j + 3))) OR push_bit 24 (ucast (y ! (j + 4))) OR push_bit 16 (ucast (y ! (j + 5))) OR
     push_bit 8 (ucast (y ! (j + 6))) OR ucast (y ! (j + 7))"

definition STORE64H :: "u64 \<Rightarrow> byte list" where
  "STORE64H x =
     [ucast (drop_bit 56 x AND 255), ucast (drop_bit 48 x AND 255), ucast (drop_bit 40 x AND 255), ucast (drop_bit 32 x AND 255),
      ucast (drop_bit 24 x AND 255), ucast (drop_bit 16 x AND 255), ucast (drop_bit 8 x AND 255), ucast (x AND 255)]"

definition Ch64 :: "u64 \<Rightarrow> u64 \<Rightarrow> u64 \<Rightarrow> u64" where
  "Ch64 x y z = z XOR (x AND (y XOR z))"

definition Maj64 :: "u64 \<Rightarrow> u64 \<Rightarrow> u64 \<Rightarrow> u64" where
  "Maj64 x y z = ((x OR y) AND z) OR (x AND y)"

definition Sigma0 :: "u64 \<Rightarrow> u64" where
  "Sigma0 x = ROR64c x 28 XOR ROR64c x 34 XOR ROR64c x 39"

definition Sigma1 :: "u64 \<Rightarrow> u64" where
  "Sigma1 x = ROR64c x 14 XOR ROR64c x 18 XOR ROR64c x 41"

definition Gamma0 :: "u64 \<Rightarrow> u64" where
  "Gamma0 x = ROR64c x 1 XOR ROR64c x 8 XOR drop_bit 7 x"

definition Gamma1 :: "u64 \<Rightarrow> u64" where
  "Gamma1 x = ROR64c x 19 XOR ROR64c x 61 XOR drop_bit 6 x"

definition fill_word :: "u64 list \<Rightarrow> nat \<Rightarrow> u64 list" where
  "fill_word w i = w @ [Gamma1 (w ! (i - 2)) + w ! (i - 7) + Gamma0 (w ! (i - 15)) + w ! (i - 16)]"

definition words512 :: "byte list \<Rightarrow> u64 list" where
  "words512 buf = foldl fill_word (map (\<lambda>i. LOAD64H buf (8 * i)) [0..<16]) [16..<80]"

text \<open>A round names the places of its eight variables in the array.\<close>

definition RND :: "u64 list \<Rightarrow> nat \<Rightarrow> nat \<Rightarrow> nat \<Rightarrow> nat \<Rightarrow> nat \<Rightarrow> nat \<Rightarrow> nat \<Rightarrow> nat \<Rightarrow> nat \<Rightarrow> u64 list \<Rightarrow> u64 list" where
  "RND w a b c d e f g h i s =
     (let t0 = s ! h + Sigma1 (s ! e) + Ch64 (s ! e) (s ! f) (s ! g) + K512 ! i + w ! i;
          t1 = Sigma0 (s ! a) + Maj64 (s ! a) (s ! b) (s ! c);
          s = s[d := s ! d + t0]
      in s[h := t0 + t1])"

definition eight_rounds :: "u64 list \<Rightarrow> u64 list \<Rightarrow> nat \<Rightarrow> u64 list" where
  "eight_rounds w s i =
     (let s = RND w 0 1 2 3 4 5 6 7 (i + 0) s; s = RND w 7 0 1 2 3 4 5 6 (i + 1) s;
          s = RND w 6 7 0 1 2 3 4 5 (i + 2) s; s = RND w 5 6 7 0 1 2 3 4 (i + 3) s;
          s = RND w 4 5 6 7 0 1 2 3 (i + 4) s; s = RND w 3 4 5 6 7 0 1 2 (i + 5) s;
          s = RND w 2 3 4 5 6 7 0 1 (i + 6) s
      in RND w 1 2 3 4 5 6 7 0 (i + 7) s)"

definition compress512 :: "u64 list \<Rightarrow> byte list \<Rightarrow> u64 list" where
  "compress512 st buf =
     (let s = foldl (eight_rounds (words512 buf)) (map (\<lambda>i. st ! i) [0..<8]) (map (\<lambda>k. 8 * k) [0..<10])
      in map (\<lambda>i. st ! i + s ! i) [0..<8])"

definition sha512_compress :: "sha512_context \<Rightarrow> byte list \<Rightarrow> sha512_context" where
  "sha512_compress md buf = md\<lparr>md_state := compress512 (md_state md) buf\<rparr>"

definition sha512_init :: "sha512_context option \<Rightarrow> int \<times> sha512_context option" where
  "sha512_init md =
     (case md of
        None \<Rightarrow> (1, None)
      | Some md \<Rightarrow>
          (0, Some (md\<lparr>curlen := 0, md_length := 0,
             md_state := [0x6a09e667f3bcc908, 0xbb67ae8584caa73b, 0x3c6ef372fe94f82b, 0xa54ff53a5f1d36f1,
               0x510e527fade682d1, 0x9b05688c2b3e6c1f, 0x1f83d9abfb41bd6b, 0x5be0cd19137e2179]\<rparr>)))"

text \<open>Copying the bytes one by one into the buffer.\<close>

fun fill_buf :: "byte list \<Rightarrow> nat \<Rightarrow> byte list \<Rightarrow> byte list" where
  "fill_buf buf k [] = buf"
| "fill_buf buf k (x # xs) = fill_buf (buf[k := x]) (k + 1) xs"

definition buffer512 :: "sha512_context \<Rightarrow> byte list \<Rightarrow> u32 \<Rightarrow> sha512_context" where
  "buffer512 md inp n =
     (let md = md\<lparr>md_buf := fill_buf (md_buf md) (unat (curlen md)) (take (unat n) inp), curlen := curlen md + n\<rparr> in
      if curlen md = 128
      then (let md = sha512_compress md (md_buf md) in md\<lparr>md_length := md_length md + 1024, curlen := 0\<rparr>)
      else md)"

function update512_loop :: "sha512_context \<Rightarrow> byte list \<Rightarrow> u32 \<Rightarrow> sha512_context" where
  "update512_loop md inp inlen =
     (if inlen = 0 then md
      else if curlen md = 0 \<and> inlen \<ge> 128
      then (let md = sha512_compress md (take 128 inp)
            in update512_loop (md\<lparr>md_length := md_length md + 1024\<rparr>) (drop 128 inp) (inlen - 128))
      else
        (let n = min inlen (128 - curlen md) in update512_loop (buffer512 md inp n) (drop (unat n) inp) (inlen - n)))"
  by pat_completeness auto
termination
proof (relation "measure (\<lambda>(md, inp, inlen). 2 * unat inlen + (if curlen md = 128 then 1 else 0))", goal_cases)
  case 1
  then show ?case by simp
next
  case (2 md inp inlen x)
  then have "unat (inlen - 128) < unat inlen" by (simp add: unat_sub_if_size word_le_nat_alt)
  then show ?case by simp
next
  case (3 md inp inlen n)
  show ?case
  proof (cases "n = 0")
    case True
    then have "128 - curlen md = 0" using 3 by (auto simp: min_def split: if_splits)
    then have "curlen md = 128" by simp
    then show ?thesis using 3 True by (simp add: buffer512_def Let_def)
  next
    case False
    have le: "n \<le> inlen" using 3 by simp
    have "0 < unat n" "0 < unat inlen" using False 3 by (simp_all add: unat_gt_0)
    then have "unat (inlen - n) < unat inlen" by (simp add: unat_sub [OF le])
    then show ?thesis by simp
  qed
qed

declare update512_loop.simps [simp del]

definition sha512_update :: "sha512_context option \<Rightarrow> byte list option \<Rightarrow> u32 \<Rightarrow> int \<times> sha512_context option" where
  "sha512_update md inp inlen =
     (case (md, inp) of
        (Some md, Some inp) \<Rightarrow> if curlen md > 128 then (1, Some md) else (0, Some (update512_loop md inp inlen))
      | _ \<Rightarrow> (1, md))"

text \<open>Storing zeros from the current length up to another one.\<close>

function pad_buf :: "u32 \<Rightarrow> sha512_context \<Rightarrow> sha512_context" where
  "pad_buf k md =
     (if curlen md < k then pad_buf k (md\<lparr>md_buf := (md_buf md)[unat (curlen md) := 0], curlen := curlen md + 1\<rparr>) else md)"
  by pat_completeness auto
termination
proof (relation "measure (\<lambda>(k, md). unat k - unat (curlen md))")
  fix k and md :: sha512_context assume "curlen md < k"
  then show "((k, md\<lparr>md_buf := (md_buf md)[unat (curlen md) := 0], curlen := curlen md + 1\<rparr>), (k, md))
      \<in> measure (\<lambda>(k, md). unat k - unat (curlen md))"
    using unat_inc [of "curlen md" k] by (simp add: word_less_nat_alt)
qed simp

declare pad_buf.simps [simp del]

definition sha512_final :: "sha512_context option \<Rightarrow> byte list option \<Rightarrow> int \<times> byte list option" where
  "sha512_final md out =
     (case (md, out) of
        (Some md, Some out) \<Rightarrow>
          if curlen md \<ge> 128 then (1, Some out)
          else
            (let md = md\<lparr>md_length := md_length md + ucast (curlen md) * 8\<rparr>;
                 md = md\<lparr>md_buf := (md_buf md)[unat (curlen md) := 0x80], curlen := curlen md + 1\<rparr>;
                 md = (if curlen md > 112
                       then (let md = pad_buf 128 md; md = sha512_compress md (md_buf md) in md\<lparr>curlen := 0\<rparr>)
                       else md);
                 md = pad_buf 120 md;
                 md = md\<lparr>md_buf := take 120 (md_buf md) @ STORE64H (md_length md) @ drop 128 (md_buf md)\<rparr>;
                 md = sha512_compress md (md_buf md)
             in (0, Some (concat (map (\<lambda>i. STORE64H (md_state md ! i)) [0..<8]) @ drop 64 out)))
      | _ \<Rightarrow> (1, out))"

definition sha512 :: "sha512_context \<Rightarrow> byte list option \<Rightarrow> u32 \<Rightarrow> byte list option \<Rightarrow> int \<times> byte list option" where
  "sha512 ctx message message_len out =
     (let (ret, md) = sha512_init (Some ctx) in
      if ret \<noteq> 0 then (ret, out)
      else (let (ret, md) = sha512_update md message message_len in if ret \<noteq> 0 then (ret, out) else sha512_final md out))"

section \<open>The compression function of the standard\<close>

type_synonym sha512_vars = "u64 \<times> u64 \<times> u64 \<times> u64 \<times> u64 \<times> u64 \<times> u64 \<times> u64"

definition standard512_round :: "u64 list \<Rightarrow> sha512_vars \<Rightarrow> nat \<Rightarrow> sha512_vars" where
  "standard512_round w v t =
     (case v of (a, b, c, d, e, f, g, h) \<Rightarrow>
        (let t1 = h + Sigma1 e + ((e AND f) XOR (NOT e AND g)) + K512 ! t + w ! t;
             t2 = Sigma0 a + ((a AND b) XOR (a AND c) XOR (b AND c))
         in (t1 + t2, a, b, c, d + t1, e, f, g)))"

definition standard512 :: "u64 list \<Rightarrow> byte list \<Rightarrow> u64 list" where
  "standard512 st m =
     (case foldl (standard512_round (words512 m)) (st ! 0, st ! 1, st ! 2, st ! 3, st ! 4, st ! 5, st ! 6, st ! 7) [0..<80] of
        (a, b, c, d, e, f, g, h) \<Rightarrow> [st ! 0 + a, st ! 1 + b, st ! 2 + c, st ! 3 + d, st ! 4 + e, st ! 5 + f, st ! 6 + g, st ! 7 + h])"

lemma choice_forms64: "Ch64 x y z = (x AND y) XOR (NOT x AND z)" "Maj64 x y z = (x AND y) XOR (x AND z) XOR (y AND z)"
  by (rule bit_word_eqI, auto simp: Ch64_def Maj64_def bit_simps)+

text \<open>The array after \<open>k\<close> rounds, from the variables in the order of the standard.\<close>

definition lay :: "nat \<Rightarrow> sha512_vars \<Rightarrow> u64 list" where
  "lay k v = (case v of (a, b, c, d, e, f, g, h) \<Rightarrow> rotate k [a, b, c, d, e, f, g, h])"

lemma lay_simps:
  "lay 0 (a, b, c, d, e, f, g, h) = [a, b, c, d, e, f, g, h]"
  "lay 1 (a, b, c, d, e, f, g, h) = [b, c, d, e, f, g, h, a]"
  "lay 2 (a, b, c, d, e, f, g, h) = [c, d, e, f, g, h, a, b]"
  "lay 3 (a, b, c, d, e, f, g, h) = [d, e, f, g, h, a, b, c]"
  "lay 4 (a, b, c, d, e, f, g, h) = [e, f, g, h, a, b, c, d]"
  "lay 5 (a, b, c, d, e, f, g, h) = [f, g, h, a, b, c, d, e]"
  "lay 6 (a, b, c, d, e, f, g, h) = [g, h, a, b, c, d, e, f]"
  "lay 7 (a, b, c, d, e, f, g, h) = [h, a, b, c, d, e, f, g]"
  by (simp_all add: lay_def eval_nat_numeral)

text \<open>The two sums of a round.\<close>

definition sum1 :: "u64 list \<Rightarrow> nat \<Rightarrow> u64 \<Rightarrow> u64 \<Rightarrow> u64 \<Rightarrow> u64 \<Rightarrow> u64" where
  "sum1 w i e f g h = h + Sigma1 e + Ch64 e f g + K512 ! i + w ! i"

definition sum2 :: "u64 \<Rightarrow> u64 \<Rightarrow> u64 \<Rightarrow> u64" where
  "sum2 a b c = Sigma0 a + Maj64 a b c"

lemma RND_sums:
  "RND w a b c d e f g h i s =
     (let t0 = sum1 w i (s ! e) (s ! f) (s ! g) (s ! h); t1 = sum2 (s ! a) (s ! b) (s ! c) in s[d := s ! d + t0, h := t0 + t1])"
  by (simp only: RND_def sum1_def sum2_def Let_def)

lemma standard_sums:
  "standard512_round w (a, b, c, d, e, f, g, h) i =
     (sum1 w i e f g h + sum2 a b c, a, b, c, d + sum1 w i e f g h, e, f, g)"
  by (simp only: standard512_round_def sum1_def sum2_def Let_def prod.case choice_forms64)

lemma RND_lay:
  "RND w 0 1 2 3 4 5 6 7 i (lay 0 v) = lay 1 (standard512_round w v i)"
  "RND w 7 0 1 2 3 4 5 6 i (lay 1 v) = lay 2 (standard512_round w v i)"
  "RND w 6 7 0 1 2 3 4 5 i (lay 2 v) = lay 3 (standard512_round w v i)"
  "RND w 5 6 7 0 1 2 3 4 i (lay 3 v) = lay 4 (standard512_round w v i)"
  "RND w 4 5 6 7 0 1 2 3 i (lay 4 v) = lay 5 (standard512_round w v i)"
  "RND w 3 4 5 6 7 0 1 2 i (lay 5 v) = lay 6 (standard512_round w v i)"
  "RND w 2 3 4 5 6 7 0 1 i (lay 6 v) = lay 7 (standard512_round w v i)"
  "RND w 1 2 3 4 5 6 7 0 i (lay 7 v) = lay 0 (standard512_round w v i)"
proof -
  obtain a b c d e f g h where v: "v = (a, b, c, d, e, f, g, h)" by (metis surj_pair)
  show "RND w 0 1 2 3 4 5 6 7 i (lay 0 v) = lay 1 (standard512_round w v i)" unfolding v by (simp add: lay_simps lay_simps(2) [unfolded One_nat_def] RND_sums standard_sums Let_def)
  show "RND w 7 0 1 2 3 4 5 6 i (lay 1 v) = lay 2 (standard512_round w v i)" unfolding v by (simp add: lay_simps lay_simps(2) [unfolded One_nat_def] RND_sums standard_sums Let_def)
  show "RND w 6 7 0 1 2 3 4 5 i (lay 2 v) = lay 3 (standard512_round w v i)" unfolding v by (simp add: lay_simps lay_simps(2) [unfolded One_nat_def] RND_sums standard_sums Let_def)
  show "RND w 5 6 7 0 1 2 3 4 i (lay 3 v) = lay 4 (standard512_round w v i)" unfolding v by (simp add: lay_simps lay_simps(2) [unfolded One_nat_def] RND_sums standard_sums Let_def)
  show "RND w 4 5 6 7 0 1 2 3 i (lay 4 v) = lay 5 (standard512_round w v i)" unfolding v by (simp add: lay_simps lay_simps(2) [unfolded One_nat_def] RND_sums standard_sums Let_def)
  show "RND w 3 4 5 6 7 0 1 2 i (lay 5 v) = lay 6 (standard512_round w v i)" unfolding v by (simp add: lay_simps lay_simps(2) [unfolded One_nat_def] RND_sums standard_sums Let_def)
  show "RND w 2 3 4 5 6 7 0 1 i (lay 6 v) = lay 7 (standard512_round w v i)" unfolding v by (simp add: lay_simps lay_simps(2) [unfolded One_nat_def] RND_sums standard_sums Let_def)
  show "RND w 1 2 3 4 5 6 7 0 i (lay 7 v) = lay 0 (standard512_round w v i)" unfolding v by (simp add: lay_simps lay_simps(2) [unfolded One_nat_def] RND_sums standard_sums Let_def)
qed

lemma eight_rounds_lay: "eight_rounds w (lay 0 v) i = lay 0 (foldl (standard512_round w) v [i..<i + 8])"
proof -
  have "[i..<i + 8] = [i + 0, i + 1, i + 2, i + 3, i + 4, i + 5, i + 6, i + 7]" by (simp add: eval_nat_numeral upt_rec)
  then show ?thesis by (simp only: eight_rounds_def RND_lay Let_def foldl_Cons foldl_Nil)
qed

lemma rounds_lay: "foldl (eight_rounds w) (lay 0 v) (map (\<lambda>k. 8 * k) [0..<n]) = lay 0 (foldl (standard512_round w) v [0..<8 * n])"
proof (induction n)
  case (Suc n)
  have "[0..<8 * Suc n] = [0..<8 * n] @ [8 * n..<8 * n + 8]" using upt_add_eq_append [of 0 "8 * n" 8] by (simp add: add.commute)
  with Suc show ?case by (simp add: eight_rounds_lay)
qed simp

lemma compress512_standard: "compress512 st m = standard512 st m"
proof -
  have upt: "[0..<8] = [0, 1, 2, 3, 4, 5, 6, 7 :: nat]" by (simp add: eval_nat_numeral upt_rec)
  obtain a b c d e f g h where v: "foldl (standard512_round (words512 m)) (st ! 0, st ! 1, st ! 2, st ! 3, st ! 4, st ! 5, st ! 6, st ! 7) [0..<80] =
      (a, b, c, d, e, f, g, h)" by (metis surj_pair)
  have "foldl (eight_rounds (words512 m)) [st ! 0, st ! 1, st ! 2, st ! 3, st ! 4, st ! 5, st ! 6, st ! 7] (map (\<lambda>k. 8 * k) [0..<10]) =
      [a, b, c, d, e, f, g, h]"
    using rounds_lay [of "words512 m" "(st ! 0, st ! 1, st ! 2, st ! 3, st ! 4, st ! 5, st ! 6, st ! 7)" 10]
    using v by (simp add: lay_simps)
  then show ?thesis by (simp only: compress512_def standard512_def v prod.case upt list.map Let_def) simp
qed

section \<open>Contexts and messages\<close>

definition md_ok :: "sha512_context \<Rightarrow> bool" where
  "md_ok c \<longleftrightarrow> length (md_buf c) = 128 \<and> unat (curlen c) < 128 \<and> length (md_state c) = 8"

definition md_view :: "sha512_context \<Rightarrow> u64 list \<times> byte list" where
  "md_view c = (md_state c, take (unat (curlen c)) (md_buf c))"

definition md_bits :: "sha512_context \<Rightarrow> u64" where
  "md_bits c = md_length c + of_nat (8 * unat (curlen c))"

definition pad128 :: "nat \<Rightarrow> u64 \<Rightarrow> byte list" where
  "pad128 r b = 0x80 # replicate ((239 - r) mod 128) 0 @ replicate 8 0 @ be64 b"

lemma length_compress512 [simp]: "length (compress512 s d) = 8"
  by (simp add: compress512_def Let_def)

lemma fill_buf_eq: "k + length xs \<le> length buf \<Longrightarrow> fill_buf buf k xs = take k buf @ xs @ drop (k + length xs) buf"
proof (induction xs arbitrary: buf k)
  case (Cons x xs)
  then show ?case by (simp add: take_update_Suc)
qed simp

text \<open>One pass of the loop: a piece of the data, up to the end of the block.\<close>

lemma buffer512_view:
  assumes "md_ok md" "unat (curlen md) + k \<le> 128" "k \<le> length inp"
  shows "md_ok (buffer512 md inp (of_nat k))"
    "md_view (buffer512 md inp (of_nat k)) = absorb 128 compress512 (fst (md_view md)) (snd (md_view md) @ take k inp)"
    "md_bits (buffer512 md inp (of_nat k)) = md_bits md + of_nat (8 * k)"
proof -
  let ?n = "unat (curlen md)" and ?xs = "take k inp" and ?md2 = "buffer512 md inp (of_nat k)"
  define md1 where "md1 = md\<lparr>md_buf := fill_buf (md_buf md) ?n ?xs, curlen := curlen md + of_nat k\<rparr>"
  have n: "?n < 128" "length (md_buf md) = 128" "length (md_state md) = 8" using assms(1) by (simp_all add: md_ok_def)
  have buf: "md_buf md1 = take ?n (md_buf md) @ ?xs @ drop (?n + k) (md_buf md)"
    using assms(2,3) n by (simp add: md1_def fill_buf_eq)
  have k: "unat (of_nat k :: u32) = k" using assms(2) by (intro unat_of_nat_small) simp
  have cur: "unat (curlen md1) = ?n + k"
    using assms(2) n k by (simp add: md1_def unat_word_ariths(1))
  have full: "curlen md1 = 128 \<longleftrightarrow> ?n + k = 128" unfolding cur [symmetric] by (simp add: word_unat_eq_iff)
  have md2: "?md2 = (if curlen md1 = 128
      then (let md = sha512_compress md1 (md_buf md1) in md\<lparr>md_length := md_length md + 1024, curlen := 0\<rparr>) else md1)"
    by (simp only: buffer512_def k md1_def Let_def)
  have "md_ok ?md2 \<and> md_view ?md2 = absorb 128 compress512 (md_state md) (take ?n (md_buf md) @ ?xs) \<and>
      md_bits ?md2 = md_bits md + of_nat (8 * k)"
  proof (cases "?n + k = 128")
    case True
    have "absorb 128 compress512 (md_state md) (take ?n (md_buf md) @ ?xs) = (compress512 (md_state md) (take ?n (md_buf md) @ ?xs), [])"
      using absorb_block [of 128 "take ?n (md_buf md) @ ?xs" compress512 "md_state md" "[]"] True n assms(3) by (simp add: absorb_short)
    moreover have "(of_nat (8 * ?n) :: u64) + of_nat (8 * k) = of_nat (8 * (?n + k))" by simp
    then have "(of_nat (8 * ?n) :: u64) + of_nat (8 * k) = 1024" unfolding True by simp
    moreover have "md_buf md1 = take ?n (md_buf md) @ ?xs" using buf True n by simp
    ultimately show ?thesis
      using True full n assms(3)
      by (simp add: md2 md_ok_def md_view_def md_bits_def sha512_compress_def Let_def) (simp add: md1_def)
  next
    case False
    then have "absorb 128 compress512 (md_state md) (take ?n (md_buf md) @ ?xs) = (md_state md, take ?n (md_buf md) @ ?xs)"
      using assms(2,3) n by (intro absorb_short) simp
    moreover have "?md2 = md1" using False full by (simp add: md2)
    ultimately show ?thesis
      using False cur n buf assms(2,3) by (simp add: md_ok_def md_view_def md_bits_def algebra_simps) (simp add: md1_def)
  qed
  then show "md_ok ?md2" "md_view ?md2 = absorb 128 compress512 (fst (md_view md)) (snd (md_view md) @ ?xs)"
    "md_bits ?md2 = md_bits md + of_nat (8 * k)" by (simp_all add: md_view_def)
qed

lemma update512_block:
  assumes "md_ok md" "curlen md = 0" "length b = 128"
  defines "md1 \<equiv> (sha512_compress md b)\<lparr>md_length := md_length (sha512_compress md b) + 1024\<rparr>"
  shows "md_ok md1" "md_view md1 = absorb 128 compress512 (fst (md_view md)) (snd (md_view md) @ b)"
    "md_bits md1 = md_bits md + of_nat (8 * length b)"
  using assms absorb_block [of 128 b compress512 "md_state md" "[]"]
  by (simp_all add: md1_def md_ok_def md_view_def md_bits_def sha512_compress_def absorb_short)

lemma min_word: "unat (curlen md) < 128 \<Longrightarrow> length xs < 2 ^ 32 \<Longrightarrow>
  unat (min (of_nat (length xs)) (128 - curlen md)) = min (length xs) (128 - unat (curlen md))"
proof -
  assume "unat (curlen md) < 128" "length xs < 2 ^ 32"
  then have "unat (128 - curlen md) = 128 - unat (curlen md)" "unat (of_nat (length xs) :: u32) = length xs"
    by (simp_all add: unat_sub_if_size unat_of_nat_small)
  then show ?thesis by (simp add: min_def word_le_nat_alt)
qed

lemma update512_bytes:
  "md_ok md \<Longrightarrow> length xs < 2 ^ 32 \<Longrightarrow>
    md_ok (update512_loop md xs (of_nat (length xs))) \<and>
    md_view (update512_loop md xs (of_nat (length xs))) = absorb 128 compress512 (fst (md_view md)) (snd (md_view md) @ xs) \<and>
    md_bits (update512_loop md xs (of_nat (length xs))) = md_bits md + of_nat (8 * length xs)"
proof (induction "length xs" arbitrary: md xs rule: less_induct)
  case less
  let ?len = "of_nat (length xs) :: u32" and ?n = "unat (curlen md)"
  have len: "unat ?len = length xs" and n: "?n < 128" using less.prems by (simp_all add: unat_of_nat_small md_ok_def)
  have step: "md_ok (update512_loop md xs ?len) \<and>
      md_view (update512_loop md xs ?len) = absorb 128 compress512 (fst (md_view md)) (snd (md_view md) @ xs) \<and>
      md_bits (update512_loop md xs ?len) = md_bits md + of_nat (8 * length xs)"
    if "0 < k" "k \<le> length xs" "update512_loop md xs ?len = update512_loop md1 (drop k xs) (of_nat (length (drop k xs)))"
      "md_ok md1" "md_view md1 = absorb 128 compress512 (fst (md_view md)) (snd (md_view md) @ take k xs)"
      "md_bits md1 = md_bits md + of_nat (8 * length (take k xs))" for k md1
  proof -
    have "absorb 128 compress512 (fst (md_view md)) ((snd (md_view md) @ take k xs) @ drop k xs) =
        absorb 128 compress512 (fst (md_view md1)) (snd (md_view md1) @ drop k xs)"
      using that(5) by (subst absorb_append) (simp_all add: case_prod_beta)
    moreover have "(of_nat (8 * k) :: u64) + of_nat (8 * (length xs - k)) = of_nat (8 * length xs)"
      unfolding of_nat_add [symmetric] by (rule arg_cong [where f = of_nat]) (use that(2) in simp)
    ultimately show ?thesis
      using less.hyps [of "drop k xs" md1] less.prems(2) that by (simp add: add.assoc)
  qed
  have sub: "?len - of_nat k = of_nat (length (drop k xs))" if "k \<le> length xs" for k using that by simp
  show ?case
  proof (cases "xs = []")
    case True
    then show ?thesis using less.prems n by (simp add: update512_loop.simps md_view_def absorb_short)
  next
    case False
    then have nz: "?len \<noteq> 0" using len by (metis length_0_conv unsigned_0)
    show ?thesis
    proof (cases "curlen md = 0 \<and> ?len \<ge> 128")
      case True
      then have k: "128 \<le> length xs" using len by (simp add: word_le_nat_alt)
      show ?thesis
        using True nz k update512_block [OF less.prems(1), of "take 128 xs"] sub [OF k]
        by (intro step [of 128 "(sha512_compress md (take 128 xs))\<lparr>md_length := md_length (sha512_compress md (take 128 xs)) + 1024\<rparr>"])
           (simp_all add: update512_loop.simps [of md xs] Let_def)
    next
      case no: False
      define k where "k = min (length xs) (128 - ?n)"
      have k: "0 < k" "k \<le> length xs" "?n + k \<le> 128" using False n by (auto simp: k_def)
      have m: "unat (min ?len (128 - curlen md)) = k" using min_word [OF n less.prems(2)] by (simp add: k_def)
      then have m': "min ?len (128 - curlen md) = of_nat k" by (metis of_nat_unat ucast_id)
      show ?thesis
        using nz no k m m' sub [OF k(2)] buffer512_view [OF less.prems(1) k(3,2)]
        by (intro step [of k "buffer512 md xs (of_nat k)"]) (auto simp: update512_loop.simps [of md xs] Let_def)
    qed
  qed
qed

section \<open>Padding\<close>

lemma pad_buf_eq:
  assumes "curlen md \<le> k" "unat k \<le> length (md_buf md)"
  shows "pad_buf k md = md\<lparr>md_buf := take (unat (curlen md)) (md_buf md) @ replicate (unat k - unat (curlen md)) 0 @ drop (unat k) (md_buf md), curlen := k\<rparr>"
  using assms
proof (induction k md rule: pad_buf.induct)
  case (1 k md)
  let ?n = "unat (curlen md)" and ?md = "md\<lparr>md_buf := (md_buf md)[unat (curlen md) := 0], curlen := curlen md + 1\<rparr>"
  show ?case
  proof (cases "curlen md < k")
    case True
    then have u: "unat (curlen md + 1) = Suc ?n" by (rule unat_inc)
    then have "curlen md + 1 \<le> k" using True by (simp add: word_less_nat_alt word_le_nat_alt)
    then have "pad_buf k md = ?md\<lparr>md_buf := take (Suc ?n) (md_buf ?md) @ replicate (unat k - Suc ?n) 0 @ drop (unat k) (md_buf ?md), curlen := k\<rparr>"
      using 1 True u by (simp add: pad_buf.simps [of k md])
    moreover have "?n < unat k" using True by (simp add: word_less_nat_alt)
    ultimately show ?thesis
      using 1(3) by (simp add: take_update_Suc Suc_diff_Suc flip: replicate_Suc)
  next
    case False
    then show ?thesis using 1 by (simp add: pad_buf.simps [of k md])
  qed
qed

lemma STORE64H_be64: "STORE64H x = be64 x"
proof -
  have m: "(255 :: u64) = mask 8" by (simp add: mask_eq_exp_minus_1)
  have "ucast (y AND 255) = (ucast y :: byte)" for y :: u64 unfolding m by (rule bit_word_eqI) (auto simp: bit_simps)
  then show ?thesis by (simp add: STORE64H_def be64_def upt_rec)
qed

definition words64_out :: "u64 list \<Rightarrow> byte list" where
  "words64_out s = concat (map be64 s)"

lemma digest64_bytes: "length s = 8 \<Longrightarrow> concat (map (\<lambda>i. be64 (s ! i)) [0..<8]) = words64_out s"
  using arg_cong [OF map_nth [of s], of "map be64"] by (simp add: words64_out_def comp_def)

lemma mod_pad128: "n < 112 \<Longrightarrow> (239 - n) mod 128 = 111 - n" "\<not> n < 112 \<Longrightarrow> (239 - n) mod 128 = 239 - (n :: nat)"
proof -
  assume "n < 112"
  then have "239 - n = (111 - n) + 128" "111 - n < 128" by simp_all
  then show "(239 - n) mod 128 = 111 - n" by (metis mod_add_self2 mod_less)
qed simp

lemma final512:
  assumes "md_ok c"
  shows "sha512_final (Some c) (Some out) = (0, Some (words64_out (fst (absorb 128 compress512 (fst (md_view c))
    (snd (md_view c) @ pad128 (length (snd (md_view c))) (md_bits c)))) @ drop 64 out))"
proof -
  let ?n = "unat (curlen c)" and ?s = "md_state c"
  define r where "r = take ?n (md_buf c)"
  define b where "b = md_length c + ucast (curlen c) * 8"
  define md1 where "md1 = c\<lparr>md_length := b, md_buf := (md_buf c)[?n := 0x80], curlen := curlen c + 1\<rparr>"
  have n: "?n < 128" "length (md_buf c) = 128" "length ?s = 8" "length r = ?n" using assms by (simp_all add: md_ok_def r_def)
  have b: "md_bits c = b" by (simp add: b_def md_bits_def)
  have cur: "unat (curlen md1) = Suc ?n" using n(1) unat_inc [of "curlen c" 128] by (simp add: md1_def word_less_nat_alt)
  have buf: "take (Suc ?n) (md_buf md1) = r @ [0x80]" "length (md_buf md1) = 128"
    using n by (simp_all add: md1_def take_update_Suc r_def)
  have lt: "\<not> curlen c \<ge> 128" using n(1) by (simp add: word_le_nat_alt)
  have final: "sha512_final (Some c) (Some out) =
      (let md = (if curlen md1 > 112 then (sha512_compress (pad_buf 128 md1) (md_buf (pad_buf 128 md1)))\<lparr>curlen := 0\<rparr> else md1); md = pad_buf 120 md
       in (0, Some (words64_out (compress512 (md_state md) (take 120 (md_buf md) @ be64 (md_length md) @ drop 128 (md_buf md))) @ drop 64 out)))"
    using lt by (simp add: sha512_final_def b_def md1_def STORE64H_be64 digest64_bytes sha512_compress_def Let_def)
  have "sha512_final (Some c) (Some out) = (0, Some (words64_out (fst (absorb 128 compress512 ?s (r @ pad128 ?n b))) @ drop 64 out))"
  proof (cases "?n < 112")
    case True
    define A where "A = r @ 0x80 # replicate (119 - ?n) 0"
    have A: "length A = 120" using True n by (simp add: A_def)
    have "replicate (119 - ?n) (0 :: byte) = replicate (111 - ?n) 0 @ replicate 8 0" using True by (simp flip: replicate_add)
    then have "r @ pad128 ?n b = A @ be64 b" using mod_pad128(1) [OF True] by (simp add: pad128_def A_def)
    then have "absorb 128 compress512 ?s (r @ pad128 ?n b) = (compress512 ?s (A @ be64 b), [])"
      using absorb_block [of 128 "A @ be64 b" compress512 ?s "[]"] A by (simp add: absorb_short)
    moreover have "\<not> curlen md1 > 112" "curlen md1 \<le> 120" using True cur by (simp_all add: word_less_nat_alt word_le_nat_alt)
    moreover from this have "pad_buf 120 md1 = md1\<lparr>md_buf := A @ drop 120 (md_buf md1), curlen := 120\<rparr>"
      using pad_buf_eq [of md1 120] buf cur True by (simp add: A_def)
    ultimately show ?thesis using final A buf by (simp add: md1_def)
  next
    case False
    define B where "B = r @ 0x80 # replicate (127 - ?n) 0"
    have B: "length B = 128" using n by (simp add: B_def)
    have "replicate (239 - ?n) (0 :: byte) @ replicate 8 0 = replicate (127 - ?n) 0 @ replicate 120 0"
      using False n(1) by (simp flip: replicate_add)
    then have "r @ pad128 ?n b = B @ (replicate 120 0 @ be64 b)"
      using mod_pad128(2) [OF False] by (simp add: pad128_def B_def flip: append_assoc)
    then have "absorb 128 compress512 ?s (r @ pad128 ?n b) = (compress512 (compress512 ?s B) (replicate 120 0 @ be64 b), [])"
      using absorb_block [of 128 B compress512 ?s "replicate 120 0 @ be64 b"] B
        absorb_block [of 128 "replicate 120 0 @ be64 b" compress512 "compress512 ?s B" "[]"] by (simp add: absorb_short)
    moreover have "curlen md1 > 112" "curlen md1 \<le> 128" using False n cur by (simp_all add: word_less_nat_alt word_le_nat_alt)
    moreover from this have p: "pad_buf 128 md1 = md1\<lparr>md_buf := B, curlen := 128\<rparr>"
      using pad_buf_eq [of md1 128] buf cur by (simp add: B_def)
    moreover have "pad_buf 120 ((sha512_compress (pad_buf 128 md1) (md_buf (pad_buf 128 md1)))\<lparr>curlen := 0\<rparr>) =
        md1\<lparr>md_state := compress512 (md_state md1) B, md_buf := replicate 120 0 @ drop 120 B, curlen := 120\<rparr>"
      using B by (simp add: p pad_buf_eq sha512_compress_def)
    ultimately show ?thesis using final B by (simp add: md1_def)
  qed
  then show ?thesis using n b by (simp add: md_view_def r_def)
qed

definition sha512_iv :: "u64 list" where
  "sha512_iv = [0x6a09e667f3bcc908, 0xbb67ae8584caa73b, 0x3c6ef372fe94f82b, 0xa54ff53a5f1d36f1,
     0x510e527fade682d1, 0x9b05688c2b3e6c1f, 0x1f83d9abfb41bd6b, 0x5be0cd19137e2179]"

definition md_started :: "sha512_context \<Rightarrow> bool" where
  "md_started c \<longleftrightarrow> (\<exists>ctx. length (md_buf ctx) = 128 \<and> sha512_init (Some ctx) = (0, Some c))"

interpretation md: stream_hash 128 compress512 md_ok md_view md_bits "\<lambda>xs. length xs < 2 ^ 32"
  "\<lambda>c xs. update512_loop c xs (of_nat (length xs))" sha512_iv pad128 words64_out md_started
  "\<lambda>c. the (snd (sha512_final (Some c) (Some [])))"
proof
  fix c xs assume "md_ok c" "length (xs :: byte list) < 2 ^ 32"
  then show "md_ok (update512_loop c xs (of_nat (length xs)))"
    "md_view (update512_loop c xs (of_nat (length xs))) = absorb 128 compress512 (fst (md_view c)) (snd (md_view c) @ xs)"
    "md_bits (update512_loop c xs (of_nat (length xs))) = md_bits c + of_nat (8 * length xs)"
    using update512_bytes [of c xs] by simp_all
qed (auto simp: md_started_def sha512_init_def md_ok_def md_view_def md_bits_def sha512_iv_def,
     simp add: final512 md_ok_def md_view_def md_bits_def)

text \<open>Data in pieces, stopping at the first error.\<close>

fun sha512_updates :: "sha512_context option \<Rightarrow> byte list list \<Rightarrow> int \<times> sha512_context option" where
  "sha512_updates md [] = (0, md)"
| "sha512_updates md (p # ps) =
     (let (ret, md) = sha512_update md (Some p) (of_nat (length p)) in if ret \<noteq> 0 then (ret, md) else sha512_updates md ps)"

definition sha512_digest :: "byte list \<Rightarrow> byte list" where
  "sha512_digest = padded_digest 128 standard512 sha512_iv pad128 words64_out"

lemma sha512_updates_loop:
  "md_ok c \<Longrightarrow> \<forall>p \<in> set ps. length p < 2 ^ 32 \<Longrightarrow>
    sha512_updates (Some c) ps = (0, Some (foldl (\<lambda>c xs. update512_loop c xs (of_nat (length xs))) c ps))"
proof (induction ps arbitrary: c)
  case (Cons p ps)
  have "\<not> curlen c > 128" using Cons.prems(1) by (simp add: md_ok_def word_less_nat_alt)
  moreover have "md_ok (update512_loop c p (of_nat (length p)))" using Cons.prems update512_bytes by simp
  ultimately show ?case using Cons by (simp add: sha512_update_def)
qed simp

lemma sha512_digest_final:
  assumes "length (md_buf ctx) = 128" "\<forall>p \<in> set ps. length p < 2 ^ 32"
  shows "\<exists>c c'. sha512_init (Some ctx) = (0, Some c) \<and> sha512_updates (Some c) ps = (0, Some c') \<and>
    sha512_final (Some c') (Some out) = (0, Some (sha512_digest (concat ps) @ drop 64 out))"
proof -
  obtain c where c: "sha512_init (Some ctx) = (0, Some c)" by (simp add: sha512_init_def)
  then have s: "md_started c" "list_all (\<lambda>p. length p < 2 ^ 32) ps"
    using assms by (auto simp: md_started_def list_all_iff)
  note ok = md.start_invar [OF s(1)]
  let ?c' = "foldl (\<lambda>c xs. update512_loop c xs (of_nat (length xs))) c ps"
  have "the (snd (sha512_final (Some ?c') (Some []))) = sha512_digest (concat ps)"
    using md.digest_pieces [OF s] by (simp add: sha512_digest_def compress512_standard [abs_def, symmetric])
  then have "sha512_final (Some ?c') (Some out) = (0, Some (sha512_digest (concat ps) @ drop 64 out))"
    using final512 [OF md.updates(1) [OF ok s(2)], of out] final512 [OF md.updates(1) [OF ok s(2)], of "[]"] by simp
  then show ?thesis using c sha512_updates_loop [OF ok assms(2)] by blast
qed

lemma sha512_digest_whole:
  assumes "length (md_buf ctx) = 128" "length m < 2 ^ 32"
  shows "sha512 ctx (Some m) (of_nat (length m)) (Some out) = (0, Some (sha512_digest m @ drop 64 out))"
proof -
  obtain c c' where c: "sha512_init (Some ctx) = (0, Some c)" "sha512_updates (Some c) [m] = (0, Some c')"
    "sha512_final (Some c') (Some out) = (0, Some (sha512_digest m @ drop 64 out))"
    using sha512_digest_final [OF assms(1), of "[m]" out] assms(2) by auto
  obtain r md where u: "sha512_update (Some c) (Some m) (of_nat (length m)) = (r, md)" by fastforce
  then have "r = 0" "md = Some c'" using c(2) by (simp_all split: if_splits)
  then show ?thesis using c u by (simp add: sha512_def)
qed

lemma length_sha512_digest: "length (sha512_digest m) = 64"
proof -
  have "length (standard512 s d) = 8" for s d by (simp add: standard512_def split: prod.split)
  moreover have "length (words64_out s) = 8 * length s" for s by (induction s) (simp_all add: words64_out_def)
  ultimately show ?thesis
    using absorb_invariant [of "\<lambda>s. length s = 8" standard512]
    by (simp add: sha512_digest_def padded_digest_def sha512_iv_def)
qed

text \<open>
  Errors are reported without effect: a missing context, missing data or missing output give the code one, as do
  data for a context with a wrong fill level and a digest for one with a full buffer, and then neither the context nor
  the output changes.
\<close>

lemma sha512_errors:
  "sha512_init None = (1, None)"
  "sha512_update None inp len = (1, None)"
  "sha512_update md None len = (1, md)"
  "sha512_final None out = (1, out)"
  "sha512_final md None = (1, None)"
  "128 < curlen c \<Longrightarrow> sha512_update (Some c) inp len = (1, Some c)"
  "128 \<le> curlen c \<Longrightarrow> sha512_final (Some c) out = (1, out)"
  "sha512 ctx None len out = (1, out)"
  "sha512 ctx (Some m) len None = (1, None)"
  by (auto simp: sha512_init_def sha512_update_def sha512_final_def sha512_def split: option.split)

section \<open>Properties\<close>

text \<open>
  Hashing a message in any pieces succeeds and gives the digest of the standard: the code writes the round
  functions with fewer operations, renames variables by rotating the places of an array, and compresses whole blocks
  without copying them. The one-call function agrees.
\<close>

theorem sha512_pieces:
  assumes "length (md_buf ctx) = 128" and "\<forall>p \<in> set ps. length p < 2 ^ 32" and "length out = 64"
  shows "(\<exists>c c'. sha512_init (Some ctx) = (0, Some c) \<and> sha512_updates (Some c) ps = (0, Some c') \<and>
      sha512_final (Some c') (Some out) = (0, Some (sha512_digest (concat ps)))) \<and>
    (length m < 2 ^ 32 \<longrightarrow> sha512 ctx (Some m) (of_nat (length m)) (Some out) = (0, Some (sha512_digest m))) \<and>
    length (sha512_digest m) = 64 \<and> compress512 st d = standard512 st d"
proof (intro conjI impI)
  show "\<exists>c c'. sha512_init (Some ctx) = (0, Some c) \<and> sha512_updates (Some c) ps = (0, Some c') \<and>
      sha512_final (Some c') (Some out) = (0, Some (sha512_digest (concat ps)))"
    using sha512_digest_final [OF assms(1,2), of out] assms(3) by simp
  show "sha512 ctx (Some m) (of_nat (length m)) (Some out) = (0, Some (sha512_digest m))" if "length m < 2 ^ 32"
    using sha512_digest_whole [OF assms(1) that, of out] assms(3) by simp
qed (rule length_sha512_digest, rule compress512_standard)

definition sha512_blank :: sha512_context where
  "sha512_blank = \<lparr>md_length = 0, md_state = [], curlen = 0, md_buf = replicate 128 0\<rparr>"

theorem sha512_pieces_witness:
  "\<exists>c c'. sha512_init (Some sha512_blank) = (0, Some c) \<and> sha512_updates (Some c) [[97], [98, 99]] = (0, Some c') \<and>
    sha512_final (Some c') (Some (replicate 64 0)) = sha512 sha512_blank (Some [97, 98, 99]) 3 (Some (replicate 64 0))"
proof -
  have h: "length (md_buf sha512_blank) = 128" "\<forall>p \<in> set [[97], [98, 99 :: byte]]. length p < 2 ^ 32" "length (replicate 64 (0 :: byte)) = 64"
    by (simp_all add: sha512_blank_def)
  show ?thesis using sha512_pieces [OF h, of "[97, 98, 99]"] by simp
qed

end
