(* ===== verification/Aes.thy ===== *)
theory Aes
  imports Prelude
begin

text \<open>
  The block cipher of \<^verbatim>\<open>utility/crypto/symmetric/aes/aes.cpp\<close> with its three modes, for 128-bit keys. The state of
  a block, \<^verbatim>\<open>uint8_t[4][4]\<close> laid over the buffer, is the list of its sixteen bytes: \<^verbatim>\<open>(*state)[i][j]\<close> is the element
  \<open>4 * i + j\<close>. A buffer with a length is the list of its bytes.
\<close>

section \<open>Model\<close>

abbreviation (input) "Nk \<equiv> (4 :: nat)"
abbreviation (input) "Nr \<equiv> (10 :: nat)"

definition sbox :: "byte list" where
  "sbox =
    [0x63, 0x7c, 0x77, 0x7b, 0xf2, 0x6b, 0x6f, 0xc5, 0x30, 0x01, 0x67, 0x2b, 0xfe, 0xd7, 0xab, 0x76,
     0xca, 0x82, 0xc9, 0x7d, 0xfa, 0x59, 0x47, 0xf0, 0xad, 0xd4, 0xa2, 0xaf, 0x9c, 0xa4, 0x72, 0xc0,
     0xb7, 0xfd, 0x93, 0x26, 0x36, 0x3f, 0xf7, 0xcc, 0x34, 0xa5, 0xe5, 0xf1, 0x71, 0xd8, 0x31, 0x15,
     0x04, 0xc7, 0x23, 0xc3, 0x18, 0x96, 0x05, 0x9a, 0x07, 0x12, 0x80, 0xe2, 0xeb, 0x27, 0xb2, 0x75,
     0x09, 0x83, 0x2c, 0x1a, 0x1b, 0x6e, 0x5a, 0xa0, 0x52, 0x3b, 0xd6, 0xb3, 0x29, 0xe3, 0x2f, 0x84,
     0x53, 0xd1, 0x00, 0xed, 0x20, 0xfc, 0xb1, 0x5b, 0x6a, 0xcb, 0xbe, 0x39, 0x4a, 0x4c, 0x58, 0xcf,
     0xd0, 0xef, 0xaa, 0xfb, 0x43, 0x4d, 0x33, 0x85, 0x45, 0xf9, 0x02, 0x7f, 0x50, 0x3c, 0x9f, 0xa8,
     0x51, 0xa3, 0x40, 0x8f, 0x92, 0x9d, 0x38, 0xf5, 0xbc, 0xb6, 0xda, 0x21, 0x10, 0xff, 0xf3, 0xd2,
     0xcd, 0x0c, 0x13, 0xec, 0x5f, 0x97, 0x44, 0x17, 0xc4, 0xa7, 0x7e, 0x3d, 0x64, 0x5d, 0x19, 0x73,
     0x60, 0x81, 0x4f, 0xdc, 0x22, 0x2a, 0x90, 0x88, 0x46, 0xee, 0xb8, 0x14, 0xde, 0x5e, 0x0b, 0xdb,
     0xe0, 0x32, 0x3a, 0x0a, 0x49, 0x06, 0x24, 0x5c, 0xc2, 0xd3, 0xac, 0x62, 0x91, 0x95, 0xe4, 0x79,
     0xe7, 0xc8, 0x37, 0x6d, 0x8d, 0xd5, 0x4e, 0xa9, 0x6c, 0x56, 0xf4, 0xea, 0x65, 0x7a, 0xae, 0x08,
     0xba, 0x78, 0x25, 0x2e, 0x1c, 0xa6, 0xb4, 0xc6, 0xe8, 0xdd, 0x74, 0x1f, 0x4b, 0xbd, 0x8b, 0x8a,
     0x70, 0x3e, 0xb5, 0x66, 0x48, 0x03, 0xf6, 0x0e, 0x61, 0x35, 0x57, 0xb9, 0x86, 0xc1, 0x1d, 0x9e,
     0xe1, 0xf8, 0x98, 0x11, 0x69, 0xd9, 0x8e, 0x94, 0x9b, 0x1e, 0x87, 0xe9, 0xce, 0x55, 0x28, 0xdf,
     0x8c, 0xa1, 0x89, 0x0d, 0xbf, 0xe6, 0x42, 0x68, 0x41, 0x99, 0x2d, 0x0f, 0xb0, 0x54, 0xbb, 0x16]"

definition rsbox :: "byte list" where
  "rsbox =
    [0x52, 0x09, 0x6a, 0xd5, 0x30, 0x36, 0xa5, 0x38, 0xbf, 0x40, 0xa3, 0x9e, 0x81, 0xf3, 0xd7, 0xfb,
     0x7c, 0xe3, 0x39, 0x82, 0x9b, 0x2f, 0xff, 0x87, 0x34, 0x8e, 0x43, 0x44, 0xc4, 0xde, 0xe9, 0xcb,
     0x54, 0x7b, 0x94, 0x32, 0xa6, 0xc2, 0x23, 0x3d, 0xee, 0x4c, 0x95, 0x0b, 0x42, 0xfa, 0xc3, 0x4e,
     0x08, 0x2e, 0xa1, 0x66, 0x28, 0xd9, 0x24, 0xb2, 0x76, 0x5b, 0xa2, 0x49, 0x6d, 0x8b, 0xd1, 0x25,
     0x72, 0xf8, 0xf6, 0x64, 0x86, 0x68, 0x98, 0x16, 0xd4, 0xa4, 0x5c, 0xcc, 0x5d, 0x65, 0xb6, 0x92,
     0x6c, 0x70, 0x48, 0x50, 0xfd, 0xed, 0xb9, 0xda, 0x5e, 0x15, 0x46, 0x57, 0xa7, 0x8d, 0x9d, 0x84,
     0x90, 0xd8, 0xab, 0x00, 0x8c, 0xbc, 0xd3, 0x0a, 0xf7, 0xe4, 0x58, 0x05, 0xb8, 0xb3, 0x45, 0x06,
     0xd0, 0x2c, 0x1e, 0x8f, 0xca, 0x3f, 0x0f, 0x02, 0xc1, 0xaf, 0xbd, 0x03, 0x01, 0x13, 0x8a, 0x6b,
     0x3a, 0x91, 0x11, 0x41, 0x4f, 0x67, 0xdc, 0xea, 0x97, 0xf2, 0xcf, 0xce, 0xf0, 0xb4, 0xe6, 0x73,
     0x96, 0xac, 0x74, 0x22, 0xe7, 0xad, 0x35, 0x85, 0xe2, 0xf9, 0x37, 0xe8, 0x1c, 0x75, 0xdf, 0x6e,
     0x47, 0xf1, 0x1a, 0x71, 0x1d, 0x29, 0xc5, 0x89, 0x6f, 0xb7, 0x62, 0x0e, 0xaa, 0x18, 0xbe, 0x1b,
     0xfc, 0x56, 0x3e, 0x4b, 0xc6, 0xd2, 0x79, 0x20, 0x9a, 0xdb, 0xc0, 0xfe, 0x78, 0xcd, 0x5a, 0xf4,
     0x1f, 0xdd, 0xa8, 0x33, 0x88, 0x07, 0xc7, 0x31, 0xb1, 0x12, 0x10, 0x59, 0x27, 0x80, 0xec, 0x5f,
     0x60, 0x51, 0x7f, 0xa9, 0x19, 0xb5, 0x4a, 0x0d, 0x2d, 0xe5, 0x7a, 0x9f, 0x93, 0xc9, 0x9c, 0xef,
     0xa0, 0xe0, 0x3b, 0x4d, 0xae, 0x2a, 0xf5, 0xb0, 0xc8, 0xeb, 0xbb, 0x3c, 0x83, 0x53, 0x99, 0x61,
     0x17, 0x2b, 0x04, 0x7e, 0xba, 0x77, 0xd6, 0x26, 0xe1, 0x69, 0x14, 0x63, 0x55, 0x21, 0x0c, 0x7d]"

definition Rcon :: "byte list" where
  "Rcon = [0x8d, 0x01, 0x02, 0x04, 0x08, 0x10, 0x20, 0x40, 0x80, 0x1b, 0x36]"

definition getSBoxValue :: "byte \<Rightarrow> byte" where
  "getSBoxValue num = sbox ! unat num"

definition getSBoxInvert :: "byte \<Rightarrow> byte" where
  "getSBoxInvert num = rsbox ! unat num"

record AES_ctx =
  RoundKey :: "byte list"
  Iv :: "byte list"

text \<open>One word of the key schedule, appended to those before it.\<close>

definition expand_word :: "byte list \<Rightarrow> nat \<Rightarrow> byte list" where
  "expand_word rk i =
     (let k = (i - 1) * 4;
          t = [rk ! (k + 0), rk ! (k + 1), rk ! (k + 2), rk ! (k + 3)];
          t = (if i mod Nk = 0
               then (let t = [t ! 1, t ! 2, t ! 3, t ! 0]; t = map getSBoxValue t in t[0 := t ! 0 XOR Rcon ! (i div Nk)])
               else t);
          k = (i - Nk) * 4
      in rk @ [rk ! (k + 0) XOR t ! 0, rk ! (k + 1) XOR t ! 1, rk ! (k + 2) XOR t ! 2, rk ! (k + 3) XOR t ! 3])"

definition KeyExpansion :: "byte list \<Rightarrow> byte list" where
  "KeyExpansion Key = foldl expand_word (map (\<lambda>i. Key ! i) [0..<4 * Nk]) [Nk..<4 * (Nr + 1)]"

definition AES_init_ctx :: "AES_ctx \<Rightarrow> byte list \<Rightarrow> AES_ctx" where
  "AES_init_ctx ctx key = ctx\<lparr>RoundKey := KeyExpansion key\<rparr>"

definition AES_ctx_set_iv :: "AES_ctx \<Rightarrow> byte list \<Rightarrow> AES_ctx" where
  "AES_ctx_set_iv ctx iv = ctx\<lparr>Iv := take 16 iv\<rparr>"

definition AES_init_ctx_iv :: "AES_ctx \<Rightarrow> byte list \<Rightarrow> byte list \<Rightarrow> AES_ctx" where
  "AES_init_ctx_iv ctx key iv = ctx\<lparr>RoundKey := KeyExpansion key, Iv := take 16 iv\<rparr>"

definition AddRoundKey :: "nat \<Rightarrow> byte list \<Rightarrow> byte list \<Rightarrow> byte list" where
  "AddRoundKey round rk state = map (\<lambda>x. state ! x XOR rk ! (round * 16 + x)) [0..<16]"

definition SubBytes :: "byte list \<Rightarrow> byte list" where
  "SubBytes state = map (\<lambda>x. getSBoxValue (state ! x)) [0..<16]"

definition InvSubBytes :: "byte list \<Rightarrow> byte list" where
  "InvSubBytes state = map (\<lambda>x. getSBoxInvert (state ! x)) [0..<16]"

text \<open>The rotations of the rows, as the assignments of the code.\<close>

definition ShiftRows :: "byte list \<Rightarrow> byte list" where
  "ShiftRows s =
     (let temp = s ! 1; s = s[1 := s ! 5]; s = s[5 := s ! 9]; s = s[9 := s ! 13]; s = s[13 := temp];
          temp = s ! 2; s = s[2 := s ! 10]; s = s[10 := temp];
          temp = s ! 6; s = s[6 := s ! 14]; s = s[14 := temp];
          temp = s ! 3; s = s[3 := s ! 15]; s = s[15 := s ! 11]; s = s[11 := s ! 7]
      in s[7 := temp])"

definition InvShiftRows :: "byte list \<Rightarrow> byte list" where
  "InvShiftRows s =
     (let temp = s ! 13; s = s[13 := s ! 9]; s = s[9 := s ! 5]; s = s[5 := s ! 1]; s = s[1 := temp];
          temp = s ! 2; s = s[2 := s ! 10]; s = s[10 := temp];
          temp = s ! 6; s = s[6 := s ! 14]; s = s[14 := temp];
          temp = s ! 3; s = s[3 := s ! 7]; s = s[7 := s ! 11]; s = s[11 := s ! 15]
      in s[15 := temp])"

definition xtime :: "byte \<Rightarrow> byte" where
  "xtime x = push_bit 1 x XOR ((drop_bit 7 x AND 1) * 0x1b)"

text \<open>The four bytes of a column of the state.\<close>

definition mix_column :: "byte list \<Rightarrow> nat \<Rightarrow> byte list" where
  "mix_column s i =
     (let a = s ! (4 * i); b = s ! (4 * i + 1); c = s ! (4 * i + 2); d = s ! (4 * i + 3); Tmp = a XOR b XOR c XOR d
      in [a XOR xtime (a XOR b) XOR Tmp, b XOR xtime (b XOR c) XOR Tmp, c XOR xtime (c XOR d) XOR Tmp, d XOR xtime (d XOR a) XOR Tmp])"

definition MixColumns :: "byte list \<Rightarrow> byte list" where
  "MixColumns s = concat (map (mix_column s) [0..<4])"

definition Multiply :: "byte \<Rightarrow> byte \<Rightarrow> byte" where
  "Multiply x y =
     ((y AND 1) * x) XOR ((drop_bit 1 y AND 1) * xtime x) XOR ((drop_bit 2 y AND 1) * xtime (xtime x)) XOR
     ((drop_bit 3 y AND 1) * xtime (xtime (xtime x))) XOR ((drop_bit 4 y AND 1) * xtime (xtime (xtime (xtime x))))"

definition inv_mix_column :: "byte list \<Rightarrow> nat \<Rightarrow> byte list" where
  "inv_mix_column s i =
     (let a = s ! (4 * i); b = s ! (4 * i + 1); c = s ! (4 * i + 2); d = s ! (4 * i + 3)
      in [Multiply a 0x0e XOR Multiply b 0x0b XOR Multiply c 0x0d XOR Multiply d 0x09,
          Multiply a 0x09 XOR Multiply b 0x0e XOR Multiply c 0x0b XOR Multiply d 0x0d,
          Multiply a 0x0d XOR Multiply b 0x09 XOR Multiply c 0x0e XOR Multiply d 0x0b,
          Multiply a 0x0b XOR Multiply b 0x0d XOR Multiply c 0x09 XOR Multiply d 0x0e])"

definition InvMixColumns :: "byte list \<Rightarrow> byte list" where
  "InvMixColumns s = concat (map (inv_mix_column s) [0..<4])"

text \<open>The rounds. The loops count from one to the number of rounds, and from one less down to zero.\<close>

definition Cipher :: "byte list \<Rightarrow> byte list \<Rightarrow> byte list" where
  "Cipher rk state =
     AddRoundKey Nr rk
       (ShiftRows (SubBytes
         (foldl (\<lambda>s round. AddRoundKey round rk (MixColumns (ShiftRows (SubBytes s)))) (AddRoundKey 0 rk state) [1..<Nr])))"

definition InvCipher :: "byte list \<Rightarrow> byte list \<Rightarrow> byte list" where
  "InvCipher rk state =
     AddRoundKey 0 rk
       (InvSubBytes (InvShiftRows
         (foldl (\<lambda>s round. InvMixColumns (AddRoundKey round rk (InvSubBytes (InvShiftRows s)))) (AddRoundKey Nr rk state) (rev [1..<Nr]))))"

definition AES_ECB_encrypt :: "AES_ctx \<Rightarrow> byte list \<Rightarrow> byte list" where
  "AES_ECB_encrypt ctx buf = Cipher (RoundKey ctx) buf"

definition AES_ECB_decrypt :: "AES_ctx \<Rightarrow> byte list \<Rightarrow> byte list" where
  "AES_ECB_decrypt ctx buf = InvCipher (RoundKey ctx) buf"

definition XorWithIv :: "byte list \<Rightarrow> byte list \<Rightarrow> byte list" where
  "XorWithIv buf iv = map (\<lambda>i. buf ! i XOR iv ! i) [0..<16]"

text \<open>
  Chained blocks: the processed part of the buffer and the context. The documentation asks for whole blocks; a last
  part that is shorter would be processed beyond the end of the buffer and is left out here.
\<close>

fun cbc_encrypt :: "byte list \<Rightarrow> byte list \<Rightarrow> byte list list \<Rightarrow> byte list list \<times> byte list" where
  "cbc_encrypt rk iv [] = ([], iv)"
| "cbc_encrypt rk iv (b # bs) =
     (let c = Cipher rk (XorWithIv b iv); (cs, iv') = cbc_encrypt rk c bs in (c # cs, iv'))"

fun cbc_decrypt :: "byte list \<Rightarrow> byte list \<Rightarrow> byte list list \<Rightarrow> byte list list \<times> byte list" where
  "cbc_decrypt rk iv [] = ([], iv)"
| "cbc_decrypt rk iv (b # bs) =
     (let p = XorWithIv (InvCipher rk b) iv; (ps, iv') = cbc_decrypt rk b bs in (p # ps, iv'))"

definition blocks :: "byte list \<Rightarrow> byte list list" where
  "blocks buf = map (\<lambda>k. take 16 (drop (16 * k) buf)) [0..<length buf div 16]"

definition AES_CBC_encrypt_buffer :: "AES_ctx \<Rightarrow> byte list \<Rightarrow> byte list \<times> AES_ctx" where
  "AES_CBC_encrypt_buffer ctx buf =
     (let (cs, iv) = cbc_encrypt (RoundKey ctx) (Iv ctx) (blocks buf) in (concat cs, ctx\<lparr>Iv := iv\<rparr>))"

definition AES_CBC_decrypt_buffer :: "AES_ctx \<Rightarrow> byte list \<Rightarrow> byte list \<times> AES_ctx" where
  "AES_CBC_decrypt_buffer ctx buf =
     (let (ps, iv) = cbc_decrypt (RoundKey ctx) (Iv ctx) (blocks buf) in (concat ps, ctx\<lparr>Iv := iv\<rparr>))"

text \<open>Incrementing the counter, from its last byte on.\<close>

fun increment_from :: "nat \<Rightarrow> byte list \<Rightarrow> byte list" where
  "increment_from 0 iv = iv"
| "increment_from (Suc bi) iv = (if iv ! bi = 255 then increment_from bi (iv[bi := 0]) else iv[bi := iv ! bi + 1])"

text \<open>
  Key stream: the bytes of the encrypted counter that are left are state between two calls. In the first function they
  are a local variable; in the second, with the argument \<^verbatim>\<open>resetCtx\<close>, they are static variables of the function, which
  all contexts share.
\<close>

record ctr_stream =
  ks_buffer :: "byte list"
  ks_bi :: nat

definition ctr_byte :: "AES_ctx \<times> ctr_stream \<Rightarrow> byte \<Rightarrow> byte \<times> AES_ctx \<times> ctr_stream" where
  "ctr_byte st x =
     (let (ctx, ks) = st;
          (ctx, ks) =
            (if ks_bi ks = 16
             then (ctx\<lparr>Iv := increment_from 16 (Iv ctx)\<rparr>, \<lparr>ks_buffer = Cipher (RoundKey ctx) (Iv ctx), ks_bi = 0\<rparr>)
             else (ctx, ks))
      in (x XOR ks_buffer ks ! ks_bi ks, ctx, ks\<lparr>ks_bi := ks_bi ks + 1\<rparr>))"

fun ctr_bytes :: "AES_ctx \<times> ctr_stream \<Rightarrow> byte list \<Rightarrow> byte list \<times> AES_ctx \<times> ctr_stream" where
  "ctr_bytes st [] = ([], st)"
| "ctr_bytes st (x # xs) = (let (y, st) = ctr_byte st x; (ys, st) = ctr_bytes st xs in (y # ys, st))"

definition AES_CTR_xcrypt_buffer :: "AES_ctx \<Rightarrow> byte list \<Rightarrow> byte list \<times> AES_ctx" where
  "AES_CTR_xcrypt_buffer ctx buf =
     (let (out, ctx, _) = ctr_bytes (ctx, \<lparr>ks_buffer = replicate 16 0, ks_bi = 16\<rparr>) buf in (out, ctx))"

definition AES_CTR_xcrypt_static :: "ctr_stream \<Rightarrow> AES_ctx \<Rightarrow> byte list \<Rightarrow> bool \<Rightarrow> byte list \<times> AES_ctx \<times> ctr_stream" where
  "AES_CTR_xcrypt_static ks ctx buf resetCtx =
     (let (out, ctx, ks) = ctr_bytes (ctx, ks) buf in (out, ctx, if resetCtx then ks\<lparr>ks_bi := 16\<rparr> else ks))"

section \<open>The steps of a round undo each other\<close>

lemma sbox_table: "list_all (\<lambda>i. rsbox ! unat (sbox ! i) = of_nat i) [0..<256]"
  by code_simp

lemma getSBoxInvert_Value [simp]: "getSBoxInvert (getSBoxValue x) = x"
proof -
  have "unat x < 256" using unat_bound [of x] by simp
  then have "rsbox ! unat (sbox ! unat x) = of_nat (unat x)" using sbox_table by (simp add: list_all_iff)
  then show ?thesis by (simp add: getSBoxInvert_def getSBoxValue_def)
qed

lemma sixteen:
  assumes "length s = 16"
  obtains a0 a1 a2 a3 a4 a5 a6 a7 a8 a9 a10 a11 a12 a13 a14 a15
  where "s = [a0, a1, a2, a3, a4, a5, a6, a7, a8, a9, a10, a11, a12, a13, a14, a15]"
  using assms that by (auto simp: numeral_eq_Suc length_Suc_conv)

lemma lengths [simp]:
  "length (SubBytes s) = 16" "length (InvSubBytes s) = 16" "length (AddRoundKey r rk s) = 16" "length (ShiftRows s) = length s"
  "length (InvShiftRows s) = length s" "length (MixColumns s) = 16" "length (InvMixColumns s) = 16"
  by (simp_all add: SubBytes_def InvSubBytes_def AddRoundKey_def ShiftRows_def InvShiftRows_def MixColumns_def InvMixColumns_def
      mix_column_def inv_mix_column_def Let_def length_concat comp_def upt_rec)

lemma InvSubBytes_SubBytes: "length s = 16 \<Longrightarrow> InvSubBytes (SubBytes s) = s"
  by (rule nth_equalityI) (simp_all add: InvSubBytes_def SubBytes_def)

lemma AddRoundKey_twice: "length s = 16 \<Longrightarrow> AddRoundKey r rk (AddRoundKey r rk s) = s"
  by (rule nth_equalityI) (simp_all add: AddRoundKey_def xor.assoc)

lemma InvShiftRows_ShiftRows: "length s = 16 \<Longrightarrow> InvShiftRows (ShiftRows s) = s"
  by (erule sixteen) (simp add: InvShiftRows_def ShiftRows_def Let_def)

text \<open>Doubling is linear, and the products of the inverse are sums of doublings.\<close>

lemma xtime_bit: "xtime x = push_bit 1 x XOR (if bit x 7 then 0x1b else 0)"
proof -
  have "drop_bit 7 x AND 1 = of_bool (bit x 7)" by (simp add: and_one_eq bit_iff_odd_drop_bit mod2_eq_if)
  then show ?thesis by (simp add: xtime_def)
qed

lemma xtime_xor: "xtime (x XOR y) = xtime x XOR xtime y"
  unfolding xtime_bit by (simp add: push_bit_xor bit_xor_iff ac_simps)

lemma Multiply_sums:
  "Multiply x 0x09 = x XOR xtime (xtime (xtime x))"
  "Multiply x 0x0b = x XOR xtime x XOR xtime (xtime (xtime x))"
  "Multiply x 0x0d = x XOR xtime (xtime x) XOR xtime (xtime (xtime x))"
  "Multiply x 0x0e = xtime x XOR xtime (xtime x) XOR xtime (xtime (xtime x))"
  by (simp_all add: Multiply_def)

lemma xor_left_cancel: "x XOR (x XOR y) = (y :: byte)"
  by (simp flip: xor.assoc)

lemmas xor_normal = xor.assoc xor.commute xor.left_commute xor_left_cancel

lemma column_inverse:
  fixes a b c d :: byte
  defines "Tmp \<equiv> a XOR b XOR c XOR d"
  defines "p \<equiv> a XOR xtime (a XOR b) XOR Tmp" and "q \<equiv> b XOR xtime (b XOR c) XOR Tmp"
    and "r \<equiv> c XOR xtime (c XOR d) XOR Tmp" and "s \<equiv> d XOR xtime (d XOR a) XOR Tmp"
  shows "Multiply p 0x0e XOR Multiply q 0x0b XOR Multiply r 0x0d XOR Multiply s 0x09 = a"
    "Multiply p 0x09 XOR Multiply q 0x0e XOR Multiply r 0x0b XOR Multiply s 0x0d = b"
    "Multiply p 0x0d XOR Multiply q 0x09 XOR Multiply r 0x0e XOR Multiply s 0x0b = c"
    "Multiply p 0x0b XOR Multiply q 0x0d XOR Multiply r 0x09 XOR Multiply s 0x0e = d"
  by (simp_all add: p_def q_def r_def s_def Tmp_def Multiply_sums xtime_xor xor_normal)

lemma InvMixColumns_MixColumns: "length s = 16 \<Longrightarrow> InvMixColumns (MixColumns s) = s"
proof (erule sixteen)
  fix a0 a1 a2 a3 a4 a5 a6 a7 a8 a9 a10 a11 a12 a13 a14 a15
  assume s: "s = [a0, a1, a2, a3, a4, a5, a6, a7, a8, a9, a10, a11, a12, a13, a14, a15]"
  have "[0..<4] = [0, 1, 2, 3 :: nat]" by (simp add: upt_rec)
  then show ?thesis
    unfolding s InvMixColumns_def MixColumns_def
    by (simp add: mix_column_def inv_mix_column_def Let_def column_inverse)
qed

section \<open>Blocks\<close>

lemma InvCipher_Cipher:
  assumes "length s = 16"
  shows "InvCipher rk (Cipher rk s) = s"
proof -
  let ?f = "\<lambda>s round. AddRoundKey round rk (MixColumns (ShiftRows (SubBytes s)))"
    and ?g = "\<lambda>s round. InvMixColumns (AddRoundKey round rk (InvSubBytes (InvShiftRows s)))"
  have step: "?g (ShiftRows (SubBytes (?f t r))) r = ShiftRows (SubBytes t)" if "length t = 16" for t r
    using that by (simp add: InvShiftRows_ShiftRows InvSubBytes_SubBytes AddRoundKey_twice InvMixColumns_MixColumns)
  have rounds: "foldl ?g (ShiftRows (SubBytes (foldl ?f t rs))) (rev rs) = ShiftRows (SubBytes t)" if "length t = 16" for t rs
    using that
  proof (induction rs arbitrary: t)
    case (Cons r rs)
    then show ?case using step [OF Cons.prems, of r] by simp
  qed simp
  show ?thesis
    using assms rounds [of "AddRoundKey 0 rk s" "[1..<10]"]
    by (simp add: Cipher_def InvCipher_def AddRoundKey_twice InvShiftRows_ShiftRows InvSubBytes_SubBytes)
qed

lemma length_Cipher [simp]: "length (Cipher rk s) = 16" "length (InvCipher rk s) = 16"
  by (simp_all add: Cipher_def InvCipher_def)

lemma XorWithIv_twice: "length b = 16 \<Longrightarrow> XorWithIv (XorWithIv b iv) iv = b"
  by (rule nth_equalityI) (simp_all add: XorWithIv_def xor.assoc)

lemma length_XorWithIv [simp]: "length (XorWithIv b iv) = 16"
  by (simp add: XorWithIv_def)

section \<open>Chained blocks\<close>

lemma cbc_inverse:
  assumes "\<forall>b \<in> set bs. length b = 16"
  shows "cbc_decrypt rk iv (fst (cbc_encrypt rk iv bs)) = (bs, snd (cbc_encrypt rk iv bs))"
  using assms
proof (induction bs arbitrary: iv)
  case (Cons b bs)
  then show ?case by (simp add: Let_def case_prod_beta InvCipher_Cipher XorWithIv_twice)
qed simp

lemma cbc_lengths: "length (fst (cbc_encrypt rk iv bs)) = length bs \<and> (\<forall>c \<in> set (fst (cbc_encrypt rk iv bs)). length c = 16)"
  by (induction bs arbitrary: iv) (simp_all add: Let_def case_prod_beta)

lemma blocks_concat: "\<forall>b \<in> set bs. length b = 16 \<Longrightarrow> blocks (concat bs) = bs"
proof (induction bs)
  case (Cons b bs)
  have "length (concat bs) = 16 * length bs" using Cons.prems by (induction bs) auto
  moreover have "[0..<Suc n] = 0 # map Suc [0..<n]" for n by (simp add: map_Suc_upt upt_conv_Cons del: upt_Suc)
  ultimately show ?case using Cons by (simp add: blocks_def comp_def)
qed (simp add: blocks_def)

lemma concat_blocks:
  assumes "16 dvd length buf"
  shows "concat (blocks buf) = buf" "\<forall>b \<in> set (blocks buf). length b = 16"
proof -
  obtain n where n: "length buf = 16 * n" using assms by auto
  then show "\<forall>b \<in> set (blocks buf). length b = 16" by (auto simp: blocks_def)
  have "concat (map (\<lambda>k. take 16 (drop (16 * k) buf)) [0..<m]) = take (16 * m) buf" for m
  proof (induction m)
    case (Suc m)
    then show ?case using take_add [of "16 * m" 16 buf] by (simp add: add.commute)
  qed simp
  then show "concat (blocks buf) = buf" using n by (simp add: blocks_def)
qed

section \<open>Counter mode\<close>

definition iv_val :: "byte list \<Rightarrow> nat" where
  "iv_val xs = foldl (\<lambda>n b. n * 256 + unat b) 0 xs"

lemma iv_val_snoc: "iv_val (xs @ [b]) = iv_val xs * 256 + unat b"
  by (simp add: iv_val_def)

lemma iv_val_bound: "iv_val xs < 256 ^ length xs"
proof (induction xs rule: rev_induct)
  case (snoc b xs)
  then have "iv_val xs * 256 + 256 \<le> 256 ^ length xs * 256" by simp
  moreover have "unat b < 256" using unat_bound [of b] by simp
  ultimately show ?case by (simp add: iv_val_snoc)
qed (simp add: iv_val_def)

lemma length_increment [simp]: "length (increment_from k iv) = length iv"
  by (induction k iv rule: increment_from.induct) simp_all

lemma increment_val:
  "k \<le> length iv \<Longrightarrow> drop k (increment_from k iv) = drop k iv \<and> iv_val (take k (increment_from k iv)) = (iv_val (take k iv) + 1) mod 256 ^ k"
proof (induction k iv rule: increment_from.induct)
  case (1 iv)
  then show ?case by (simp add: iv_val_def)
next
  case (2 k iv)
  have t: "take (Suc k) iv = take k iv @ [iv ! k]" "k < length iv" using 2(2) by (simp_all add: take_Suc_conv_app_nth)
  show ?case
  proof (cases "iv ! k = 255")
    case True
    let ?r = "increment_from k (iv[k := 0])"
    have ih: "drop k ?r = drop k (iv[k := 0])" "iv_val (take k ?r) = (iv_val (take k iv) + 1) mod 256 ^ k"
      using 2 True by simp_all
    have "?r ! k = 0" using ih(1) t(2) by (metis length_increment length_list_update nth_via_drop Cons_nth_drop_Suc nth_list_update_eq)
    then have "take (Suc k) ?r = take k ?r @ [0]" using t(2) by (simp add: take_Suc_conv_app_nth)
    then have "iv_val (take (Suc k) ?r) = ((iv_val (take k iv) + 1) mod 256 ^ k) * 256" using ih(2) by (simp add: iv_val_snoc)
    also have "\<dots> = (iv_val (take (Suc k) iv) + 1) mod 256 ^ Suc k"
    proof -
      have "unat (iv ! k) = 255" unfolding True by simp
      then have "iv_val (take (Suc k) iv) + 1 = (iv_val (take k iv) + 1) * 256" unfolding t(1) iv_val_snoc by simp
      then show ?thesis by (simp only: mult_mod_left power_Suc2)
    qed
    finally have "iv_val (take (Suc k) ?r) = (iv_val (take (Suc k) iv) + 1) mod 256 ^ Suc k" .
    moreover have "drop (Suc k) ?r = drop (Suc k) iv" using arg_cong [OF ih(1), of "drop 1"] by simp
    ultimately show ?thesis using True by simp
  next
    case False
    then have "unat (iv ! k) \<noteq> 255" by (simp add: word_unat_eq_iff)
    then have lt: "unat (iv ! k) < 255" using unat_bound [of "iv ! k"] by simp
    then have "unat (iv ! k + 1) = unat (iv ! k) + 1" using unat_inc [of "iv ! k" 255] by (simp add: word_less_nat_alt)
    moreover have "iv_val (take k iv) * 256 + unat (iv ! k) + 1 < 256 ^ Suc k"
      using iv_val_bound [of "take k iv"] t(2) lt by simp
    ultimately show ?thesis using False t by (simp add: take_Suc_conv_app_nth iv_val_snoc)
  qed
qed

definition next_iv :: "byte list \<Rightarrow> byte list" where
  "next_iv iv = increment_from 16 iv"

lemma next_iv_val: "length iv = 16 \<Longrightarrow> iv_val ((next_iv ^^ n) iv) = (iv_val iv + n) mod 2 ^ 128"
proof -
  assume iv: "length iv = 16"
  have step: "length (next_iv v) = 16 \<and> iv_val (next_iv v) = (iv_val v + 1) mod 256 ^ 16" if "length v = 16" for v
    using increment_val [of 16 v] that by (simp add: next_iv_def)
  have pow: "(256 :: nat) ^ 16 = 2 ^ 128" by simp
  have "length ((next_iv ^^ n) iv) = 16 \<and> iv_val ((next_iv ^^ n) iv) = (iv_val iv + n) mod 256 ^ 16"
  proof (induction n)
    case 0
    then show ?case using iv iv_val_bound [of iv] by (simp only: funpow_0 add_0_right mod_less)
  next
    case (Suc n)
    then show ?case using step [of "(next_iv ^^ n) iv"] by (simp add: mod_Suc_eq)
  qed
  then show ?thesis by (simp only: pow)
qed

text \<open>The key stream of a context, and the state after some bytes of it, from a start with no bytes left.\<close>

definition stream_byte :: "byte list \<Rightarrow> byte list \<Rightarrow> nat \<Rightarrow> byte" where
  "stream_byte rk iv j = Cipher rk ((next_iv ^^ (j div 16)) iv) ! (j mod 16)"

definition stream_at :: "AES_ctx \<Rightarrow> ctr_stream \<Rightarrow> nat \<Rightarrow> AES_ctx \<times> ctr_stream" where
  "stream_at ctx ks j =
     (if j = 0 then (ctx, ks)
      else (ctx\<lparr>Iv := (next_iv ^^ Suc ((j - 1) div 16)) (Iv ctx)\<rparr>,
            \<lparr>ks_buffer = Cipher (RoundKey ctx) ((next_iv ^^ ((j - 1) div 16)) (Iv ctx)), ks_bi = Suc ((j - 1) mod 16)\<rparr>))"

lemma ctr_byte_stream:
  assumes "ks_bi ks = 16"
  shows "ctr_byte (stream_at ctx ks j) x = (x XOR stream_byte (RoundKey ctx) (Iv ctx) j, stream_at ctx ks (Suc j))"
proof (cases j)
  case 0
  then show ?thesis using assms by (simp add: ctr_byte_def stream_at_def stream_byte_def next_iv_def)
next
  case (Suc i)
  show ?thesis
  proof (cases "Suc i mod 16 = 0")
    case True
    then have "i mod 16 = 15" "Suc i div 16 = Suc (i div 16)" by (simp_all add: mod_Suc div_Suc split: if_splits)
    with Suc True show ?thesis by (simp add: ctr_byte_def stream_at_def stream_byte_def next_iv_def)
  next
    case False
    then have "Suc i mod 16 = Suc (i mod 16)" "Suc i div 16 = i div 16" by (simp_all add: mod_Suc div_Suc split: if_splits)
    moreover have "Suc (i mod 16) \<noteq> 16" using False by (auto simp: mod_Suc split: if_splits)
    ultimately show ?thesis using Suc by (simp add: ctr_byte_def stream_at_def stream_byte_def)
  qed
qed

lemma ctr_bytes_stream:
  assumes "ks_bi ks = 16"
  shows "ctr_bytes (stream_at ctx ks j) xs =
    (map (\<lambda>i. xs ! i XOR stream_byte (RoundKey ctx) (Iv ctx) (j + i)) [0..<length xs], stream_at ctx ks (j + length xs))"
proof (induction xs arbitrary: j)
  case (Cons x xs)
  have "[0..<Suc n] = 0 # map Suc [0..<n]" for n by (simp add: map_Suc_upt upt_conv_Cons del: upt_Suc)
  then show ?case by (simp add: ctr_byte_stream [OF assms] Cons comp_def del: upt_Suc)
qed simp

definition key_stream :: "AES_ctx \<Rightarrow> nat \<Rightarrow> byte list \<Rightarrow> byte list" where
  "key_stream ctx j xs = map (\<lambda>i. xs ! i XOR stream_byte (RoundKey ctx) (Iv ctx) (j + i)) [0..<length xs]"

definition ctx_after :: "AES_ctx \<Rightarrow> nat \<Rightarrow> AES_ctx" where
  "ctx_after ctx n = ctx\<lparr>Iv := (next_iv ^^ ((n + 15) div 16)) (Iv ctx)\<rparr>"

lemma fst_stream_at: "fst (stream_at ctx ks n) = ctx_after ctx n"
proof (cases n)
  case (Suc m)
  have "(Suc m + 15) div 16 = Suc (m div 16)" by simp
  then show ?thesis using Suc by (simp only: stream_at_def ctx_after_def) simp
qed (simp add: stream_at_def ctx_after_def)

lemma static_stream:
  assumes "ks_bi ks = 16" "stream_at ctx ks j = (c, k)"
  shows "AES_CTR_xcrypt_static k c xs reset = (key_stream ctx j xs, ctx_after ctx (j + length xs),
    (let k' = snd (stream_at ctx ks (j + length xs)) in if reset then k'\<lparr>ks_bi := 16\<rparr> else k'))"
  using ctr_bytes_stream [OF assms(1), of ctx j xs] fst_stream_at [of ctx ks "j + length xs"]
  unfolding assms(2) by (cases "stream_at ctx ks (j + length xs)") (simp add: AES_CTR_xcrypt_static_def key_stream_def Let_def)

lemma buffer_stream: "AES_CTR_xcrypt_buffer ctx buf = (key_stream ctx 0 buf, ctx_after ctx (length buf))"
proof -
  define ks where "ks = \<lparr>ks_buffer = replicate 16 (0 :: byte), ks_bi = 16\<rparr>"
  have "ctr_bytes (ctx, ks) buf = (key_stream ctx 0 buf, stream_at ctx ks (length buf))"
    using ctr_bytes_stream [of ks ctx 0 buf] by (simp add: stream_at_def key_stream_def ks_def)
  then show ?thesis
    using fst_stream_at [of ctx ks "length buf"]
    by (cases "stream_at ctx ks (length buf)") (simp add: AES_CTR_xcrypt_buffer_def ks_def)
qed

lemma key_stream_append: "key_stream ctx j (xs @ ys) = key_stream ctx j xs @ key_stream ctx (j + length xs) ys"
  by (rule nth_equalityI) (auto simp: key_stream_def nth_append)

lemma key_stream_twice: "key_stream ctx j (key_stream ctx j xs) = xs"
  by (rule nth_equalityI) (simp_all add: key_stream_def xor.assoc)

section \<open>Properties\<close>

text \<open>
  C13. Decrypting with the same key gives the plain text back: for one block, and for a buffer of whole blocks in chained
  mode when it starts from the same initialisation vector, for which the contexts end with the same vector as well.
\<close>

theorem decrypt_encrypt:
  assumes "length buf = 16" and "16 dvd length data"
  shows "AES_ECB_decrypt ctx (AES_ECB_encrypt ctx buf) = buf \<and>
    AES_CBC_decrypt_buffer ctx (fst (AES_CBC_encrypt_buffer ctx data)) = (data, snd (AES_CBC_encrypt_buffer ctx data)) \<and>
    length (fst (AES_CBC_encrypt_buffer ctx data)) = length data"
proof -
  let ?e = "cbc_encrypt (RoundKey ctx) (Iv ctx) (blocks data)"
  have ok: "\<forall>c \<in> set (fst ?e). length c = 16" "length (fst ?e) = length (blocks data)" using cbc_lengths by blast+
  have "length (concat cs) = 16 * length cs" if "\<forall>c \<in> set cs. length c = 16" for cs :: "byte list list"
    using that by (induction cs) auto
  then have "length (concat (fst ?e)) = length data" using ok concat_blocks [OF assms(2)] by metis
  then show ?thesis
    using assms(1) cbc_inverse [of "blocks data" "RoundKey ctx" "Iv ctx"] concat_blocks [OF assms(2)] blocks_concat [OF ok(1)]
    by (simp add: AES_ECB_decrypt_def AES_ECB_encrypt_def InvCipher_Cipher AES_CBC_decrypt_buffer_def AES_CBC_encrypt_buffer_def case_prod_beta)
qed

theorem decrypt_encrypt_witness:
  "AES_ECB_decrypt (AES_init_ctx \<lparr>RoundKey = [], Iv = []\<rparr> (replicate 16 1)) (AES_ECB_encrypt (AES_init_ctx \<lparr>RoundKey = [], Iv = []\<rparr> (replicate 16 1)) (replicate 16 7)) =
    replicate 16 7"
  using decrypt_encrypt [of "replicate 16 7" "replicate 32 1"] by simp

text \<open>
  C27. Counter mode combines byte \<open>i\<close> of the data with byte \<open>i mod 16\<close> of the encrypted counter, whose value starts at the
  initialisation vector and grows by one for every block, as a big-endian number modulo \<open>2 ^ 128\<close>. So the operation
  undoes itself. The function with static variables processes data in pieces like the concatenation of the pieces, as
  long as one context is used; the bytes left over from one context are applied to the next one, whatever its key.
\<close>

theorem counter_mode:
  assumes "length (Iv ctx) = 16" and "ks_bi ks = 16"
  shows "fst (AES_CTR_xcrypt_buffer ctx buf) =
      map (\<lambda>i. buf ! i XOR Cipher (RoundKey ctx) ((next_iv ^^ (i div 16)) (Iv ctx)) ! (i mod 16)) [0..<length buf] \<and>
    iv_val ((next_iv ^^ n) (Iv ctx)) = (iv_val (Iv ctx) + n) mod 2 ^ 128 \<and>
    fst (AES_CTR_xcrypt_buffer ctx (fst (AES_CTR_xcrypt_buffer ctx buf))) = buf \<and>
    (let (out1, ctx1, ks1) = AES_CTR_xcrypt_static ks ctx xs False; (out2, ctx2, ks2) = AES_CTR_xcrypt_static ks1 ctx1 ys True
     in out1 @ out2 = fst (AES_CTR_xcrypt_buffer ctx (xs @ ys)) \<and> ctx2 = snd (AES_CTR_xcrypt_buffer ctx (xs @ ys)) \<and> ks_bi ks2 = 16) \<and>
    (let (out1, ctx1, ks1) = AES_CTR_xcrypt_static ks ctx [x] False
     in fst (AES_CTR_xcrypt_static ks1 other [y] reset) = [y XOR Cipher (RoundKey ctx) (Iv ctx) ! 1])"
proof (intro conjI)
  obtain c k where ck: "stream_at ctx ks (length xs) = (c, k)" by fastforce
  have st: "AES_CTR_xcrypt_static ks ctx xs False = (key_stream ctx 0 xs, c, k)"
    using static_stream [OF assms(2), of ctx 0 ctx ks xs False] fst_stream_at [of ctx ks "length xs"] ck by (simp add: stream_at_def)
  show "let (out1, ctx1, ks1) = AES_CTR_xcrypt_static ks ctx xs False; (out2, ctx2, ks2) = AES_CTR_xcrypt_static ks1 ctx1 ys True
     in out1 @ out2 = fst (AES_CTR_xcrypt_buffer ctx (xs @ ys)) \<and> ctx2 = snd (AES_CTR_xcrypt_buffer ctx (xs @ ys)) \<and> ks_bi ks2 = 16"
    using static_stream [OF assms(2) ck, of ys True] by (simp add: st buffer_stream key_stream_append Let_def)
  show "let (out1, ctx1, ks1) = AES_CTR_xcrypt_static ks ctx [x] False
     in fst (AES_CTR_xcrypt_static ks1 other [y] reset) = [y XOR Cipher (RoundKey ctx) (Iv ctx) ! 1]"
    using assms(2) by (simp add: AES_CTR_xcrypt_static_def ctr_byte_def)
  show "fst (AES_CTR_xcrypt_buffer ctx (fst (AES_CTR_xcrypt_buffer ctx buf))) = buf" by (simp add: buffer_stream key_stream_twice)
qed (simp_all add: buffer_stream next_iv_val [OF assms(1)] key_stream_def stream_byte_def)

theorem counter_mode_witness:
  "fst (AES_CTR_xcrypt_buffer \<lparr>RoundKey = KeyExpansion (replicate 16 1), Iv = replicate 16 255\<rparr>
     (fst (AES_CTR_xcrypt_buffer \<lparr>RoundKey = KeyExpansion (replicate 16 1), Iv = replicate 16 255\<rparr> (replicate 40 5)))) = replicate 40 5"
proof -
  have h: "length (Iv \<lparr>RoundKey = KeyExpansion (replicate 16 1), Iv = replicate 16 255\<rparr>) = 16" "ks_bi \<lparr>ks_buffer = [], ks_bi = 16\<rparr> = 16"
    by simp_all
  show ?thesis by (rule conjunct1 [OF conjunct2 [OF conjunct2 [OF counter_mode [OF h]]]])
qed

end
