(* ===== verification/UserStore.thy ===== *)
theory UserStore
  imports StringOperations FileSystemImpl Sha256
begin

text \<open>
  The user database of \<^verbatim>\<open>service_provider/user/UserStoreService.cpp\<close>, kept as colon-separated lines in two
  text files, and the line-wise reading of \<^verbatim>\<open>external/LittleFSWrapper.cpp\<close> it relies on. The flash volume is
  a map from paths to contents and permission bits; whether an access succeeds is decided by the environment. The
  random salt of a new password is a parameter.
\<close>

section \<open>Model\<close>

subsection \<open>Files of the volume\<close>

record ufile =
  f_data :: string
  f_perms :: u16

type_synonym files = "string \<rightharpoonup> ufile"

text \<open>
  What the flash may do: an open for writing, a write, a read at an offset, a removal or a rename may fail, with a
  negative code (here \<open>-1\<close>). A failed write leaves an existing file as it was and a new one empty, with the
  permissions reported for files that carry none. Owners and times are not part of this model, and attribute
  writes succeed.
\<close>

record volume_env =
  open_ok :: "files \<Rightarrow> string \<Rightarrow> bool"
  write_ok :: "files \<Rightarrow> string \<Rightarrow> string \<Rightarrow> bool"
  read_ok :: "files \<Rightarrow> string \<Rightarrow> nat \<Rightarrow> bool"
  remove_ok :: "files \<Rightarrow> string \<Rightarrow> bool"
  move_ok :: "files \<Rightarrow> string \<Rightarrow> string \<Rightarrow> bool"
  cur_umask :: u16

definition stampCreate_perms :: "volume_env \<Rightarrow> u16" where
  "stampCreate_perms E = FILE_PERM_DEFAULT_FILE AND (NOT (cur_umask E) AND 0x1FF)"

definition lfs_createFile :: "volume_env \<Rightarrow> string \<Rightarrow> string \<Rightarrow> files \<Rightarrow> int \<times> files" where
  "lfs_createFile E path content fs =
     (if fs path \<noteq> None \<or> \<not> open_ok E fs path then (-1, fs)
      else if content \<noteq> [] \<and> \<not> write_ok E fs path content
      then (-1, fs(path \<mapsto> \<lparr>f_data = [], f_perms = FILE_PERM_DEFAULT_FILE\<rparr>))
      else (int (length content), fs(path \<mapsto> \<lparr>f_data = content, f_perms = stampCreate_perms E\<rparr>)))"

definition lfs_writeFile :: "volume_env \<Rightarrow> string \<Rightarrow> string \<Rightarrow> bool \<Rightarrow> files \<Rightarrow> int \<times> files" where
  "lfs_writeFile E path content app fs =
     (if content = [] then (0, fs)
      else if \<not> open_ok E fs path then (-1, fs)
      else
        (case fs path of
           None \<Rightarrow>
             if write_ok E fs path content
             then (int (length content), fs(path \<mapsto> \<lparr>f_data = content, f_perms = stampCreate_perms E\<rparr>))
             else (-1, fs(path \<mapsto> \<lparr>f_data = [], f_perms = FILE_PERM_DEFAULT_FILE\<rparr>))
         | Some f \<Rightarrow>
             if write_ok E fs path content
             then (int (length content), fs(path \<mapsto> f\<lparr>f_data := (if app then f_data f else []) @ content\<rparr>))
             else (-1, fs)))"

definition lfs_deleteFile :: "volume_env \<Rightarrow> string \<Rightarrow> files \<Rightarrow> files" where
  "lfs_deleteFile E path fs = (if remove_ok E fs path then fs(path := None) else fs)"

definition lfs_moveFile :: "volume_env \<Rightarrow> string \<Rightarrow> string \<Rightarrow> files \<Rightarrow> files" where
  "lfs_moveFile E p q fs =
     (case fs p of None \<Rightarrow> fs | Some f \<Rightarrow> if move_ok E fs p q then fs(p := None, q \<mapsto> f) else fs)"

definition lfs_setFilePermissions :: "string \<Rightarrow> u16 \<Rightarrow> files \<Rightarrow> files" where
  "lfs_setFilePermissions path perms fs = (case fs path of None \<Rightarrow> fs | Some f \<Rightarrow> fs(path \<mapsto> f\<lparr>f_perms := perms\<rparr>))"

text \<open>Scanning a chunk for the match string through a window of its last characters.\<close>

fun scan_chunk :: "string \<Rightarrow> string \<Rightarrow> string \<Rightarrow> nat \<Rightarrow> nat option \<times> string" where
  "scan_chunk m mb [] j = (None, mb)"
| "scan_chunk m mb (c # cs) j =
     (let mb = tl mb @ [c]; pos = strstr (Some (cstr mb)) (Some m) (int (length m)) in
      if pos \<noteq> -1 then (Some (nat (if pos > 0 then pos - 1 else pos) + j), mb) else scan_chunk m mb cs (Suc j))"

text \<open>
  Reading in chunks for a callback that accepts everything: the bytes counted and the data delivered. The callers
  read 128 bytes at a time; with a chunk size of zero the loop of the code would not advance.
\<close>

function read_chunks :: "nat \<Rightarrow> string \<Rightarrow> string \<Rightarrow> string \<Rightarrow> nat \<Rightarrow> string \<Rightarrow> nat \<times> string" where
  "read_chunks chunk m mb rest bytes data =
     (if rest = [] \<or> chunk = 0 then (bytes, data)
      else
        (let buf = take chunk rest in
         case (if m = [] then (None, mb) else scan_chunk m mb buf 0) of
           (Some k, mb) \<Rightarrow> (bytes + k, data @ take k buf)
         | (None, mb) \<Rightarrow> read_chunks chunk m mb (drop chunk rest) (bytes + length buf) (data @ buf)))"
  by pat_completeness auto
termination
  by (relation "measure (\<lambda>(chunk, m, mb, rest, bytes, data). length rest)") auto

declare read_chunks.simps [simp del]

definition lfs_readFile :: "string \<Rightarrow> nat \<Rightarrow> nat \<Rightarrow> string \<Rightarrow> nat \<times> string" where
  "lfs_readFile content chunk offset m = read_chunks chunk m (replicate (length m) NUL) (drop offset content) 0 []"

subsection \<open>Records\<close>

record user_record_t =
  u_uid :: u16
  u_gid :: u16
  u_username :: string
  u_home :: string
  u_shell :: string

abbreviation colon :: char where "colon \<equiv> CHR '':''"
abbreviation newline :: char where "newline \<equiv> CHR 0x0A"
abbreviation (input) "USER_STORE_PASSWD_PATH \<equiv> ''/etc/passwd''"
abbreviation (input) "USER_STORE_SHADOW_PATH \<equiv> ''/etc/shadow''"

function split_fields :: "string \<Rightarrow> string list" where
  "split_fields s =
     (case dropWhile (\<lambda>c. c \<noteq> colon) s of
        [] \<Rightarrow> [s]
      | _ # r \<Rightarrow> takeWhile (\<lambda>c. c \<noteq> colon) s # split_fields r)"
  by pat_completeness auto
termination
proof (relation "measure length")
  fix s c r assume "dropWhile (\<lambda>c. c \<noteq> colon) s = c # r"
  then have "length (c # r) \<le> length s" by (metis length_dropWhile_le)
  then show "(r, s) \<in> measure length" by simp
qed simp

declare split_fields.simps [simp del]

definition parsePasswdLine :: "string \<Rightarrow> user_record_t option" where
  "parsePasswdLine line =
     (if line = [] \<or> hd line = CHR ''#'' then None
      else
        (let fields = take 6 (split_fields line) in
         if length fields < 6 then None
         else Some \<lparr>u_uid = ucast (StringToUint32 (Some (cstr (fields ! 2))) (of_nat (length (fields ! 2)))),
                    u_gid = ucast (StringToUint32 (Some (cstr (fields ! 3))) (of_nat (length (fields ! 3)))),
                    u_username = fields ! 0, u_home = fields ! 4, u_shell = fields ! 5\<rparr>))"

definition serializePasswdLine :: "user_record_t \<Rightarrow> string" where
  "serializePasswdLine r =
     u_username r @ [colon] @ ''x'' @ [colon] @ uint_text 8 (ucast (u_uid r)) @ [colon] @ uint_text 8 (ucast (u_gid r)) @ [colon] @
     u_home r @ [colon] @ u_shell r"

subsection \<open>Scanning a file\<close>

definition chomp :: "string \<Rightarrow> string" where
  "chomp line = (if line \<noteq> [] \<and> last line = CHR 0x0D then butlast line else line)"

function scan_lines :: "(nat \<Rightarrow> bool) \<Rightarrow> (string \<Rightarrow> 'r option) \<Rightarrow> string \<Rightarrow> nat \<Rightarrow> 'r option" where
  "scan_lines ok f content offset =
     (if offset < length content \<and> ok offset
      then (let (bytes, line) = lfs_readFile content 128 offset [newline] in
            case f (chomp line) of Some r \<Rightarrow> Some r | None \<Rightarrow> scan_lines ok f content (offset + bytes + 1))
      else None)"
  by pat_completeness auto
termination
  by (relation "measure (\<lambda>(ok, f, content, offset). length content - offset)") auto

declare scan_lines.simps [simp del]

definition scanPasswdFile :: "volume_env \<Rightarrow> bool \<Rightarrow> u16 \<Rightarrow> string option \<Rightarrow> files \<Rightarrow> user_record_t option" where
  "scanPasswdFile E matchByUid uid username fs =
     (case fs USER_STORE_PASSWD_PATH of
        None \<Rightarrow> None
      | Some file \<Rightarrow>
          scan_lines (read_ok E fs USER_STORE_PASSWD_PATH)
            (\<lambda>line. case parsePasswdLine line of
                      None \<Rightarrow> None
                    | Some r \<Rightarrow> if (if matchByUid then u_uid r = uid else Some (u_username r) = username) then Some r else None)
            (f_data file) 0)"

definition findUserByName :: "volume_env \<Rightarrow> string option \<Rightarrow> files \<Rightarrow> user_record_t option" where
  "findUserByName E username fs = (if username = None \<or> username = Some [] then None else scanPasswdFile E False 0 username fs)"

definition findUserByUid :: "volume_env \<Rightarrow> u16 \<Rightarrow> files \<Rightarrow> user_record_t option" where
  "findUserByUid E uid fs = scanPasswdFile E True uid None fs"

subsection \<open>Removing lines\<close>

definition line_of :: "string \<Rightarrow> string \<Rightarrow> bool" where
  "line_of username line \<longleftrightarrow>
     length line > length username \<and> take (length username) line = username \<and> line ! length username = colon"

text \<open>The loop copies the other lines to the temporary file, ignoring failed writes.\<close>

function remove_loop :: "volume_env \<Rightarrow> string \<Rightarrow> string \<Rightarrow> string \<Rightarrow> string \<Rightarrow> nat \<Rightarrow> bool \<Rightarrow> files \<Rightarrow> bool \<times> files" where
  "remove_loop E filepath temppath username content offset removed fs =
     (if offset < length content \<and> read_ok E fs filepath offset
      then
        (let (bytes, line) = lfs_readFile content 128 offset [newline];
             (removed, fs) =
               (if line_of username line then (True, fs)
                else if line \<noteq> [] then (removed, snd (lfs_writeFile E temppath (line @ [newline]) True fs))
                else (removed, fs))
         in remove_loop E filepath temppath username content (offset + bytes + 1) removed fs)
      else (removed, fs))"
  by pat_completeness auto
termination
  by (relation "measure (\<lambda>(E, filepath, temppath, username, content, offset, removed, fs). length content - offset)") auto

declare remove_loop.simps [simp del]

definition temp_path :: "string \<Rightarrow> string" where
  "temp_path filepath = fsi_getTempDirectory fsi_new @ fsi_basename (Some filepath)"

definition removeLineByUsername :: "volume_env \<Rightarrow> string \<Rightarrow> string \<Rightarrow> files \<Rightarrow> bool \<times> files" where
  "removeLineByUsername E filepath username fs =
     (case fs filepath of
        None \<Rightarrow> (False, fs)
      | Some file \<Rightarrow>
          (let temppath = temp_path filepath; fs = (if fs temppath \<noteq> None then lfs_deleteFile E temppath fs else fs) in
           if f_data file = [] then (False, fs)
           else
             (let (removed, fs) = remove_loop E filepath temppath username (f_data file) 0 False fs in
              if removed then (True, lfs_moveFile E temppath filepath (lfs_deleteFile E filepath fs))
              else (False, lfs_deleteFile E temppath fs))))"

subsection \<open>Passwords\<close>

definition bytes_of :: "string \<Rightarrow> byte list" where
  "bytes_of s = map (\<lambda>c. of_nat (code c)) s"

definition hashPassword :: "string option \<Rightarrow> byte list option \<Rightarrow> u8 \<Rightarrow> byte list" where
  "hashPassword password salt saltlen =
     (let ctx = sha256_init sha256_blank;
          ctx = (case salt of Some s \<Rightarrow> if saltlen > 0 then sha256_update ctx s (ucast saltlen) else ctx | None \<Rightarrow> ctx);
          ctx = (case password of Some p \<Rightarrow> sha256_update ctx (bytes_of p) (of_nat (length p)) | None \<Rightarrow> ctx)
      in sha256_final ctx)"

definition shadow_line :: "string \<Rightarrow> byte list \<Rightarrow> byte list \<Rightarrow> string" where
  "shadow_line username hash salt = username @ [colon] @ cstr (BytesToHexString hash) @ [colon] @ cstr (BytesToHexString salt)"

definition setPassword :: "volume_env \<Rightarrow> byte list \<Rightarrow> string option \<Rightarrow> string option \<Rightarrow> files \<Rightarrow> bool \<times> files" where
  "setPassword E salt username password fs =
     (case (username, password) of
        (Some u, Some p) \<Rightarrow>
          if u = [] then (False, fs)
          else
            (let line = shadow_line u (hashPassword (Some p) (Some salt) 8) salt @ [newline];
                 fs = snd (removeLineByUsername E USER_STORE_SHADOW_PATH u fs);
                 (ok, fs) = (if fs USER_STORE_SHADOW_PATH = None
                             then (let (r, fs) = lfs_createFile E USER_STORE_SHADOW_PATH [] fs in
                                   if r < 0 then (False, fs) else (True, lfs_setFilePermissions USER_STORE_SHADOW_PATH 0x180 fs))
                             else (True, fs))
             in if \<not> ok then (False, fs)
                else (let (r, fs) = lfs_writeFile E USER_STORE_SHADOW_PATH line True fs in (r \<ge> 0, fs)))
      | _ \<Rightarrow> (False, fs))"

text \<open>The hash and salt of a shadow line of the user.\<close>

definition shadow_record :: "string \<Rightarrow> string \<Rightarrow> (byte list \<times> byte list) option" where
  "shadow_record username line =
     (let sep1 = length (takeWhile (\<lambda>c. c \<noteq> colon) line) in
      if sep1 < length line \<and> sep1 = length username \<and> take sep1 line = username
      then
        (let rest = drop (sep1 + 1) line; hashlen = length (takeWhile (\<lambda>c. c \<noteq> colon) rest); salt = drop (hashlen + 1) rest in
         if hashlen < length rest \<and> hashlen = 64 \<and> length salt = 16
         then (case (HexStringToBytes rest 32, HexStringToBytes salt 8) of (Some h, Some s) \<Rightarrow> Some (h, s) | _ \<Rightarrow> None)
         else None)
      else None)"

definition readShadowRecord :: "volume_env \<Rightarrow> string option \<Rightarrow> files \<Rightarrow> (byte list \<times> byte list) option" where
  "readShadowRecord E username fs =
     (case (username, fs USER_STORE_SHADOW_PATH) of
        (Some u, Some file) \<Rightarrow> scan_lines (read_ok E fs USER_STORE_SHADOW_PATH) (shadow_record u) (f_data file) 0
      | _ \<Rightarrow> None)"

definition verifyPassword :: "volume_env \<Rightarrow> string option \<Rightarrow> string option \<Rightarrow> files \<Rightarrow> bool" where
  "verifyPassword E username password fs =
     (case (username, password) of
        (Some u, Some p) \<Rightarrow>
          (case readShadowRecord E username fs of
             None \<Rightarrow> False
           | Some (stored, salt) \<Rightarrow> fold (\<lambda>(a, b) diff. diff OR (a XOR b)) (zip stored (hashPassword (Some p) (Some salt) 8)) 0 = (0 :: byte))
      | _ \<Rightarrow> False)"

definition addUser :: "volume_env \<Rightarrow> byte list \<Rightarrow> user_record_t \<Rightarrow> string option \<Rightarrow> files \<Rightarrow> bool \<times> files" where
  "addUser E salt r password fs =
     (if u_username r = [] then (False, fs)
      else if findUserByName E (Some (u_username r)) fs \<noteq> None then (False, fs)
      else
        (let line = serializePasswdLine r @ [newline];
             (ok, fs) = (if fs USER_STORE_PASSWD_PATH = None
                         then (let (c, fs) = lfs_createFile E USER_STORE_PASSWD_PATH [] fs in (c \<ge> 0, fs)) else (True, fs)) in
         if \<not> ok then (False, fs)
         else
           (let (w, fs) = lfs_writeFile E USER_STORE_PASSWD_PATH line True fs in
            if w < 0 then (False, fs)
            else if password \<noteq> None \<and> password \<noteq> Some []
            then (let (ok, fs) = setPassword E salt (Some (u_username r)) password fs in
                  if ok then (True, fs) else (False, snd (removeLineByUsername E USER_STORE_PASSWD_PATH (u_username r) fs)))
            else (True, fs))))"

definition removeUser :: "volume_env \<Rightarrow> string option \<Rightarrow> files \<Rightarrow> bool \<times> files" where
  "removeUser E username fs =
     (case username of
        None \<Rightarrow> (False, fs)
      | Some u \<Rightarrow>
          if u = [] then (False, fs)
          else (let (removed, fs) = removeLineByUsername E USER_STORE_PASSWD_PATH u fs
                in (removed, snd (removeLineByUsername E USER_STORE_SHADOW_PATH u fs))))"

text \<open>
  First start: the credentials of the login table become the administrator. The file system tells whether the
  directory exists or can be created.
\<close>

definition bootstrapFromLoginTable :: "volume_env \<Rightarrow> byte list \<Rightarrow> bool \<Rightarrow> (string \<times> string) option \<Rightarrow> string \<Rightarrow> files \<Rightarrow> files" where
  "bootstrapFromLoginTable E salt etc_ok creds home fs =
     (let fs = (if fs USER_STORE_SHADOW_PATH \<noteq> None then lfs_setFilePermissions USER_STORE_SHADOW_PATH 0x180 fs else fs) in
      if fs USER_STORE_PASSWD_PATH \<noteq> None then fs
      else if \<not> etc_ok then fs
      else
        (case creds of
           None \<Rightarrow> fs
         | Some (username, password) \<Rightarrow>
             if username = [] then fs
             else snd (addUser E salt \<lparr>u_uid = 0, u_gid = 0, u_username = username, u_home = home, u_shell = ''cmd''\<rparr> (Some password) fs)))"

section \<open>Lines\<close>

lemma strstr_newline: "strstr (Some (cstr [c])) (Some [newline]) 1 = (if c = newline then 0 else -1)"
  by (cases "c = NUL") (auto simp: strstr_def cstr_def strstr_loop.simps)

lemma scan_chunk_newline:
  "scan_chunk [newline] [b] buf j =
     (if newline \<in> set buf then (Some (length (takeWhile (\<lambda>c. c \<noteq> newline) buf) + j), [newline])
      else (None, [last (b # buf)]))"
  by (induction buf arbitrary: b j) (auto simp: strstr_newline Let_def)

lemma read_chunks_newline:
  "0 < n \<Longrightarrow> read_chunks n [newline] [b] rest bytes data =
     (bytes + length (takeWhile (\<lambda>c. c \<noteq> newline) rest), data @ takeWhile (\<lambda>c. c \<noteq> newline) rest)"
proof (induction "length rest" arbitrary: b rest bytes data rule: less_induct)
  case less
  show ?case
  proof (cases "rest = []")
    case True
    then show ?thesis by (simp add: read_chunks.simps)
  next
    case False
    show ?thesis
    proof (cases "newline \<in> set (take n rest)")
      case True
      then have "takeWhile (\<lambda>c. c \<noteq> newline) rest = takeWhile (\<lambda>c. c \<noteq> newline) (take n rest)"
        using takeWhile_append1 [OF True, of "\<lambda>c. c \<noteq> newline" "drop n rest"] by simp
      moreover have "take (length (takeWhile (\<lambda>c. c \<noteq> newline) (take n rest))) (take n rest) = takeWhile (\<lambda>c. c \<noteq> newline) (take n rest)"
        by (metis takeWhile_eq_take)
      ultimately show ?thesis
        using False True less.prems by (simp add: read_chunks.simps [of n] scan_chunk_newline Let_def)
    next
      case no: False
      then have "takeWhile (\<lambda>c. c \<noteq> newline) rest = take n rest @ takeWhile (\<lambda>c. c \<noteq> newline) (drop n rest)"
        using takeWhile_append2 [of "take n rest" "\<lambda>c. c \<noteq> newline" "drop n rest"] by auto
      moreover have "length (drop n rest) < length rest" using False less.prems by simp
      ultimately show ?thesis
        using no False less.prems less.hyps [of "drop n rest"]
        by (simp add: read_chunks.simps [of n _ _ rest] scan_chunk_newline Let_def)
    qed
  qed
qed

lemma lfs_readFile_line:
  "lfs_readFile content 128 offset [newline] =
     (length (takeWhile (\<lambda>c. c \<noteq> newline) (drop offset content)), takeWhile (\<lambda>c. c \<noteq> newline) (drop offset content))"
  by (simp add: lfs_readFile_def read_chunks_newline)

text \<open>The lines of a file, the last one with or without a newline, and the first line a test accepts.\<close>

function file_lines :: "string \<Rightarrow> string list" where
  "file_lines s =
     (if s = [] then []
      else takeWhile (\<lambda>c. c \<noteq> newline) s # file_lines (drop (Suc (length (takeWhile (\<lambda>c. c \<noteq> newline) s))) s))"
  by pat_completeness auto
termination
  by (relation "measure length") auto

declare file_lines.simps [simp del]

fun first_match :: "('a \<Rightarrow> 'b option) \<Rightarrow> 'a list \<Rightarrow> 'b option" where
  "first_match f [] = None"
| "first_match f (x # xs) = (case f x of Some r \<Rightarrow> Some r | None \<Rightarrow> first_match f xs)"

lemma first_match_append:
  "first_match f (xs @ ys) = (case first_match f xs of Some r \<Rightarrow> Some r | None \<Rightarrow> first_match f ys)"
  by (induction xs) (auto split: option.split)

lemma first_match_None: "first_match f xs = None \<longleftrightarrow> (\<forall>x \<in> set xs. f x = None)"
  by (induction xs) (auto split: option.split)

lemma first_match_filter: "(\<And>x. x \<in> set xs \<Longrightarrow> \<not> P x \<Longrightarrow> f x = None) \<Longrightarrow> first_match f (filter P xs) = first_match f xs"
  by (induction xs) (auto split: option.split)

lemma scan_lines_eq:
  "(\<And>k. ok k) \<Longrightarrow> scan_lines ok f content offset = first_match (\<lambda>l. f (chomp l)) (file_lines (drop offset content))"
proof (induction "length content - offset" arbitrary: offset rule: less_induct)
  case less
  show ?case
  proof (cases "offset < length content")
    case True
    let ?l = "takeWhile (\<lambda>c. c \<noteq> newline) (drop offset content)"
    have "scan_lines ok f content (offset + length ?l + 1) = first_match (\<lambda>l. f (chomp l)) (file_lines (drop (offset + length ?l + 1) content))"
      using less True by simp
    then show ?thesis
      using True less.prems
      by (simp add: scan_lines.simps [of ok f content offset] file_lines.simps [of "drop offset content"] lfs_readFile_line add.commute split: option.split)
  qed (simp add: scan_lines.simps [of ok f content offset] file_lines.simps)
qed

definition closed :: "string \<Rightarrow> bool" where
  "closed content \<longleftrightarrow> content = [] \<or> last content = newline"

definition as_lines :: "string list \<Rightarrow> string" where
  "as_lines ls = concat (map (\<lambda>l. l @ [newline]) ls)"

lemma file_lines_Cons: "newline \<notin> set l \<Longrightarrow> file_lines (l @ newline # s) = l # file_lines s"
proof -
  assume l: "newline \<notin> set l"
  then have "takeWhile (\<lambda>c. c \<noteq> newline) (l @ newline # s) = l" by (subst takeWhile_append2) auto
  then show ?thesis by (subst file_lines.simps) simp
qed

lemma file_lines_as_lines: "\<forall>l \<in> set ls. newline \<notin> set l \<Longrightarrow> file_lines (as_lines ls @ s) = ls @ file_lines s"
  by (induction ls) (auto simp: as_lines_def file_lines_Cons)

lemma file_lines_no_newline: "l \<in> set (file_lines s) \<Longrightarrow> newline \<notin> set l"
proof (induction s rule: file_lines.induct)
  case (1 s)
  then show ?case using file_lines.simps [of s] by (auto dest: set_takeWhileD split: if_splits)
qed

lemma closed_lines: "closed s \<Longrightarrow> as_lines (file_lines s) = s"
proof (induction "length s" arbitrary: s rule: less_induct)
  case less
  show ?case
  proof (cases "s = []")
    case False
    then have "newline \<in> set s" using less.prems last_in_set [of s] by (simp add: closed_def)
    then obtain l r where s: "s = l @ newline # r" "newline \<notin> set l" using split_list_first by fastforce
    then have "closed r" using less.prems by (auto simp: closed_def split: if_splits)
    then have "as_lines (file_lines r) = r" using less.hyps [of r] s by simp
    then show ?thesis using s by (simp add: file_lines_Cons as_lines_def)
  qed (simp add: file_lines.simps as_lines_def)
qed

lemma file_lines_snoc:
  assumes "closed s" "newline \<notin> set l"
  shows "file_lines (s @ l @ [newline]) = file_lines s @ [l]"
proof -
  have "file_lines (as_lines (file_lines s) @ l @ [newline]) = file_lines s @ [l]"
    using assms(2) by (subst file_lines_as_lines) (auto simp: file_lines_no_newline file_lines_Cons file_lines.simps [of "[]"])
  then show ?thesis using closed_lines [OF assms(1)] by simp
qed

lemma closed_as_lines: "closed (as_lines ls)"
  by (cases ls rule: rev_cases) (simp_all add: closed_def as_lines_def)

section \<open>Password records\<close>

lemma split_fields_Cons: "colon \<notin> set f \<Longrightarrow> split_fields (f @ colon # r) = f # split_fields r"
proof -
  assume "colon \<notin> set f"
  then have "takeWhile (\<lambda>c. c \<noteq> colon) (f @ colon # r) = f" "dropWhile (\<lambda>c. c \<noteq> colon) (f @ colon # r) = colon # r"
    by (subst takeWhile_append2 dropWhile_append2, auto)+
  then show ?thesis by (subst split_fields.simps) simp
qed

lemma split_fields_last: "colon \<notin> set f \<Longrightarrow> split_fields f = [f]"
proof -
  assume "colon \<notin> set f"
  then have "dropWhile (\<lambda>c. c \<noteq> colon) f = []" by (auto simp: dropWhile_eq_Nil_conv)
  then show ?thesis by (simp only: split_fields.simps [of f] list.case)
qed

lemma id_text: "uint_text 8 (ucast (v :: u16)) = dec_string (unat v)" "length (dec_string (unat v)) \<le> 5"
proof -
  have v: "unat v < 10 ^ 5" using unat_bound [of v] by simp
  then show l: "length (dec_string (unat v)) \<le> 5" using length_dec_string_le [of "unat v" 5] by simp
  have "unat (ucast v :: u32) = unat v" using v by (simp add: unsigned_ucast_eq take_bit_nat_eq_self)
  with l show "uint_text 8 (ucast v) = dec_string (unat v)" by (simp add: uint_text_eq)
qed

lemma id_text_parse:
  "ucast (StringToUint32 (Some (cstr (dec_string (unat v)))) (of_nat (length (dec_string (unat v))))) = (v :: u16)"
proof -
  let ?s = "dec_string (unat v)"
  have l: "length ?s \<le> 5" by (rule id_text)
  then have "unat (of_nat (length ?s) :: u8) = length ?s" by (intro unat_of_nat_small) simp
  moreover have "cstr ?s = ?s" unfolding cstr_def using dec_string_no_NUL [of "unat v"] by (auto intro!: takeWhile_eq_all_conv [THEN iffD2])
  ultimately have "StringToUint32 (Some (cstr ?s)) (of_nat (length ?s)) = of_nat (unat v)"
    using StringToUint_value [of "[]" ?s "of_nat (length ?s)" "[]"] dec_string_digits by (simp add: stops_def)
  then show ?thesis by (simp add: unsigned_ucast_eq take_bit_word_eq_self)
qed

text \<open>A record whose texts stay within their fields and lines.\<close>

definition field_ok :: "string \<Rightarrow> bool" where
  "field_ok s \<longleftrightarrow> colon \<notin> set s \<and> newline \<notin> set s \<and> CHR 0x0D \<notin> set s"

definition record_ok :: "user_record_t \<Rightarrow> bool" where
  "record_ok r \<longleftrightarrow> u_username r \<noteq> [] \<and> hd (u_username r) \<noteq> CHR ''#'' \<and>
     field_ok (u_username r) \<and> field_ok (u_home r) \<and> field_ok (u_shell r)"

lemma dec_string_field: "field_ok (dec_string n)"
  using dec_string_digits [of n] by (auto simp: field_ok_def)

lemma parse_serialize: "record_ok r \<Longrightarrow> parsePasswdLine (serializePasswdLine r) = Some r"
proof -
  assume r: "record_ok r"
  let ?u = "dec_string (unat (u_uid r))" and ?g = "dec_string (unat (u_gid r))"
  have line: "serializePasswdLine r =
      u_username r @ colon # ''x'' @ colon # ?u @ colon # ?g @ colon # u_home r @ colon # u_shell r"
    by (simp add: serializePasswdLine_def id_text)
  have "split_fields (serializePasswdLine r) = [u_username r, ''x'', ?u, ?g, u_home r, u_shell r]"
    using r dec_string_field unfolding line record_ok_def field_ok_def
    by (simp add: split_fields_Cons split_fields_Cons [of "''x''", simplified] split_fields_last)
  moreover have "serializePasswdLine r \<noteq> []" "hd (serializePasswdLine r) \<noteq> CHR ''#''"
    using r unfolding line by (auto simp: record_ok_def)
  ultimately show ?thesis
    by (simp add: parsePasswdLine_def id_text_parse)
qed

lemma chomp_id: "CHR 0x0D \<notin> set l \<Longrightarrow> chomp l = l"
  unfolding chomp_def by (metis last_in_set)

lemma serialize_line:
  assumes "record_ok r"
  shows "newline \<notin> set (serializePasswdLine r)" "chomp (serializePasswdLine r) = serializePasswdLine r"
proof -
  have cr: "CHR 0x0D \<notin> set (serializePasswdLine r)" and nl: "newline \<notin> set (serializePasswdLine r)"
    using assms dec_string_field by (auto simp: serializePasswdLine_def id_text record_ok_def field_ok_def)
  show "newline \<notin> set (serializePasswdLine r)" by (rule nl)
  show "chomp (serializePasswdLine r) = serializePasswdLine r"
    by (rule chomp_id [OF cr])
qed

section \<open>Removing lines\<close>

text \<open>Every access to a file, and every access to it and to the temporary file of its edits, succeeds.\<close>

definition serves :: "volume_env \<Rightarrow> string \<Rightarrow> bool" where
  "serves E p \<longleftrightarrow> (\<forall>fs. open_ok E fs p \<and> remove_ok E fs p \<and> (\<forall>c. write_ok E fs p c) \<and> (\<forall>k. read_ok E fs p k) \<and> (\<forall>q. move_ok E fs p q))"

definition reliable :: "volume_env \<Rightarrow> string \<Rightarrow> bool" where
  "reliable E p \<longleftrightarrow> serves E p \<and> serves E (temp_path p)"

definition keeps :: "string \<Rightarrow> string \<Rightarrow> bool" where
  "keeps u l \<longleftrightarrow> l \<noteq> [] \<and> \<not> line_of u l"

lemma remove_loop_frame: "p \<noteq> temppath \<Longrightarrow> snd (remove_loop E filepath temppath u content offset removed fs) p = fs p"
proof (induction E filepath temppath u content offset removed fs rule: remove_loop.induct)
  case (1 E filepath temppath u content offset removed fs)
  show ?case
    using 1
    by (subst remove_loop.simps)
       (auto simp: lfs_readFile_line lfs_writeFile_def Let_def split: option.split)
qed

definition appended :: "volume_env \<Rightarrow> string \<Rightarrow> string list \<Rightarrow> files \<Rightarrow> files" where
  "appended E p ls fs =
     (if ls = [] then fs
      else fs(p \<mapsto> (case fs p of None \<Rightarrow> \<lparr>f_data = as_lines ls, f_perms = stampCreate_perms E\<rparr>
                   | Some f \<Rightarrow> f\<lparr>f_data := f_data f @ as_lines ls\<rparr>)))"

lemma appended_Cons: "appended E p (l # ls) fs = appended E p ls (appended E p [l] fs)"
  by (auto simp: appended_def as_lines_def split: option.split)

lemma write_line: "serves E p \<Longrightarrow> lfs_writeFile E p (l @ [newline]) True fs = (int (length l) + 1, appended E p [l] fs)"
  by (auto simp: lfs_writeFile_def serves_def appended_def as_lines_def split: option.split)

lemma remove_loop_eq:
  assumes "serves E filepath" "serves E temppath"
  shows "remove_loop E filepath temppath u content offset removed fs =
     (removed \<or> (\<exists>l \<in> set (file_lines (drop offset content)). line_of u l),
      appended E temppath (filter (keeps u) (file_lines (drop offset content))) fs)"
proof (induction "length content - offset" arbitrary: offset removed fs rule: less_induct)
  case less
  show ?case
  proof (cases "offset < length content")
    case True
    define l where "l = takeWhile (\<lambda>c. c \<noteq> newline) (drop offset content)"
    let ?next = "offset + length l + 1"
    have lines: "file_lines (drop offset content) = l # file_lines (drop ?next content)"
      using True by (subst file_lines.simps) (simp add: l_def add.commute)
    have ih: "remove_loop E filepath temppath u content ?next rm fs' =
        (rm \<or> (\<exists>l \<in> set (file_lines (drop ?next content)). line_of u l),
         appended E temppath (filter (keeps u) (file_lines (drop ?next content))) fs')" for rm fs'
      using True by (intro less) simp
    have ok: "read_ok E fs filepath offset" using assms(1) by (simp add: serves_def)
    show ?thesis
      unfolding remove_loop.simps [of E filepath temppath u content offset] lfs_readFile_line l_def [symmetric] lines
      using True ok write_line [OF assms(2)]
      by (simp only: if_True Let_def prod.case ih simp_thms split: if_split)
         (auto simp: keeps_def appended_Cons [of _ _ l "filter _ _"] ih)
  next
    case False
    then show ?thesis by (simp add: remove_loop.simps [of _ _ _ _ _ offset] file_lines.simps appended_def)
  qed
qed

definition lines_at :: "files \<Rightarrow> string \<Rightarrow> string list" where
  "lines_at fs p = (case fs p of None \<Rightarrow> [] | Some f \<Rightarrow> file_lines (f_data f))"

definition closed_at :: "files \<Rightarrow> string \<Rightarrow> bool" where
  "closed_at fs p \<longleftrightarrow> (case fs p of None \<Rightarrow> True | Some f \<Rightarrow> closed (f_data f))"

lemma lines_at_upd [simp]:
  "p \<noteq> q \<Longrightarrow> lines_at (fs(q := v)) p = lines_at fs p" "closed_at (fs(q := v)) p = (if p = q then closed_at (\<lambda>_. v) p else closed_at fs p)"
  by (simp_all add: lines_at_def closed_at_def)

lemma removeLine_eq:
  assumes "reliable E p" "temp_path p \<noteq> p" and f: "fs p = Some f"
  shows "removeLineByUsername E p u fs =
    (if \<exists>l \<in> set (lines_at fs p). line_of u l
     then (True, fs(temp_path p := None,
             p := (let ls = filter (keeps u) (lines_at fs p) in
                   if ls = [] then None else Some \<lparr>f_data = as_lines ls, f_perms = stampCreate_perms E\<rparr>)))
     else (False, fs(temp_path p := None)))"
proof -
  let ?t = "temp_path p" and ?ls = "file_lines (f_data f)"
  have ok: "serves E p" "serves E ?t" using assms(1) by (simp_all add: reliable_def)
  then have del: "lfs_deleteFile E p g = g(p := None)" "lfs_deleteFile E ?t g = g(?t := None)" for g
    by (simp_all add: lfs_deleteFile_def serves_def)
  have start: "(if fs ?t \<noteq> None then lfs_deleteFile E ?t fs else fs) = fs(?t := None)" by (auto simp: del)
  have mv: "lfs_moveFile E ?t p g = (case g ?t of None \<Rightarrow> g | Some f \<Rightarrow> g(?t := None, p \<mapsto> f))" for g
    using ok by (simp add: lfs_moveFile_def serves_def split: option.split)
  show ?thesis
  proof (cases "f_data f = []")
    case True
    then show ?thesis using f start
      by (simp add: removeLineByUsername_def lines_at_def file_lines.simps [of "[]"] del)
  next
    case False
    then show ?thesis
      using f start assms(2)
      by (auto simp: removeLineByUsername_def lines_at_def remove_loop_eq [OF ok] del mv appended_def Let_def fun_upd_twist)
  qed
qed

lemma removeLine_frame:
  assumes "q \<noteq> p" "q \<noteq> temp_path p"
  shows "snd (removeLineByUsername E p u fs) q = fs q"
proof (cases "fs p")
  case (Some f)
  have del: "lfs_deleteFile E r g q = g q" if "r \<noteq> q" for r g using that by (simp add: lfs_deleteFile_def)
  have mv: "lfs_moveFile E (temp_path p) p g q = g q" for g
    using assms by (simp add: lfs_moveFile_def split: option.split)
  let ?g = "if fs (temp_path p) \<noteq> None then lfs_deleteFile E (temp_path p) fs else fs"
  obtain rm h where h: "remove_loop E p (temp_path p) u (f_data f) 0 False ?g = (rm, h)" by fastforce
  have "h q = ?g q" using remove_loop_frame [OF assms(2), of E p u "f_data f" 0 False ?g] h by simp
  moreover have "?g q = fs q" using assms del by simp
  ultimately show ?thesis
    using Some assms h by (simp add: removeLineByUsername_def Let_def del mv)
qed (simp add: removeLineByUsername_def)

section \<open>Shadow records\<close>

definition hex_pairs :: "byte list \<Rightarrow> string" where
  "hex_pairs bs = concat (map (\<lambda>b. [hexchar False (unat (drop_bit 4 b AND 0x0F)), hexchar False (unat (b AND 0x0F))]) bs)"

lemma hex_pairs_chars: "c \<in> set (hex_pairs bs) \<Longrightarrow> hexval c \<noteq> None"
  by (auto simp: hex_pairs_def unat_and_15)

lemma hex_pairs_clean: "NUL \<notin> set (hex_pairs bs)" "field_ok (hex_pairs bs)"
proof -
  have "hexval NUL = None" "hexval colon = None" "hexval newline = None" "hexval (CHR 0x0D) = None"
    by (simp_all add: hexval_def)
  then show "NUL \<notin> set (hex_pairs bs)" "field_ok (hex_pairs bs)"
    using hex_pairs_chars [of _ bs] unfolding field_ok_def by metis+
qed

lemma hex_pairs_text: "cstr (BytesToHexString bs) = hex_pairs bs"
proof -
  have "BytesToHexString bs = hex_pairs bs @ [NUL]" by (simp add: BytesToHexString_def hex_pairs_def)
  moreover have "takeWhile (\<lambda>c. c \<noteq> NUL) (hex_pairs bs @ [NUL]) = hex_pairs bs"
    using hex_pairs_clean(1) [of bs] by (subst takeWhile_append2) auto
  ultimately show ?thesis by (simp add: cstr_def)
qed

lemma length_hex_pairs: "length (hex_pairs bs) = 2 * length bs"
  by (induction bs) (simp_all add: hex_pairs_def)

lemma hex_pairs_decode: "HexStringToBytes (hex_pairs bs @ rest) (length bs) = Some bs"
  by (induction bs) (simp_all add: hex_pairs_def unat_and_15 nibbles [simplified])

lemma takeWhile_colon: "colon \<notin> set u \<Longrightarrow> takeWhile (\<lambda>c. c \<noteq> colon) (u @ colon # r) = u"
  by (subst takeWhile_append2) auto

lemma shadow_record_line:
  assumes "colon \<notin> set u" "length h = 32" "length s = 8"
  shows "shadow_record u (shadow_line u h s) = Some (h, s)"
proof -
  have line: "shadow_line u h s = u @ colon # hex_pairs h @ colon # hex_pairs s"
    by (simp add: shadow_line_def hex_pairs_text)
  have c: "colon \<notin> set (hex_pairs h)" using hex_pairs_clean(2) [of h] by (simp add: field_ok_def)
  have d: "HexStringToBytes (hex_pairs h @ colon # hex_pairs s) 32 = Some h" "HexStringToBytes (hex_pairs s) 8 = Some s"
    using hex_pairs_decode [of h "colon # hex_pairs s"] hex_pairs_decode [of s "[]"] assms by simp_all
  show ?thesis
    unfolding shadow_record_def line Let_def takeWhile_colon [OF assms(1)]
    using takeWhile_colon [OF c] d assms(2,3) by (simp add: length_hex_pairs)
qed

lemma shadow_record_name: "shadow_record u l \<noteq> None \<Longrightarrow> u = takeWhile (\<lambda>c. c \<noteq> colon) l \<and> length u < length l"
proof -
  assume "shadow_record u l \<noteq> None"
  then have "length (takeWhile (\<lambda>c. c \<noteq> colon) l) < length l" "take (length (takeWhile (\<lambda>c. c \<noteq> colon) l)) l = u"
    by (auto simp: shadow_record_def Let_def split: if_splits)
  then show ?thesis using takeWhile_eq_take [of "\<lambda>c. c \<noteq> colon" l] by simp
qed

lemma shadow_record_no_colon: "shadow_record u l \<noteq> None \<Longrightarrow> colon \<notin> set u"
  using shadow_record_name [of u l] by (auto dest: set_takeWhileD)

lemma shadow_record_line_of:
  assumes "shadow_record u l \<noteq> None"
  shows "line_of u l"
proof -
  from shadow_record_name [OF assms] have u: "u = takeWhile (\<lambda>c. c \<noteq> colon) l" "length u < length l" by auto
  have "l ! length u = colon" using nth_length_takeWhile [of "\<lambda>c. c \<noteq> colon" l] u by simp
  moreover have "take (length u) l = u" using takeWhile_eq_take [of "\<lambda>c. c \<noteq> colon" l] u(1) by simp
  ultimately show ?thesis using u(2) by (simp add: line_of_def)
qed

lemma line_of_chomp: "line_of u (chomp l) \<Longrightarrow> line_of u l"
  by (auto simp: line_of_def chomp_def nth_butlast take_butlast split: if_splits)

lemma line_of_unique:
  assumes "line_of u l" "line_of v l" "colon \<notin> set u" "colon \<notin> set v"
  shows "u = v"
proof -
  have "length w = length (takeWhile (\<lambda>c. c \<noteq> colon) l)" if "line_of w l" "colon \<notin> set w" for w
  proof -
    have "l = w @ colon # drop (Suc (length w)) l"
      using that(1) id_take_nth_drop [of "length w" l] by (simp add: line_of_def)
    then show ?thesis using takeWhile_colon [OF that(2), of "drop (Suc (length w)) l"] by simp
  qed
  then have "length u = length v" using assms by metis
  then show ?thesis using assms(1,2) by (simp add: line_of_def)
qed

section \<open>Looking a user up\<close>

text \<open>
  A file of lines that carry the name of their user: the entry of a user is the first line that yields one. Adding
  and removing the lines of a user changes the entry of that user alone.
\<close>

definition lookup :: "(string \<Rightarrow> string \<Rightarrow> 'r option) \<Rightarrow> string \<Rightarrow> string list \<Rightarrow> 'r option" where
  "lookup entry u ls = first_match (\<lambda>l. entry u (chomp l)) ls"

definition lines_left :: "string \<Rightarrow> string list \<Rightarrow> string list" where
  "lines_left u ls = (if \<exists>l \<in> set ls. line_of u l then filter (keeps u) ls else ls)"

locale line_table =
  fixes entry :: "string \<Rightarrow> string \<Rightarrow> 'r option"
  assumes entry_line_of: "entry u l \<noteq> None \<Longrightarrow> line_of u l"
    and entry_no_colon: "entry u l \<noteq> None \<Longrightarrow> colon \<notin> set u"
begin

lemma foreign: "line_of u l \<Longrightarrow> colon \<notin> set u \<Longrightarrow> v \<noteq> u \<Longrightarrow> entry v (chomp l) = None"
  using entry_line_of [of v "chomp l"] entry_no_colon [of v "chomp l"] line_of_chomp [of v l] line_of_unique [of v l u] by blast

lemma lookup_left_same: "lookup entry u (lines_left u ls) = None"
proof -
  have "entry u (chomp l) = None" if "\<not> line_of u l" for l
    using that line_of_chomp entry_line_of by blast
  then show ?thesis by (auto simp: lines_left_def lookup_def first_match_None keeps_def)
qed

lemma lookup_left_other:
  assumes "v \<noteq> u" "colon \<notin> set u"
  shows "lookup entry v (lines_left u ls) = lookup entry v ls"
proof -
  have "entry v (chomp l) = None" if "\<not> keeps u l" for l
  proof (cases "l = []")
    case True
    then have "\<not> line_of v (chomp l)" by (simp add: chomp_def line_of_def)
    then show ?thesis using entry_line_of by blast
  next
    case False
    then show ?thesis using that foreign assms by (simp add: keeps_def)
  qed
  then show ?thesis by (simp add: lines_left_def lookup_def first_match_filter)
qed

lemma lookup_snoc_same: "lookup entry u ls = None \<Longrightarrow> lookup entry u (ls @ [l]) = entry u (chomp l)"
  by (simp add: lookup_def first_match_append split: option.split)

lemma lookup_snoc_other: "line_of u l \<Longrightarrow> colon \<notin> set u \<Longrightarrow> v \<noteq> u \<Longrightarrow> lookup entry v (ls @ [l]) = lookup entry v ls"
  using foreign by (simp add: lookup_def first_match_append split: option.split)

end

interpretation shadow: line_table shadow_record
  by unfold_locales (simp_all add: shadow_record_line_of shadow_record_no_colon)

lemma readShadowRecord_eq:
  "serves E USER_STORE_SHADOW_PATH \<Longrightarrow> readShadowRecord E (Some u) fs = lookup shadow_record u (lines_at fs USER_STORE_SHADOW_PATH)"
  by (auto simp: readShadowRecord_def serves_def lines_at_def scan_lines_eq lookup_def split: option.split)

definition passwd_record :: "string \<Rightarrow> string \<Rightarrow> user_record_t option" where
  "passwd_record u l = (case parsePasswdLine l of None \<Rightarrow> None | Some r \<Rightarrow> if u_username r = u then Some r else None)"

lemma split_fields_first:
  assumes "1 < length (split_fields l)"
  shows "hd (split_fields l) = takeWhile (\<lambda>c. c \<noteq> colon) l" "line_of (takeWhile (\<lambda>c. c \<noteq> colon) l) l"
proof -
  have c: "colon \<in> set l" using assms split_fields_last [of l] by (cases "colon \<in> set l") simp_all
  then have n: "dropWhile (\<lambda>c. c \<noteq> colon) l \<noteq> []" by (auto simp: dropWhile_eq_Nil_conv)
  then show "hd (split_fields l) = takeWhile (\<lambda>c. c \<noteq> colon) l" using split_fields.simps [of l] by (auto split: list.splits)
  have k: "length (takeWhile (\<lambda>c. c \<noteq> colon) l) < length l"
    using n takeWhile_dropWhile_id [of "\<lambda>c. c \<noteq> colon" l] by (metis length_append less_add_same_cancel1 length_greater_0_conv)
  then show "line_of (takeWhile (\<lambda>c. c \<noteq> colon) l) l"
    using nth_length_takeWhile [OF k] takeWhile_eq_take [of "\<lambda>c. c \<noteq> colon" l] by (simp add: line_of_def)
qed

lemma passwd_record_name:
  assumes "passwd_record u l \<noteq> None"
  shows "u = takeWhile (\<lambda>c. c \<noteq> colon) l" "line_of u l"
proof -
  have six: "\<not> length (take 6 (split_fields l)) < 6" and u: "u = take 6 (split_fields l) ! 0"
    using assms by (auto simp: passwd_record_def parsePasswdLine_def Let_def split: if_splits)
  then have "hd (split_fields l) = u" by (cases "split_fields l") auto
  then show "u = takeWhile (\<lambda>c. c \<noteq> colon) l" "line_of u l" using split_fields_first [of l] six by auto
qed

lemma passwd_record_no_colon: "passwd_record u l \<noteq> None \<Longrightarrow> colon \<notin> set u"
  using passwd_record_name(1) [of u l] by (auto dest: set_takeWhileD)

interpretation passwd: line_table passwd_record
  by unfold_locales (simp_all add: passwd_record_name(2) passwd_record_no_colon)

lemma findUserByName_eq:
  "serves E USER_STORE_PASSWD_PATH \<Longrightarrow>
     findUserByName E (Some u) fs = (if u = [] then None else lookup passwd_record u (lines_at fs USER_STORE_PASSWD_PATH))"
  by (auto simp: findUserByName_def scanPasswdFile_def serves_def lines_at_def scan_lines_eq lookup_def passwd_record_def
      cong: option.case_cong split: option.split)

section \<open>Passwords\<close>

lemma temp_paths: "temp_path USER_STORE_SHADOW_PATH = ''/temp/shadow''" "temp_path USER_STORE_PASSWD_PATH = ''/temp/passwd''"
  by (simp_all add: temp_path_def fsi_getTempDirectory_def fsi_new_def fsi_basename_def)

definition perms_left :: "volume_env \<Rightarrow> string \<Rightarrow> files \<Rightarrow> string \<Rightarrow> u16 option" where
  "perms_left E u fs p =
     (if \<exists>l \<in> set (lines_at fs p). line_of u l
      then if lines_left u (lines_at fs p) = [] then None else Some (stampCreate_perms E)
      else map_option f_perms (fs p))"

lemma perms_left_cases:
  "(case perms_left E u fs p of None \<Rightarrow> d | Some m \<Rightarrow> m) =
     (if \<exists>l \<in> set (lines_at fs p). line_of u l
      then if \<exists>l \<in> set (lines_at fs p). keeps u l then stampCreate_perms E else d
      else case fs p of None \<Rightarrow> d | Some f \<Rightarrow> f_perms f)"
  by (auto simp: perms_left_def lines_left_def filter_empty_conv split: option.split)

lemma removeLine_result:
  fixes u :: string
  assumes "reliable E p" "temp_path p \<noteq> p" "closed_at fs p"
  defines "g \<equiv> snd (removeLineByUsername E p u fs)"
  shows "lines_at g p = lines_left u (lines_at fs p)" "closed_at g p" "map_option f_perms (g p) = perms_left E u fs p"
proof -
  have "lines_at g p = lines_left u (lines_at fs p) \<and> closed_at g p \<and> map_option f_perms (g p) = perms_left E u fs p"
  proof (cases "fs p")
    case None
    then have "g = fs" by (simp add: g_def removeLineByUsername_def)
    with None show ?thesis using assms(3) by (simp add: lines_left_def perms_left_def lines_at_def)
  next
    case (Some f)
    have "file_lines (as_lines (filter (keeps u) ls)) = filter (keeps u) ls" if "\<forall>l \<in> set ls. newline \<notin> set l" for ls
      using that file_lines_as_lines [of "filter (keeps u) ls" "[]"] by (simp add: file_lines.simps [of "[]"])
    then have "file_lines (as_lines (filter (keeps u) (lines_at fs p))) = filter (keeps u) (lines_at fs p)"
      using file_lines_no_newline Some by (auto simp: lines_at_def)
    moreover have "g p = (if \<exists>l \<in> set (lines_at fs p). line_of u l
        then if filter (keeps u) (lines_at fs p) = [] then None
             else Some \<lparr>f_data = as_lines (filter (keeps u) (lines_at fs p)), f_perms = stampCreate_perms E\<rparr>
        else fs p)"
      using removeLine_eq [of E p fs f u] assms(1,2) Some by (simp add: g_def Let_def)
    ultimately show ?thesis
      using assms(3) Some closed_as_lines
      by (simp add: lines_left_def perms_left_def lines_at_def [of g] closed_at_def)
         (simp add: lines_at_def)
  qed
  then show "lines_at g p = lines_left u (lines_at fs p)" "closed_at g p" "map_option f_perms (g p) = perms_left E u fs p"
    by simp_all
qed

lemma create_empty: "serves E q \<Longrightarrow> h q = None \<Longrightarrow> lfs_createFile E q [] h = (0, h(q \<mapsto> \<lparr>f_data = [], f_perms = stampCreate_perms E\<rparr>))"
  by (simp add: lfs_createFile_def serves_def)

lemma setPassword_steps:
  fixes fs :: files
  assumes "reliable E USER_STORE_SHADOW_PATH" "u \<noteq> []"
  defines "g \<equiv> snd (removeLineByUsername E USER_STORE_SHADOW_PATH u fs)"
  shows "setPassword E salt (Some u) (Some p) fs =
    (True, appended E USER_STORE_SHADOW_PATH [shadow_line u (hashPassword (Some p) (Some salt) 8) salt]
             (if g USER_STORE_SHADOW_PATH = None then g(USER_STORE_SHADOW_PATH \<mapsto> \<lparr>f_data = [], f_perms = 0x180\<rparr>) else g))"
proof -
  have ok: "serves E USER_STORE_SHADOW_PATH" using assms(1) by (simp add: reliable_def)
  show ?thesis
    unfolding setPassword_def prod.case option.case Let_def write_line [OF ok] g_def [symmetric]
    using assms(2) by (auto simp: create_empty [OF ok] lfs_setFilePermissions_def)
qed

lemma lines_at_appended: "closed_at g p \<Longrightarrow> newline \<notin> set l \<Longrightarrow> lines_at (appended E p [l] g) p = lines_at g p @ [l]"
  using file_lines_snoc [of _ l] file_lines_snoc [of "[]" l]
  by (auto simp: lines_at_def appended_def as_lines_def closed_at_def closed_def file_lines.simps [of "[]"] split: option.split)

lemma setPassword_frame:
  assumes "q \<noteq> USER_STORE_SHADOW_PATH" "q \<noteq> ''/temp/shadow''"
  shows "snd (setPassword E salt u p fs) q = fs q"
proof -
  have rm: "snd (removeLineByUsername E USER_STORE_SHADOW_PATH v fs) q = fs q" for v
    using removeLine_frame [of q USER_STORE_SHADOW_PATH E v fs] assms by (simp add: temp_paths)
  have wr: "snd (lfs_writeFile E p c app g) q = g q" "snd (lfs_createFile E p c g) q = g q" "lfs_setFilePermissions p m g q = g q"
    if "p \<noteq> q" for p c app g m
    using that by (auto simp: lfs_writeFile_def lfs_createFile_def lfs_setFilePermissions_def split: option.split)
  show ?thesis
    using assms(1) rm
    by (auto simp: setPassword_def Let_def case_prod_beta wr split: option.split)
qed

lemma setPassword_result:
  fixes fs :: files and salt :: "byte list" and p :: string
  assumes "reliable E USER_STORE_SHADOW_PATH" "u \<noteq> []" "field_ok u" "closed_at fs USER_STORE_SHADOW_PATH"
  defines "fs' \<equiv> snd (setPassword E salt (Some u) (Some p) fs)"
  shows "setPassword E salt (Some u) (Some p) fs = (True, fs')"
    "lines_at fs' USER_STORE_SHADOW_PATH =
       lines_left u (lines_at fs USER_STORE_SHADOW_PATH) @ [shadow_line u (hashPassword (Some p) (Some salt) 8) salt]"
    "map_option f_perms (fs' USER_STORE_SHADOW_PATH) =
       Some (case perms_left E u fs USER_STORE_SHADOW_PATH of None \<Rightarrow> 0x180 | Some m \<Rightarrow> m)"
proof -
  let ?S = USER_STORE_SHADOW_PATH and ?l = "shadow_line u (hashPassword (Some p) (Some salt) 8) salt"
  define g where "g = snd (removeLineByUsername E ?S u fs)"
  define h where "h = (if g ?S = None then g(?S \<mapsto> \<lparr>f_data = [], f_perms = 0x180\<rparr>) else g)"
  have t: "temp_path ?S \<noteq> ?S" by (simp add: temp_paths)
  note r = removeLine_result [OF assms(1) t assms(4), where u = u, folded g_def]
  have 1: "setPassword E salt (Some u) (Some p) fs = (True, appended E ?S [?l] h)"
    using setPassword_steps [OF assms(1,2), of salt p fs] by (simp only: h_def g_def)
  then show "setPassword E salt (Some u) (Some p) fs = (True, fs')" by (simp add: fs'_def)
  have "newline \<notin> set ?l" using assms(3) hex_pairs_clean(2) by (simp add: shadow_line_def hex_pairs_text field_ok_def)
  moreover have "closed_at h ?S" "lines_at h ?S = lines_at g ?S"
    using r(2) by (auto simp: h_def closed_at_def closed_def lines_at_def file_lines.simps [of "[]"])
  ultimately show "lines_at fs' ?S = lines_left u (lines_at fs ?S) @ [?l]"
    using lines_at_appended r(1) by (simp add: fs'_def 1)
  show "map_option f_perms (fs' ?S) = Some (case perms_left E u fs ?S of None \<Rightarrow> 0x180 | Some m \<Rightarrow> m)"
    unfolding r(3) [symmetric] fs'_def 1 by (auto simp: appended_def h_def split: option.split)
qed

lemma xor_0_iff: "a XOR b = 0 \<longleftrightarrow> a = (b :: byte)"
  by (auto simp: bit_eq_iff bit_simps)

lemma xor_sum_0: "fold (\<lambda>(a, b) diff. diff OR (a XOR b)) xs (d :: byte) = 0 \<longleftrightarrow> d = 0 \<and> (\<forall>(a, b) \<in> set xs. a = b)"
  by (induction xs arbitrary: d) (auto simp: or_eq_0_iff xor_0_iff)

lemma same_bytes: "length xs = length ys \<Longrightarrow> fold (\<lambda>(a, b) diff. diff OR (a XOR b)) (zip xs ys) (0 :: byte) = 0 \<longleftrightarrow> xs = ys"
  unfolding xor_sum_0 by (induction xs ys rule: list_induct2) auto

text \<open>The stored hash is the digest of the salt followed by the password.\<close>

lemma hashPassword_eq:
  assumes "length salt = 8" "length p < 2 ^ 32"
  shows "hashPassword (Some p) (Some salt) 8 = sha256_digest (salt @ bytes_of p)"
proof -
  have "sha_started (sha256_init sha256_blank)" 
    unfolding sha_started_def by (rule exI [of _ sha256_blank]) (simp add: sha256_blank_def)
  then have "sha256_final (foldl (\<lambda>c p. sha256_update c p (of_nat (length p))) (sha256_init sha256_blank) [salt, bytes_of p])
      = sha256_digest (concat [salt, bytes_of p])"
    unfolding sha256_digest_def using assms by (intro sha.digest_pieces) (simp_all add: bytes_of_def)
  then show ?thesis using assms(1) by (simp add: hashPassword_def bytes_of_def)
qed

lemma verify_eq:
  assumes "serves E USER_STORE_SHADOW_PATH" "lookup shadow_record u (lines_at fs USER_STORE_SHADOW_PATH) = Some (h, salt)"
    "length h = 32" "length salt = 8" "length p < 2 ^ 32"
  shows "verifyPassword E (Some u) (Some p) fs \<longleftrightarrow> h = sha256_digest (salt @ bytes_of p)"
  using assms hashPassword_eq [of salt p] length_sha256_digest
  by (simp add: verifyPassword_def readShadowRecord_eq same_bytes)

lemma verify_cong:
  assumes "serves E USER_STORE_SHADOW_PATH"
    "lookup shadow_record v (lines_at fs USER_STORE_SHADOW_PATH) = lookup shadow_record v (lines_at fs' USER_STORE_SHADOW_PATH)"
  shows "verifyPassword E (Some v) q fs = verifyPassword E (Some v) q fs'"
  using assms by (simp add: verifyPassword_def readShadowRecord_eq split: option.split)

lemma chomp_shadow_line: "field_ok u \<Longrightarrow> chomp (shadow_line u h s) = shadow_line u h s"
  using hex_pairs_clean(2) [of h] hex_pairs_clean(2) [of s]
  by (intro chomp_id) (simp add: shadow_line_def hex_pairs_text field_ok_def)

lemma shadow_new:
  assumes "field_ok u" "length h = 32" "length s = 8"
  shows "lookup shadow_record u (lines_left u ls @ [shadow_line u h s]) = Some (h, s)"
    "v \<noteq> u \<Longrightarrow> lookup shadow_record v (lines_left u ls @ [shadow_line u h s]) = lookup shadow_record v ls"
proof -
  have u: "colon \<notin> set u" using assms(1) by (simp add: field_ok_def)
  note line = shadow_record_line [OF u assms(2,3)]
  then have l: "line_of u (shadow_line u h s)" using shadow_record_line_of by simp
  show "lookup shadow_record u (lines_left u ls @ [shadow_line u h s]) = Some (h, s)"
    by (simp add: shadow.lookup_snoc_same shadow.lookup_left_same chomp_shadow_line [OF assms(1)] line)
  show "lookup shadow_record v (lines_left u ls @ [shadow_line u h s]) = lookup shadow_record v ls" if "v \<noteq> u"
    by (simp add: shadow.lookup_snoc_other [OF l u that] shadow.lookup_left_other [OF that u])
qed

section \<open>Accounts\<close>

definition with_passwd_line :: "volume_env \<Rightarrow> user_record_t \<Rightarrow> files \<Rightarrow> files" where
  "with_passwd_line E r fs = appended E USER_STORE_PASSWD_PATH [serializePasswdLine r]
     (if fs USER_STORE_PASSWD_PATH = None
      then fs(USER_STORE_PASSWD_PATH \<mapsto> \<lparr>f_data = [], f_perms = stampCreate_perms E\<rparr>) else fs)"

lemma addUser_steps:
  assumes "serves E USER_STORE_PASSWD_PATH" "u_username r \<noteq> []" "findUserByName E (Some (u_username r)) fs = None"
  shows "addUser E salt r pw fs =
    (if pw \<noteq> None \<and> pw \<noteq> Some []
     then (let (ok, fs') = setPassword E salt (Some (u_username r)) pw (with_passwd_line E r fs) in
           if ok then (True, fs') else (False, snd (removeLineByUsername E USER_STORE_PASSWD_PATH (u_username r) fs')))
     else (True, with_passwd_line E r fs))"
  unfolding addUser_def Let_def write_line [OF assms(1)]
  using assms(2,3) by (simp add: create_empty [OF assms(1)] with_passwd_line_def)

lemma with_passwd_line:
  assumes "record_ok r" "closed_at fs USER_STORE_PASSWD_PATH"
  shows "lines_at (with_passwd_line E r fs) USER_STORE_PASSWD_PATH = lines_at fs USER_STORE_PASSWD_PATH @ [serializePasswdLine r]"
    "closed_at (with_passwd_line E r fs) USER_STORE_PASSWD_PATH"
    "q \<noteq> USER_STORE_PASSWD_PATH \<Longrightarrow> with_passwd_line E r fs q = fs q"
proof -
  let ?P = USER_STORE_PASSWD_PATH
  define g where "g = (if fs ?P = None then fs(?P \<mapsto> \<lparr>f_data = [], f_perms = stampCreate_perms E\<rparr>) else fs)"
  have "closed_at g ?P" "lines_at g ?P = lines_at fs ?P"
    using assms(2) by (auto simp: g_def closed_at_def closed_def lines_at_def file_lines.simps [of "[]"])
  then show "lines_at (with_passwd_line E r fs) ?P = lines_at fs ?P @ [serializePasswdLine r]"
    using lines_at_appended [of g ?P "serializePasswdLine r" E] serialize_line(1) [OF assms(1)]
    by (simp add: with_passwd_line_def g_def)
  show "closed_at (with_passwd_line E r fs) ?P"
    by (simp add: with_passwd_line_def appended_def closed_at_def closed_def as_lines_def split: option.split)
  show "with_passwd_line E r fs q = fs q" if "q \<noteq> ?P"
    using that by (simp add: with_passwd_line_def appended_def)
qed

lemma passwd_line:
  assumes "record_ok r"
  shows "passwd_record (u_username r) (chomp (serializePasswdLine r)) = Some r"
    "line_of (u_username r) (serializePasswdLine r)" "colon \<notin> set (u_username r)"
proof -
  show a: "passwd_record (u_username r) (chomp (serializePasswdLine r)) = Some r"
    using parse_serialize [OF assms] serialize_line(2) [OF assms] by (simp add: passwd_record_def)
  then show "line_of (u_username r) (serializePasswdLine r)" "colon \<notin> set (u_username r)"
    using passwd_record_name(2) passwd_record_no_colon serialize_line(2) [OF assms] by (metis option.distinct(1))+
qed

lemma lines_at_cong: "fs p = fs' p \<Longrightarrow> lines_at fs p = lines_at fs' p" "fs p = fs' p \<Longrightarrow> closed_at fs p = closed_at fs' p"
  by (simp_all add: lines_at_def closed_at_def)

lemma setPassword_stored:
  assumes "reliable E USER_STORE_SHADOW_PATH" "closed_at fs USER_STORE_SHADOW_PATH" "u \<noteq> []" "field_ok u"
    and "length salt = 8" "length p < 2 ^ 32" "length p' < 2 ^ 32"
  shows "\<exists>fs'. setPassword E salt (Some u) (Some p) fs = (True, fs') \<and>
    (verifyPassword E (Some u) (Some p') fs' \<longleftrightarrow> sha256_digest (salt @ bytes_of p) = sha256_digest (salt @ bytes_of p')) \<and>
    (\<forall>v q. v \<noteq> u \<longrightarrow> verifyPassword E (Some v) q fs' = verifyPassword E (Some v) q fs) \<and>
    fs' USER_STORE_PASSWD_PATH = fs USER_STORE_PASSWD_PATH"
proof -
  have ok: "serves E USER_STORE_SHADOW_PATH" using assms(1) by (simp add: reliable_def)
  note h = hashPassword_eq [OF assms(5,6)]
  have len: "length (sha256_digest m) = 32" for m by (rule length_sha256_digest)
  define fs' where "fs' = snd (setPassword E salt (Some u) (Some p) fs)"
  note set = setPassword_result [OF assms(1,3,4,2), of salt p, folded fs'_def, unfolded h]
  note new = shadow_new [OF assms(4) len [of "salt @ bytes_of p"] assms(5), where ls = "lines_at fs USER_STORE_SHADOW_PATH", folded set(2)]
  have "verifyPassword E (Some u) (Some p') fs' \<longleftrightarrow> sha256_digest (salt @ bytes_of p) = sha256_digest (salt @ bytes_of p')"
    by (rule verify_eq [OF ok new(1) len assms(5,7)])
  moreover have "verifyPassword E (Some v) q fs' = verifyPassword E (Some v) q fs" if "v \<noteq> u" for v q
    using verify_cong [OF ok new(2)] that by simp
  moreover have "fs' USER_STORE_PASSWD_PATH = fs USER_STORE_PASSWD_PATH" by (simp add: fs'_def setPassword_frame)
  ultimately show ?thesis using set(1) by simp
qed

lemma addUser_stored:
  assumes "reliable E USER_STORE_PASSWD_PATH" "reliable E USER_STORE_SHADOW_PATH"
    and "closed_at fs USER_STORE_PASSWD_PATH" "closed_at fs USER_STORE_SHADOW_PATH"
    and "record_ok r" "findUserByName E (Some (u_username r)) fs = None" "length salt = 8" "p \<noteq> []" "length p < 2 ^ 32"
  shows "\<exists>fs'. addUser E salt r (Some p) fs = (True, fs') \<and>
    findUserByName E (Some (u_username r)) fs' = Some r \<and> fs' USER_STORE_SHADOW_PATH \<noteq> None \<and>
    (\<forall>q. length q < 2 ^ 32 \<longrightarrow>
       verifyPassword E (Some (u_username r)) (Some q) fs' = (sha256_digest (salt @ bytes_of p) = sha256_digest (salt @ bytes_of q))) \<and>
    (\<forall>v. v \<noteq> u_username r \<longrightarrow> findUserByName E (Some v) fs' = findUserByName E (Some v) fs \<and>
       (\<forall>q. verifyPassword E (Some v) q fs' = verifyPassword E (Some v) q fs))"
proof -
  let ?u = "u_username r" and ?g = "with_passwd_line E r fs" and ?P = USER_STORE_PASSWD_PATH and ?S = USER_STORE_SHADOW_PATH
  have u: "?u \<noteq> []" "field_ok ?u" using assms(5) by (simp_all add: record_ok_def)
  have ok: "serves E ?P" "serves E ?S" using assms(1,2) by (simp_all add: reliable_def)
  note w = with_passwd_line [OF assms(5,3), where E = E]
  have gS: "closed_at ?g ?S" "lines_at ?g ?S = lines_at fs ?S" using w(3) [of ?S] assms(4) lines_at_cong [of ?g ?S fs] by simp_all
  define fs' where "fs' = snd (setPassword E salt (Some ?u) (Some p) ?g)"
  note set = setPassword_result [OF assms(2) u gS(1), of salt p, folded fs'_def, unfolded hashPassword_eq [OF assms(7,9)] gS(2)]
  note new = shadow_new [OF u(2) length_sha256_digest [of "salt @ bytes_of p"] assms(7), where ls = "lines_at fs ?S", folded set(2)]
  have l: "lines_at fs' ?P = lines_at fs ?P @ [serializePasswdLine r]"
    using setPassword_frame [of ?P E salt "Some ?u" "Some p" ?g, folded fs'_def] w(1) lines_at_cong(1) [of fs' ?P ?g] by simp
  have none: "lookup passwd_record ?u (lines_at fs ?P) = None"
    using assms(6) u(1) by (simp add: findUserByName_eq [OF ok(1)])
  have "findUserByName E (Some ?u) fs' = Some r"
    using u(1) none passwd.lookup_snoc_same [OF none, of "serializePasswdLine r"] passwd_line(1) [OF assms(5)]
    by (simp add: findUserByName_eq [OF ok(1)] l)
  moreover have "findUserByName E (Some v) fs' = findUserByName E (Some v) fs" if "v \<noteq> ?u" for v
    using passwd.lookup_snoc_other [OF passwd_line(2,3) [OF assms(5)] that, of "lines_at fs ?P"]
    by (simp add: findUserByName_eq [OF ok(1)] l)
  moreover have "verifyPassword E (Some ?u) (Some q) fs' = (sha256_digest (salt @ bytes_of p) = sha256_digest (salt @ bytes_of q))"
      if "length q < 2 ^ 32" for q
    by (rule verify_eq [OF ok(2) new(1) length_sha256_digest assms(7) that])
  moreover have "fs' ?S \<noteq> None" using set(3) by auto
  moreover have "verifyPassword E (Some v) q fs' = verifyPassword E (Some v) q fs" if "v \<noteq> ?u" for v q
    using verify_cong [OF ok(2) new(2)] that by simp
  moreover have "addUser E salt r (Some p) fs = (True, fs')"
    using addUser_steps [OF ok(1) u(1) assms(6)] assms(8) set(1) by simp
  ultimately show ?thesis by (intro exI [of _ fs'] conjI allI impI)
qed

section \<open>Properties\<close>

text \<open>
  C8. Setting a password succeeds on a reliable volume, and from then on exactly the passwords with the same salted
  digest are accepted for the user. No other user's password is affected and the user table is left alone.
\<close>

theorem set_then_verify:
  assumes "reliable E USER_STORE_SHADOW_PATH" "closed_at fs USER_STORE_SHADOW_PATH" "u \<noteq> []" "field_ok u"
    and "length salt = 8" "length p < 2 ^ 32" "length p' < 2 ^ 32"
  shows "\<exists>fs'. setPassword E salt (Some u) (Some p) fs = (True, fs') \<and>
    (verifyPassword E (Some u) (Some p') fs' \<longleftrightarrow> sha256_digest (salt @ bytes_of p) = sha256_digest (salt @ bytes_of p')) \<and>
    (\<forall>v q. v \<noteq> u \<longrightarrow> verifyPassword E (Some v) q fs' = verifyPassword E (Some v) q fs) \<and>
    fs' USER_STORE_PASSWD_PATH = fs USER_STORE_PASSWD_PATH"
  by (rule setPassword_stored [OF assms])

definition good_flash :: volume_env where
  "good_flash = \<lparr>open_ok = \<lambda>_ _. True, write_ok = \<lambda>_ _ _. True, read_ok = \<lambda>_ _ _. True, remove_ok = \<lambda>_ _. True,
     move_ok = \<lambda>_ _ _. True, cur_umask = 0x12\<rparr>"

lemma good_flash_reliable: "reliable good_flash p"
  by (simp add: reliable_def serves_def good_flash_def)

theorem set_then_verify_witness:
  "verifyPassword good_flash (Some ''root'') (Some ''pdi'')
     (snd (setPassword good_flash [1, 2, 3, 4, 5, 6, 7, 8] (Some ''root'') (Some ''pdi'') Map.empty))"
  using set_then_verify [OF good_flash_reliable, of Map.empty "''root''" "[1, 2, 3, 4, 5, 6, 7, 8]" "''pdi''" "''pdi''"]
  by (auto simp: closed_at_def field_ok_def)

text \<open>
  C18. Adding an account with a password succeeds on a reliable volume when the name is free: the account is then
  found under its name with every field as given, its password is accepted, and the accounts and passwords of all
  other users are as before.
\<close>

theorem addUser_then_find:
  assumes "reliable E USER_STORE_PASSWD_PATH" "reliable E USER_STORE_SHADOW_PATH"
    and "closed_at fs USER_STORE_PASSWD_PATH" "closed_at fs USER_STORE_SHADOW_PATH"
    and "record_ok r" "findUserByName E (Some (u_username r)) fs = None" "length salt = 8" "p \<noteq> []" "length p < 2 ^ 32"
  shows "\<exists>fs'. addUser E salt r (Some p) fs = (True, fs') \<and>
    findUserByName E (Some (u_username r)) fs' = Some r \<and> verifyPassword E (Some (u_username r)) (Some p) fs' \<and>
    (\<forall>v. v \<noteq> u_username r \<longrightarrow> findUserByName E (Some v) fs' = findUserByName E (Some v) fs \<and>
       (\<forall>q. verifyPassword E (Some v) q fs' = verifyPassword E (Some v) q fs))"
  using addUser_stored [OF assms] assms(9) by blast

lemma no_users: "findUserByName E u Map.empty = None"
  by (simp add: findUserByName_def scanPasswdFile_def)

theorem addUser_then_find_witness:
  "findUserByName good_flash (Some ''bob'')
     (snd (addUser good_flash [1, 2, 3, 4, 5, 6, 7, 8]
        \<lparr>u_uid = 1000, u_gid = 100, u_username = ''bob'', u_home = ''/home/bob'', u_shell = ''cmd''\<rparr> (Some ''pdi'') Map.empty)) =
   Some \<lparr>u_uid = 1000, u_gid = 100, u_username = ''bob'', u_home = ''/home/bob'', u_shell = ''cmd''\<rparr>"
  using addUser_then_find [OF good_flash_reliable good_flash_reliable,
      of Map.empty "\<lparr>u_uid = 1000, u_gid = 100, u_username = ''bob'', u_home = ''/home/bob'', u_shell = ''cmd''\<rparr>"
        "[1, 2, 3, 4, 5, 6, 7, 8]" "''pdi''"]
  by (auto simp: closed_at_def field_ok_def record_ok_def no_users)

text \<open>
  C19. Adding an account that fails for any reason, an existing name or a password that cannot be stored, changes no
  account: whatever happens to the shadow file, the line already written is taken back and every name is found, or
  not found, as before.
\<close>

theorem addUser_failed:
  assumes "reliable E USER_STORE_PASSWD_PATH" "closed_at fs USER_STORE_PASSWD_PATH" "record_ok r"
    and "addUser E salt r pw fs = (False, fs')"
  shows "findUserByName E (Some v) fs' = findUserByName E (Some v) fs"
proof -
  let ?u = "u_username r" and ?g = "with_passwd_line E r fs" and ?P = USER_STORE_PASSWD_PATH
  have u: "?u \<noteq> []" "colon \<notin> set ?u" using assms(3) by (simp_all add: record_ok_def field_ok_def)
  have ok: "serves E ?P" using assms(1) by (simp add: reliable_def)
  show ?thesis
  proof (cases "findUserByName E (Some ?u) fs")
    case (Some x)
    then show ?thesis using assms(4) u(1) by (simp add: addUser_def)
  next
    case None
    obtain b h where h: "setPassword E salt (Some ?u) pw ?g = (b, h)" by fastforce
    have fs': "fs' = snd (removeLineByUsername E ?P ?u h)"
      using assms(4) unfolding addUser_steps [OF ok u(1) None] h by (simp split: if_splits)
    note w = with_passwd_line [OF assms(3,2), where E = E]
    have "h ?P = ?g ?P" using setPassword_frame [of ?P E salt "Some ?u" pw ?g] h by simp
    then have hP: "closed_at h ?P" "lines_at h ?P = lines_at fs ?P @ [serializePasswdLine r]"
      using w lines_at_cong [of h ?P ?g] by simp_all
    have none: "lookup passwd_record ?u (lines_at fs ?P) = None" using None u(1) by (simp add: findUserByName_eq [OF ok])
    have "lines_at fs' ?P = lines_left ?u (lines_at fs ?P @ [serializePasswdLine r])"
      unfolding fs' using removeLine_result(1) [OF assms(1) _ hP(1)] hP(2) by (simp add: temp_paths)
    then have "lookup passwd_record v (lines_at fs' ?P) = lookup passwd_record v (lines_at fs ?P)"
      using none passwd.lookup_left_same passwd.lookup_left_other [OF _ u(2)]
        passwd.lookup_snoc_other [OF passwd_line(2,3) [OF assms(3)]] by (cases "v = ?u") simp_all
    then show ?thesis by (simp add: findUserByName_eq [OF ok])
  qed
qed

definition shadow_unwritable :: volume_env where
  "shadow_unwritable = good_flash\<lparr>open_ok := \<lambda>_ p. p \<noteq> USER_STORE_SHADOW_PATH\<rparr>"

theorem addUser_failed_witness:
  "findUserByName shadow_unwritable (Some ''bob'')
     (snd (addUser shadow_unwritable [1, 2, 3, 4, 5, 6, 7, 8]
        \<lparr>u_uid = 1000, u_gid = 100, u_username = ''bob'', u_home = ''/home/bob'', u_shell = ''cmd''\<rparr> (Some ''pdi'') Map.empty)) = None"
proof -
  let ?r = "\<lparr>u_uid = 1000, u_gid = 100, u_username = ''bob'', u_home = ''/home/bob'', u_shell = ''cmd''\<rparr>"
  let ?a = "addUser shadow_unwritable [1, 2, 3, 4, 5, 6, 7, 8] ?r (Some ''pdi'') Map.empty"
  have s: "serves shadow_unwritable USER_STORE_PASSWD_PATH" "reliable shadow_unwritable USER_STORE_PASSWD_PATH"
    by (simp_all add: shadow_unwritable_def good_flash_def serves_def reliable_def temp_paths)
  have n: "findUserByName shadow_unwritable (Some ''bob'') Map.empty = None"
    by (rule no_users)
  have "with_passwd_line shadow_unwritable ?r Map.empty USER_STORE_SHADOW_PATH = None"
    by (simp add: with_passwd_line_def appended_def)
  then have "fst (setPassword shadow_unwritable salt (Some ''bob'') (Some ''pdi'') (with_passwd_line shadow_unwritable ?r Map.empty)) = False" for salt
    by (simp add: setPassword_def removeLineByUsername_def lfs_createFile_def shadow_unwritable_def Let_def)
  then have "fst ?a = False"
    using addUser_steps [OF s(1), of ?r Map.empty "[1, 2, 3, 4, 5, 6, 7, 8]" "Some ''pdi''"] n
    by (simp add: Let_def case_prod_beta)
  then have "?a = (False, snd ?a)" by (simp add: prod_eq_iff)
  from addUser_failed [OF s(2) _ _ this, of "''bob''"] n show ?thesis
    by (simp add: closed_at_def record_ok_def field_ok_def)
qed

text \<open>
  Removing an account reports whether the user table had a line for it. Afterwards the name is not found and no
  password is accepted for it, while the accounts and passwords of all other users are as before.
\<close>

theorem removeUser_then_find:
  assumes "reliable E USER_STORE_PASSWD_PATH" "reliable E USER_STORE_SHADOW_PATH"
    and "closed_at fs USER_STORE_PASSWD_PATH" "closed_at fs USER_STORE_SHADOW_PATH"
    and "u \<noteq> []" "colon \<notin> set u"
  shows "\<exists>fs'. removeUser E (Some u) fs = (\<exists>l \<in> set (lines_at fs USER_STORE_PASSWD_PATH). line_of u l, fs') \<and>
    findUserByName E (Some u) fs' = None \<and> \<not> verifyPassword E (Some u) q fs' \<and>
    (\<forall>v. v \<noteq> u \<longrightarrow> findUserByName E (Some v) fs' = findUserByName E (Some v) fs \<and>
       verifyPassword E (Some v) q fs' = verifyPassword E (Some v) q fs)"
proof -
  let ?P = USER_STORE_PASSWD_PATH and ?S = USER_STORE_SHADOW_PATH
  define g where "g = snd (removeLineByUsername E ?P u fs)"
  define h where "h = snd (removeLineByUsername E ?S u g)"
  have ok: "serves E ?P" "serves E ?S" using assms(1,2) by (simp_all add: reliable_def)
  have "g ?S = fs ?S" using removeLine_frame [of ?S ?P E u fs] by (simp add: g_def temp_paths)
  then have gS: "lines_at g ?S = lines_at fs ?S" "closed_at g ?S" using assms(4) lines_at_cong [of g ?S fs] by simp_all
  have "h ?P = g ?P" using removeLine_frame [of ?P ?S E u g] by (simp add: h_def temp_paths)
  then have P: "lines_at h ?P = lines_left u (lines_at fs ?P)"
    using removeLine_result(1) [OF assms(1) _ assms(3), where u = u] lines_at_cong(1) [of h ?P g] by (simp add: g_def temp_paths)
  have S: "lines_at h ?S = lines_left u (lines_at fs ?S)"
    using removeLine_result(1) [OF assms(2) _ gS(2), where u = u] gS(1) by (simp add: h_def temp_paths)
  have "fst (removeLineByUsername E ?P u fs) \<longleftrightarrow> (\<exists>l \<in> set (lines_at fs ?P). line_of u l)"
    using removeLine_eq [OF assms(1), of fs _ u]
    by (cases "fs ?P") (simp_all add: temp_paths removeLineByUsername_def lines_at_def)
  then have "removeUser E (Some u) fs = (\<exists>l \<in> set (lines_at fs ?P). line_of u l, h)"
    using assms(5) by (simp add: removeUser_def g_def h_def case_prod_beta)
  moreover have "findUserByName E (Some u) h = None"
    by (simp add: findUserByName_eq [OF ok(1)] P passwd.lookup_left_same)
  moreover have "\<not> verifyPassword E (Some u) q h"
    by (simp add: verifyPassword_def readShadowRecord_eq [OF ok(2)] S shadow.lookup_left_same split: option.split)
  moreover have "findUserByName E (Some v) h = findUserByName E (Some v) fs" if "v \<noteq> u" for v
    by (simp add: findUserByName_eq [OF ok(1)] P passwd.lookup_left_other [OF that assms(6)])
  moreover have "verifyPassword E (Some v) q h = verifyPassword E (Some v) q fs" if "v \<noteq> u" for v
    by (rule verify_cong [OF ok(2)]) (simp add: S shadow.lookup_left_other [OF that assms(6)])
  ultimately show ?thesis by (intro exI [of _ h] conjI allI impI)
qed

definition two_users :: files where
  "two_users = [USER_STORE_PASSWD_PATH \<mapsto> \<lparr>f_data = as_lines [''root:x:0:0:/:cmd'', ''bob:x:1:1:/:cmd''], f_perms = 0x1A4\<rparr>,
     USER_STORE_SHADOW_PATH \<mapsto> \<lparr>f_data = as_lines [''root:old'', ''bob:old''], f_perms = 0x180\<rparr>]"

lemma two_users:
  "closed_at two_users p"
  "lines_at two_users USER_STORE_PASSWD_PATH = [''root:x:0:0:/:cmd'', ''bob:x:1:1:/:cmd'']"
  "lines_at two_users USER_STORE_SHADOW_PATH = [''root:old'', ''bob:old'']"
  using file_lines_as_lines [of "[''root:x:0:0:/:cmd'', ''bob:x:1:1:/:cmd'']" "[]"] file_lines_as_lines [of "[''root:old'', ''bob:old'']" "[]"]
  by (simp_all add: two_users_def closed_at_def closed_as_lines lines_at_def file_lines.simps [of "[]"])

theorem removeUser_then_find_witness:
  "fst (removeUser good_flash (Some ''bob'') two_users) \<and>
   findUserByName good_flash (Some ''bob'') (snd (removeUser good_flash (Some ''bob'') two_users)) = None"
  using removeUser_then_find [OF good_flash_reliable good_flash_reliable two_users(1) two_users(1), of "''bob''" None]
  by (auto simp: two_users line_of_def)

text \<open>
  C33. The permissions of the shadow file after a password change. A new file is private to its owner and an existing
  one keeps its bits as long as the user had no line. When the user had a line and another remains, the file is
  replaced by a temporary file with the default permissions for new files, whatever it had before.
\<close>

theorem setPassword_permissions:
  assumes "reliable E USER_STORE_SHADOW_PATH" "closed_at fs USER_STORE_SHADOW_PATH" "u \<noteq> []" "field_ok u"
  shows "map_option f_perms (snd (setPassword E salt (Some u) (Some p) fs) USER_STORE_SHADOW_PATH) =
    Some (if \<exists>l \<in> set (lines_at fs USER_STORE_SHADOW_PATH). line_of u l
          then if \<exists>l \<in> set (lines_at fs USER_STORE_SHADOW_PATH). keeps u l then stampCreate_perms E else 0x180
          else case fs USER_STORE_SHADOW_PATH of None \<Rightarrow> 0x180 | Some f \<Rightarrow> f_perms f)"
proof -
  note set = setPassword_result [OF assms(1,3,4,2), of salt p]
  show ?thesis unfolding set(3) perms_left_cases ..
qed

theorem setPassword_permissions_witness:
  "map_option f_perms (two_users USER_STORE_SHADOW_PATH) = Some 0x180 \<and>
   map_option f_perms (snd (setPassword good_flash [1, 2, 3, 4, 5, 6, 7, 8] (Some ''bob'') (Some ''pdi'') two_users) USER_STORE_SHADOW_PATH) = Some 0x1A4"
proof -
  have f: "field_ok ''bob''" and l: "line_of ''bob'' ''bob:old''" and k: "keeps ''bob'' ''root:old''"
    and m: "stampCreate_perms good_flash = 0x1A4"
    by (simp_all add: field_ok_def line_of_def keeps_def stampCreate_perms_def good_flash_def)
  have "\<exists>l \<in> set (lines_at two_users USER_STORE_SHADOW_PATH). line_of ''bob'' l"
    "\<exists>l \<in> set (lines_at two_users USER_STORE_SHADOW_PATH). keeps ''bob'' l"
    unfolding two_users(3) using l k by simp_all
  moreover have "map_option f_perms (two_users USER_STORE_SHADOW_PATH) = Some 0x180" by (simp add: two_users_def)
  ultimately show ?thesis
    using setPassword_permissions [OF good_flash_reliable two_users(1) _ f, of "[1, 2, 3, 4, 5, 6, 7, 8]" "''pdi''"] m
    by (simp only: if_True simp_thms list.distinct)
qed

end
