(* ===== verification/Session.thy ===== *)
theory Session
  imports UserStore
begin

text \<open>
  The session table of \<^verbatim>\<open>service_provider/session/SessionManager.cpp\<close>, the login state of
  \<^verbatim>\<open>service_provider/auth/AuthServiceProvider.cpp\<close> and the places where a terminal, a remote shell and the
  login command use them. Terminals are numbers (the pointer identity the code compares), a session pointer is the
  index of its slot. The clock, the user files and the volume are arguments of the operations that look at them.
\<close>

section \<open>Model\<close>

subsection \<open>Sessions\<close>

text \<open>Signed 16-bit fields, as words.\<close>

type_synonym i16 = "16 word"

datatype session_state_t = SESSION_STATE_FREE | SESSION_STATE_PRELOGIN | SESSION_STATE_LOGIN_WAIT
  | SESSION_STATE_INTERACTIVE | SESSION_STATE_DEAD

record session_t =
  s_sid :: u8
  s_state :: session_state_t
  s_terminal :: "nat option"
  s_loginAt :: u32
  s_lastActivityAt :: u32
  s_linebuf :: string
  s_cursor :: u16
  s_historyIdx :: i16
  s_prevHistorySize :: i16
  s_origTypedPrefix :: string
  s_prevArgSize :: i16
  s_cwd :: string
  s_lastCwd :: string
  s_umask :: u16
  s_isAuthorized :: bool
  s_username :: string
  s_uid :: u16
  s_gid :: u16
  s_autoCompleteIdx :: i16
  s_prevCmdSize :: i16

abbreviation (input) "FILE_UMASK_DEFAULT \<equiv> (0x12 :: u16)"
abbreviation (input) "PDI_MAX_SESSIONS \<equiv> (3 :: nat)"

definition session_clear :: session_t where
  "session_clear = \<lparr>s_sid = 0, s_state = SESSION_STATE_FREE, s_terminal = None, s_loginAt = 0, s_lastActivityAt = 0,
     s_linebuf = [], s_cursor = 0, s_historyIdx = -1, s_prevHistorySize = 0, s_origTypedPrefix = [], s_prevArgSize = 0,
     s_cwd = [], s_lastCwd = [], s_umask = FILE_UMASK_DEFAULT, s_isAuthorized = False, s_username = [], s_uid = 0,
     s_gid = 0, s_autoCompleteIdx = -1, s_prevCmdSize = 0\<rparr>"

record session_mgr =
  m_sessions :: "session_t list"
  m_current :: "nat option"

definition sessions_start :: session_mgr where
  "sessions_start = \<lparr>m_sessions = replicate PDI_MAX_SESSIONS session_clear, m_current = None\<rparr>"

definition first_slot :: "(session_t \<Rightarrow> bool) \<Rightarrow> session_mgr \<Rightarrow> nat option" where
  "first_slot P m = find (\<lambda>i. P (m_sessions m ! i)) [0..<PDI_MAX_SESSIONS]"

definition findByTerminal :: "nat option \<Rightarrow> session_mgr \<Rightarrow> nat option" where
  "findByTerminal terminal m =
     (if terminal = None then None
      else first_slot (\<lambda>s. s_state s \<noteq> SESSION_STATE_FREE \<and> s_terminal s = terminal) m)"

definition set_slot :: "nat \<Rightarrow> session_t \<Rightarrow> session_mgr \<Rightarrow> session_mgr" where
  "set_slot i s m = m\<lparr>m_sessions := (m_sessions m)[i := s]\<rparr>"

definition attach :: "nat option \<Rightarrow> session_mgr \<Rightarrow> nat option \<times> session_mgr" where
  "attach terminal m =
     (if terminal = None then (None, m)
      else
        (case findByTerminal terminal m of
           Some i \<Rightarrow> (Some i, m\<lparr>m_current := Some i\<rparr>)
         | None \<Rightarrow>
             (case first_slot (\<lambda>s. s_state s = SESSION_STATE_FREE) m of
                Some i \<Rightarrow>
                  (Some i, (set_slot i (session_clear\<lparr>s_sid := of_nat (i + 1), s_state := SESSION_STATE_PRELOGIN,
                                          s_terminal := terminal\<rparr>) m)\<lparr>m_current := Some i\<rparr>)
              | None \<Rightarrow> (None, m))))"

definition detach :: "nat option \<Rightarrow> session_mgr \<Rightarrow> session_mgr" where
  "detach terminal m =
     (if terminal = None then m
      else
        (case findByTerminal terminal m of
           None \<Rightarrow> m
         | Some i \<Rightarrow> (let m = set_slot i session_clear m in if m_current m = Some i then m\<lparr>m_current := None\<rparr> else m)))"

definition detachCurrent :: "session_mgr \<Rightarrow> session_mgr" where
  "detachCurrent m = (case m_current m of None \<Rightarrow> m | Some i \<Rightarrow> (set_slot i session_clear m)\<lparr>m_current := None\<rparr>)"

definition current :: "session_mgr \<Rightarrow> nat option" where
  "current m = (case m_current m of None \<Rightarrow> None
                | Some i \<Rightarrow> if s_state (m_sessions m ! i) \<noteq> SESSION_STATE_FREE then Some i else None)"

definition getByIndex :: "u8 \<Rightarrow> session_mgr \<Rightarrow> nat option" where
  "getByIndex idx m = (if unat idx \<ge> PDI_MAX_SESSIONS then None else Some (unat idx))"

definition setCurrent :: "nat option \<Rightarrow> session_mgr \<Rightarrow> session_mgr" where
  "setCurrent s m = m\<lparr>m_current := s\<rparr>"

definition activeCount :: "session_mgr \<Rightarrow> u8" where
  "activeCount m = fold (\<lambda>i n. if s_state (m_sessions m ! i) \<noteq> SESSION_STATE_FREE then n + 1 else n) [0..<PDI_MAX_SESSIONS] 0"

subsection \<open>Working directory and mask of the session\<close>

definition session_getPWD :: "fsi \<Rightarrow> session_mgr \<Rightarrow> string" where
  "session_getPWD F m =
     (case current m of
        Some i \<Rightarrow> if s_cwd (m_sessions m ! i) \<noteq> [] then s_cwd (m_sessions m ! i) else fsi_getPWD F
      | None \<Rightarrow> fsi_getPWD F)"

definition session_getLastPWD :: "fsi \<Rightarrow> session_mgr \<Rightarrow> string" where
  "session_getLastPWD F m =
     (case current m of
        Some i \<Rightarrow> if s_lastCwd (m_sessions m ! i) \<noteq> [] then s_lastCwd (m_sessions m ! i) else fsi_getLastPWD F
      | None \<Rightarrow> fsi_getLastPWD F)"

definition session_setPWD :: "(string \<Rightarrow> bool) \<Rightarrow> string \<Rightarrow> fsi \<times> session_mgr \<Rightarrow> (bool \<times> fsi \<times> session_mgr) option" where
  "session_setPWD isDir path = (\<lambda>(F, m).
     case current m of
       None \<Rightarrow> map_option (\<lambda>(r, F). (r, F, m)) (fsi_setPWD isDir path F)
     | Some i \<Rightarrow>
         if \<not> isDir path then Some (False, F, m)
         else map_option (\<lambda>p. (True, F, set_slot i ((m_sessions m ! i)\<lparr>s_lastCwd := s_cwd (m_sessions m ! i), s_cwd := p\<rparr>) m))
                (with_separator path))"

definition session_changeDirectory :: "(string \<Rightarrow> bool) \<Rightarrow> string option \<Rightarrow> fsi \<times> session_mgr \<Rightarrow> (bool \<times> fsi \<times> session_mgr) option" where
  "session_changeDirectory isDir path = (\<lambda>(F, m).
     case current m of
       None \<Rightarrow> map_option (\<lambda>(r, F). (r, F, m)) (fsi_changeDirectory isDir path F)
     | Some i \<Rightarrow>
         (let s = m_sessions m ! i; cwd = (if s_cwd s = [] then fsi_getPWD F else s_cwd s)
          in map_option (\<lambda>(r, p). (r, F, set_slot i (s\<lparr>s_lastCwd := cwd, s_cwd := p\<rparr>) m)) (updatePathNotations isDir path cwd)))"

definition getCurrentUmask :: "session_mgr \<Rightarrow> u16" where
  "getCurrentUmask m = (case current m of Some i \<Rightarrow> s_umask (m_sessions m ! i) | None \<Rightarrow> FILE_UMASK_DEFAULT)"

definition setCurrentUmask :: "u16 \<Rightarrow> session_mgr \<Rightarrow> session_mgr" where
  "setCurrentUmask umask m =
     (case current m of Some i \<Rightarrow> set_slot i ((m_sessions m ! i)\<lparr>s_umask := umask AND 0x1FF\<rparr>) m | None \<Rightarrow> m)"

definition getCurrentUid :: "session_mgr \<Rightarrow> u16" where
  "getCurrentUid m = (case current m of Some i \<Rightarrow> s_uid (m_sessions m ! i) | None \<Rightarrow> 0)"

definition getCurrentGid :: "session_mgr \<Rightarrow> u16" where
  "getCurrentGid m = (case current m of Some i \<Rightarrow> s_gid (m_sessions m ! i) | None \<Rightarrow> 0)"

subsection \<open>Authentication\<close>

record auth_service =
  m_initStatus :: bool
  cred_username :: string
  cred_password :: string
  m_lastVerifiedUsername :: string

definition isAuthorized :: "volume_env \<Rightarrow> files \<Rightarrow> string option \<Rightarrow> string option \<Rightarrow> auth_service \<Rightarrow> bool \<times> auth_service" where
  "isAuthorized E fs username password a =
     (case (username, password) of
        (Some u, Some p) \<Rightarrow>
          (let ok = (if fs USER_STORE_SHADOW_PATH \<noteq> None then verifyPassword E username password fs
                     else m_initStatus a \<and> are_str_equals username (Some (cred_username a)) 25 \<and>
                          are_str_equals password (Some (cred_password a)) 25)
           in (ok, if ok then a\<lparr>m_lastVerifiedUsername := u\<rparr> else a))
      | _ \<Rightarrow> (False, a))"

definition setAuthorized :: "volume_env \<Rightarrow> files \<Rightarrow> u32 \<Rightarrow> bool \<Rightarrow> session_mgr \<times> auth_service \<Rightarrow> session_mgr \<times> auth_service" where
  "setAuthorized E fs now auth = (\<lambda>(m, a).
     case current m of
       None \<Rightarrow> (m, a)
     | Some i \<Rightarrow>
         (let s = (m_sessions m ! i)\<lparr>s_isAuthorized := auth\<rparr> in
          if auth
          then
            (let username = (if m_lastVerifiedUsername a \<noteq> [] then m_lastVerifiedUsername a else cred_username a);
                 s = s\<lparr>s_username := username, s_loginAt := now, s_lastActivityAt := now, s_uid := 0, s_gid := 0\<rparr>;
                 s = (case findUserByName E (Some username) fs of
                        Some r \<Rightarrow> s\<lparr>s_uid := u_uid r, s_gid := u_gid r\<rparr> | None \<Rightarrow> s)
             in (set_slot i (s\<lparr>s_umask := FILE_UMASK_DEFAULT\<rparr>) m, a))
          else
            (set_slot i (s\<lparr>s_username := [], s_loginAt := 0, s_lastActivityAt := 0, s_uid := 0, s_gid := 0,
                           s_umask := FILE_UMASK_DEFAULT\<rparr>) m,
             a\<lparr>m_lastVerifiedUsername := []\<rparr>)))"

definition getAuthorized :: "session_mgr \<Rightarrow> bool" where
  "getAuthorized m = (case current m of Some i \<Rightarrow> s_isAuthorized (m_sessions m ! i) | None \<Rightarrow> False)"

definition getUsername :: "session_mgr \<times> auth_service \<Rightarrow> string" where
  "getUsername = (\<lambda>(m, a).
     case current m of
       Some i \<Rightarrow> if s_username (m_sessions m ! i) \<noteq> [] then s_username (m_sessions m ! i) else cred_username a
     | None \<Rightarrow> cred_username a)"

subsection \<open>Uses\<close>

text \<open>What the arrival of terminal input does to the sessions: only an attached terminal is served.\<close>

definition select_session :: "nat option \<Rightarrow> u32 \<Rightarrow> session_mgr \<Rightarrow> bool \<times> session_mgr" where
  "select_session terminal now m =
     (case findByTerminal terminal m of
        None \<Rightarrow> (False, m)
      | Some i \<Rightarrow> (let m = setCurrent (Some i) m in (True, set_slot i ((m_sessions m ! i)\<lparr>s_lastActivityAt := now\<rparr>) m)))"

definition use_terminal :: "nat option \<Rightarrow> session_mgr \<Rightarrow> session_mgr" where
  "use_terminal terminal m = (if terminal \<noteq> None then snd (attach terminal m) else detachCurrent m)"

definition login_attempt :: "volume_env \<Rightarrow> files \<Rightarrow> u32 \<Rightarrow> string \<Rightarrow> string \<Rightarrow> session_mgr \<times> auth_service \<Rightarrow> bool \<times> session_mgr \<times> auth_service" where
  "login_attempt E fs now u p = (\<lambda>(m, a).
     if u \<noteq> [] \<and> p \<noteq> []
     then (let (ok, a) = isAuthorized E fs (Some u) (Some p) a in
           if ok then (True, setAuthorized E fs now True (m, a)) else (False, m, a))
     else (False, m, a))"

text \<open>
  The password request of the remote shell, decoded by the caller: the answer is sent before the terminal of the
  connection is attached, and \<open>sent\<close> tells whether that worked.
\<close>

definition ssh_userauth :: "volume_env \<Rightarrow> files \<Rightarrow> u32 \<Rightarrow> bool \<Rightarrow> nat \<Rightarrow> string \<Rightarrow> string \<Rightarrow> session_mgr \<times> auth_service \<Rightarrow> bool \<times> session_mgr \<times> auth_service" where
  "ssh_userauth E fs now sent client u p = (\<lambda>(m, a).
     let (ok, a) = (if length u > 1 \<and> length p > 1 then isAuthorized E fs (Some u) (Some p) a else (False, a)) in
     if ok \<and> sent then (True, setAuthorized E fs now True (snd (attach (Some client) m), a)) else (False, m, a))"

text \<open>Every call on the sessions, from outside.\<close>

datatype session_op =
    Attach "nat option"
  | Detach "nat option"
  | DetachCurrent
  | Select "nat option" u32
  | UseTerminal "nat option"
  | SetUmask u16
  | SetPWD "string \<Rightarrow> bool" string
  | ChangeDirectory "string \<Rightarrow> bool" "string option"
  | Login volume_env files u32 string string
  | Logout volume_env files u32
  | SshLogin volume_env files u32 bool nat string string

type_synonym session_sys = "fsi \<times> session_mgr \<times> auth_service"

fun session_step :: "session_op \<Rightarrow> session_sys \<Rightarrow> session_sys option" where
  "session_step (Attach t) (F, m, a) = Some (F, snd (attach t m), a)"
| "session_step (Detach t) (F, m, a) = Some (F, detach t m, a)"
| "session_step DetachCurrent (F, m, a) = Some (F, detachCurrent m, a)"
| "session_step (Select t now) (F, m, a) = Some (F, snd (select_session t now m), a)"
| "session_step (UseTerminal t) (F, m, a) = Some (F, use_terminal t m, a)"
| "session_step (SetUmask u) (F, m, a) = Some (F, setCurrentUmask u m, a)"
| "session_step (SetPWD isDir path) (F, m, a) = map_option (\<lambda>(r, F, m). (F, m, a)) (session_setPWD isDir path (F, m))"
| "session_step (ChangeDirectory isDir path) (F, m, a) = map_option (\<lambda>(r, F, m). (F, m, a)) (session_changeDirectory isDir path (F, m))"
| "session_step (Login E fs now u p) (F, m, a) = Some (F, snd (login_attempt E fs now u p (m, a)))"
| "session_step (Logout E fs now) (F, m, a) = Some (F, setAuthorized E fs now False (m, a))"
| "session_step (SshLogin E fs now sent client u p) (F, m, a) = Some (F, snd (ssh_userauth E fs now sent client u p (m, a)))"

fun session_run :: "session_op list \<Rightarrow> session_sys \<Rightarrow> session_sys option" where
  "session_run [] st = Some st"
| "session_run (op # ops) st = (case session_step op st of None \<Rightarrow> None | Some st \<Rightarrow> session_run ops st)"

section \<open>Well-formed session tables\<close>

text \<open>
  A free slot holds the cleared session. An active one is numbered by its slot, has a terminal and a mask of
  permission bits, and carries no identity unless it is logged in.
\<close>

abbreviation active :: "session_mgr \<Rightarrow> nat \<Rightarrow> bool" where
  "active m i \<equiv> s_state (m_sessions m ! i) \<noteq> SESSION_STATE_FREE"

definition session_ok :: "nat \<Rightarrow> session_t \<Rightarrow> bool" where
  "session_ok i s \<longleftrightarrow>
     (if s_state s = SESSION_STATE_FREE then s = session_clear
      else s_sid s = of_nat (i + 1) \<and> s_terminal s \<noteq> None \<and> s_umask s AND 0x1FF = s_umask s \<and>
        (s_isAuthorized s \<or> s_username s = [] \<and> s_uid s = 0 \<and> s_gid s = 0))"

definition sessions_wf :: "session_mgr \<Rightarrow> bool" where
  "sessions_wf m \<longleftrightarrow>
     length (m_sessions m) = PDI_MAX_SESSIONS \<and> (\<forall>i < PDI_MAX_SESSIONS. session_ok i (m_sessions m ! i)) \<and>
     (\<forall>i < PDI_MAX_SESSIONS. \<forall>j < PDI_MAX_SESSIONS. active m i \<and> active m j \<and>
        s_terminal (m_sessions m ! i) = s_terminal (m_sessions m ! j) \<longrightarrow> i = j) \<and>
     (\<forall>i. m_current m = Some i \<longrightarrow> i < PDI_MAX_SESSIONS \<and> active m i)"

lemma sessions_start_wf: "sessions_wf sessions_start"
  by (simp add: sessions_wf_def sessions_start_def session_ok_def session_clear_def)

lemma first_slot_Some: "first_slot P m = Some i \<longleftrightarrow> i < PDI_MAX_SESSIONS \<and> P (m_sessions m ! i) \<and> (\<forall>j < i. \<not> P (m_sessions m ! j))"
  unfolding first_slot_def find_Some_iff by (auto simp: nth_upt)

lemma first_slot_None: "first_slot P m = None \<longleftrightarrow> (\<forall>i < PDI_MAX_SESSIONS. \<not> P (m_sessions m ! i))"
  unfolding first_slot_def find_None_iff by auto

lemma findByTerminal_None:
  "findByTerminal (Some t) m = None \<longleftrightarrow> (\<forall>i < PDI_MAX_SESSIONS. active m i \<longrightarrow> s_terminal (m_sessions m ! i) \<noteq> Some t)"
  by (auto simp: findByTerminal_def first_slot_None)

lemma one_terminal:
  "sessions_wf m \<Longrightarrow> i < PDI_MAX_SESSIONS \<Longrightarrow> j < PDI_MAX_SESSIONS \<Longrightarrow> active m i \<Longrightarrow> active m j \<Longrightarrow>
     s_terminal (m_sessions m ! i) = s_terminal (m_sessions m ! j) \<Longrightarrow> i = j"
  by (simp add: sessions_wf_def)

lemma findByTerminal_Some:
  assumes "sessions_wf m"
  shows "findByTerminal t m = Some i \<longleftrightarrow> t \<noteq> None \<and> i < PDI_MAX_SESSIONS \<and> active m i \<and> s_terminal (m_sessions m ! i) = t"
proof
  assume i: "t \<noteq> None \<and> i < PDI_MAX_SESSIONS \<and> active m i \<and> s_terminal (m_sessions m ! i) = t"
  have "\<not> (active m j \<and> s_terminal (m_sessions m ! j) = t)" if "j < i" for j
    using one_terminal [OF assms, of j i] that i by auto
  with i show "findByTerminal t m = Some i"
    by (simp add: findByTerminal_def first_slot_Some)
qed (auto simp: findByTerminal_def first_slot_Some split: if_splits)

lemma current_wf: "sessions_wf m \<Longrightarrow> current m = m_current m"
  by (auto simp: sessions_wf_def current_def split: option.split)

lemma current_active: "sessions_wf m \<Longrightarrow> current m = Some i \<Longrightarrow> i < PDI_MAX_SESSIONS \<and> active m i"
  by (simp add: current_wf) (simp add: sessions_wf_def)

lemma set_slot_nth [simp]:
  "m_sessions (set_slot i s m) = (m_sessions m)[i := s]" "m_current (set_slot i s m) = m_current m"
  by (simp_all add: set_slot_def)

lemma keep_current: "(set_slot i s m)\<lparr>m_current := m_current m\<rparr> = set_slot i s m"
  by (simp add: set_slot_def)

text \<open>Replacing the session of a slot, and its instances: an edit, a new terminal, and clearing.\<close>

lemma wf_change:
  assumes m: "sessions_wf m" and i: "i < PDI_MAX_SESSIONS" and s: "session_ok i s"
    and t: "\<And>j. j < PDI_MAX_SESSIONS \<Longrightarrow> j \<noteq> i \<Longrightarrow> active m j \<Longrightarrow> s_state s \<noteq> SESSION_STATE_FREE \<Longrightarrow> s_terminal (m_sessions m ! j) \<noteq> s_terminal s"
    and c: "\<And>j. c = Some j \<Longrightarrow> j < PDI_MAX_SESSIONS \<and> (if j = i then s_state s \<noteq> SESSION_STATE_FREE else active m j)"
  shows "sessions_wf ((set_slot i s m)\<lparr>m_current := c\<rparr>)"
proof -
  let ?m = "(set_slot i s m)\<lparr>m_current := c\<rparr>"
  have len: "length (m_sessions m) = PDI_MAX_SESSIONS" using m by (simp add: sessions_wf_def)
  then have nth: "m_sessions ?m ! j = (if j = i then s else m_sessions m ! j)" for j
    using i by (simp add: nth_list_update)
  have 1: "\<forall>j < PDI_MAX_SESSIONS. session_ok j (m_sessions ?m ! j)"
    using m s unfolding nth by (simp add: sessions_wf_def)
  have 2: "j = k" if "j < PDI_MAX_SESSIONS" "k < PDI_MAX_SESSIONS" "active ?m j" "active ?m k"
      "s_terminal (m_sessions ?m ! j) = s_terminal (m_sessions ?m ! k)" for j k
  proof (rule ccontr)
    assume "j \<noteq> k"
    then consider "j = i" "k \<noteq> i" | "k = i" "j \<noteq> i" | "j \<noteq> i" "k \<noteq> i" by blast
    then show False
      using that(3-5) t [OF that(1)] t [OF that(2)] one_terminal [OF m that(1,2)] \<open>j \<noteq> k\<close>
      unfolding nth by cases simp_all
  qed
  have 3: "\<forall>j. m_current ?m = Some j \<longrightarrow> j < PDI_MAX_SESSIONS \<and> active ?m j"
    using c unfolding nth by simp
  have 4: "length (m_sessions ?m) = PDI_MAX_SESSIONS" using len by simp
  show ?thesis unfolding sessions_wf_def using 1 2 3 4 by blast
qed

lemma wf_current: "sessions_wf m \<Longrightarrow> m_current m = Some j \<Longrightarrow> j < PDI_MAX_SESSIONS \<and> active m j"
  by (simp add: sessions_wf_def)

lemma wf_edit:
  assumes "sessions_wf m" "i < PDI_MAX_SESSIONS" "active m i"
    and "session_ok i s" "s_state s \<noteq> SESSION_STATE_FREE" "s_terminal s = s_terminal (m_sessions m ! i)"
  shows "sessions_wf (set_slot i s m)"
proof -
  have "sessions_wf ((set_slot i s m)\<lparr>m_current := m_current m\<rparr>)"
    using one_terminal [OF assms(1) _ assms(2) _ assms(3)] assms(5,6) wf_current [OF assms(1)]
    by (intro wf_change assms) auto
  then show ?thesis by (simp only: keep_current)
qed

lemma wf_open:
  assumes "sessions_wf m" "i < PDI_MAX_SESSIONS" "findByTerminal (Some t) m = None"
    and "session_ok i s" "s_state s \<noteq> SESSION_STATE_FREE" "s_terminal s = Some t"
  shows "sessions_wf ((set_slot i s m)\<lparr>m_current := Some i\<rparr>)"
  using assms(2,3,5,6) by (intro wf_change assms) (simp_all add: findByTerminal_None)

lemma wf_clear:
  assumes "sessions_wf m" "i < PDI_MAX_SESSIONS" "\<And>j. c = Some j \<Longrightarrow> j \<noteq> i \<and> m_current m = Some j"
  shows "sessions_wf ((set_slot i session_clear m)\<lparr>m_current := c\<rparr>)"
proof -
  have "session_ok i session_clear" "s_state session_clear = SESSION_STATE_FREE" by (simp_all add: session_ok_def session_clear_def)
  then show ?thesis using assms(3) wf_current [OF assms(1)] by (intro wf_change assms) auto
qed

lemma wf_focus: "sessions_wf m \<Longrightarrow> i < PDI_MAX_SESSIONS \<Longrightarrow> active m i \<Longrightarrow> sessions_wf (m\<lparr>m_current := Some i\<rparr>)"
  unfolding sessions_wf_def by auto

lemma wf_slot: "sessions_wf m \<Longrightarrow> i < PDI_MAX_SESSIONS \<Longrightarrow> session_ok i (m_sessions m ! i)"
  by (simp add: sessions_wf_def)

definition opened :: "nat \<Rightarrow> nat \<Rightarrow> session_t" where
  "opened i t = session_clear\<lparr>s_sid := of_nat (i + 1), s_state := SESSION_STATE_PRELOGIN, s_terminal := Some t\<rparr>"

lemma opened_ok: "session_ok i (opened i t)" "s_state (opened i t) \<noteq> SESSION_STATE_FREE" "s_terminal (opened i t) = Some t"
  by (simp_all add: session_ok_def opened_def session_clear_def)

lemma attach_cases:
  "findByTerminal (Some t) m = Some i \<Longrightarrow> attach (Some t) m = (Some i, m\<lparr>m_current := Some i\<rparr>)"
  "findByTerminal (Some t) m = None \<Longrightarrow> first_slot (\<lambda>s. s_state s = SESSION_STATE_FREE) m = Some i \<Longrightarrow>
     attach (Some t) m = (Some i, (set_slot i (opened i t) m)\<lparr>m_current := Some i\<rparr>)"
  "findByTerminal (Some t) m = None \<Longrightarrow> first_slot (\<lambda>s. s_state s = SESSION_STATE_FREE) m = None \<Longrightarrow> attach (Some t) m = (None, m)"
  by (simp_all add: attach_def opened_def)

lemma wf_attach:
  assumes m: "sessions_wf m"
  shows "sessions_wf (snd (attach t m))"
proof (cases t)
  case (Some t')
  show ?thesis
  proof (cases "findByTerminal (Some t') m")
    case none: None
    show ?thesis
    proof (cases "first_slot (\<lambda>s. s_state s = SESSION_STATE_FREE) m")
      case slot: (Some i)
      then have "i < PDI_MAX_SESSIONS" by (simp add: first_slot_Some)
      from wf_open [OF m this none opened_ok] show ?thesis unfolding Some attach_cases(2) [OF none slot] by simp
    qed (simp add: Some none attach_cases m)
  next
    case found: (Some i)
    then have "i < PDI_MAX_SESSIONS" "active m i" using iffD1 [OF findByTerminal_Some [OF m] found] by blast+
    then show ?thesis unfolding Some attach_cases(1) [OF found] using wf_focus [OF m] by simp
  qed
qed (simp add: attach_def m)

lemma wf_detach:
  assumes m: "sessions_wf m"
  shows "sessions_wf (detach t m)"
proof (cases "findByTerminal t m")
  case (Some i)
  have t: "t \<noteq> None" and i: "i < PDI_MAX_SESSIONS" using iffD1 [OF findByTerminal_Some [OF m] Some] by blast+
  have "sessions_wf ((set_slot i session_clear m)\<lparr>m_current := m_current m\<rparr>)" if "m_current m \<noteq> Some i"
    using that by (intro wf_clear [OF m i]) auto
  moreover have "sessions_wf ((set_slot i session_clear m)\<lparr>m_current := None\<rparr>)"
    by (intro wf_clear [OF m i]) auto
  ultimately show ?thesis using Some m by (simp add: detach_def Let_def keep_current)
qed (simp add: detach_def m)

lemma wf_detachCurrent: "sessions_wf m \<Longrightarrow> sessions_wf (detachCurrent m)"
  using wf_current [of m] wf_clear [of m _ None] by (cases "m_current m") (simp_all add: detachCurrent_def)

lemma wf_select: "sessions_wf m \<Longrightarrow> sessions_wf (snd (select_session t now m))"
proof (cases "findByTerminal t m")
  case (Some i)
  assume m: "sessions_wf m"
  then have i: "i < PDI_MAX_SESSIONS" "active m i" using Some findByTerminal_Some [OF m] by simp_all
  then have "session_ok i ((m_sessions m ! i)\<lparr>s_lastActivityAt := now\<rparr>)"
    using wf_slot [OF m] by (simp add: session_ok_def)
  then show ?thesis
    using Some i wf_edit [OF wf_focus [OF m i], of i] by (simp add: select_session_def setCurrent_def Let_def)
qed (simp add: select_session_def)

text \<open>An edit of the current session that keeps its number, terminal and state.\<close>

lemma wf_edit_current:
  assumes "sessions_wf m" "current m = Some i" "session_ok i s"
    and "s_state s = s_state (m_sessions m ! i)" "s_terminal s = s_terminal (m_sessions m ! i)"
  shows "sessions_wf (set_slot i s m)"
  using wf_edit [of m i s] current_active [OF assms(1,2)] assms by simp

lemma session_ok_active:
  "s_state s \<noteq> SESSION_STATE_FREE \<Longrightarrow> session_ok i s \<longleftrightarrow>
     s_sid s = of_nat (i + 1) \<and> s_terminal s \<noteq> None \<and> s_umask s AND 0x1FF = s_umask s \<and>
     (s_isAuthorized s \<or> s_username s = [] \<and> s_uid s = 0 \<and> s_gid s = 0)"
  by (simp add: session_ok_def)

lemma current_ok:
  assumes "sessions_wf m" "current m = Some i"
  shows "s_sid (m_sessions m ! i) = of_nat (i + 1)" "s_terminal (m_sessions m ! i) \<noteq> None"
    "s_umask (m_sessions m ! i) AND 0x1FF = s_umask (m_sessions m ! i)" "active m i"
    "s_isAuthorized (m_sessions m ! i) \<or>
       s_username (m_sessions m ! i) = [] \<and> s_uid (m_sessions m ! i) = 0 \<and> s_gid (m_sessions m ! i) = 0"
  using current_active [OF assms] wf_slot [OF assms(1), of i] session_ok_active by blast+

lemma wf_setCurrentUmask: "sessions_wf m \<Longrightarrow> sessions_wf (setCurrentUmask u m)"
  by (auto simp: setCurrentUmask_def session_ok_active current_ok and.assoc split: option.split
      intro!: wf_edit_current dest: current_ok(5))

lemma wf_setPWD: "sessions_wf m \<Longrightarrow> session_setPWD isDir path (F, m) = Some (r, F', m') \<Longrightarrow> sessions_wf m'"
  by (auto simp: session_setPWD_def session_ok_active current_ok split: option.splits if_splits
      intro!: wf_edit_current dest: current_ok(5))

lemma wf_changeDirectory: "sessions_wf m \<Longrightarrow> session_changeDirectory isDir path (F, m) = Some (r, F', m') \<Longrightarrow> sessions_wf m'"
  by (auto simp: session_changeDirectory_def session_ok_active current_ok Let_def split: option.splits
      intro!: wf_edit_current dest: current_ok(5))

lemma umask_default: "FILE_UMASK_DEFAULT AND 0x1FF = FILE_UMASK_DEFAULT"
  by simp

lemma wf_setAuthorized: "sessions_wf m \<Longrightarrow> sessions_wf (fst (setAuthorized E fs now auth (m, a)))"
  by (auto simp: setAuthorized_def session_ok_active current_ok Let_def umask_default split: option.splits intro!: wf_edit_current)

lemma wf_login: "sessions_wf m \<Longrightarrow> sessions_wf (fst (snd (login_attempt E fs now u p (m, a))))"
  by (auto simp: login_attempt_def wf_setAuthorized split: prod.split)

lemma wf_ssh: "sessions_wf m \<Longrightarrow> sessions_wf (fst (snd (ssh_userauth E fs now sent client u p (m, a))))"
  by (auto simp: ssh_userauth_def wf_setAuthorized wf_attach Let_def split: prod.split)

lemma wf_step:
  assumes "sessions_wf m" "session_step op (F, m, a) = Some (F', m', a')"
  shows "sessions_wf m'"
  using assms wf_login [OF assms(1)] wf_ssh [OF assms(1)] wf_setAuthorized [OF assms(1)]
  by (cases op)
     (auto simp: use_terminal_def prod_eq_iff dest: wf_setPWD wf_changeDirectory
       intro: wf_attach wf_detach wf_detachCurrent wf_select wf_setCurrentUmask)

lemma wf_run: "sessions_wf m \<Longrightarrow> session_run ops (F, m, a) = Some (F', m', a') \<Longrightarrow> sessions_wf m'"
proof (induction ops arbitrary: F m a)
  case (Cons op ops)
  then obtain F1 m1 a1 where "session_step op (F, m, a) = Some (F1, m1, a1)" "session_run ops (F1, m1, a1) = Some (F', m', a')"
    by (auto split: option.splits)
  then show ?case using Cons wf_step by blast
qed simp

lemma activeCount_full:
  "activeCount m = of_nat PDI_MAX_SESSIONS \<longleftrightarrow> (\<forall>i < PDI_MAX_SESSIONS. active m i)"
proof -
  have three: "(\<forall>i < PDI_MAX_SESSIONS. active m i) \<longleftrightarrow> active m 0 \<and> active m 1 \<and> active m 2"
    by (auto simp: numeral_3_eq_3 numeral_2_eq_2 less_Suc_eq)
  have "[0..<PDI_MAX_SESSIONS] = [0, 1, 2]" by (simp add: upt_rec)
  then show ?thesis unfolding three activeCount_def by simp
qed

lemma setAuthorized_current:
  fixes a :: auth_service
  assumes "sessions_wf m" "current m = Some i"
  defines "u \<equiv> (if m_lastVerifiedUsername a \<noteq> [] then m_lastVerifiedUsername a else cred_username a)"
  shows "\<exists>s. setAuthorized E fs now True (m, a) = (set_slot i s m, a) \<and> s_isAuthorized s \<and> s_username s = u \<and>
    s_terminal s = s_terminal (m_sessions m ! i) \<and> s_state s = s_state (m_sessions m ! i) \<and>
    s_uid s = (case findUserByName E (Some u) fs of Some r \<Rightarrow> u_uid r | None \<Rightarrow> 0) \<and>
    s_gid s = (case findUserByName E (Some u) fs of Some r \<Rightarrow> u_gid r | None \<Rightarrow> 0)"
  using assms(2) by (auto simp: setAuthorized_def u_def Let_def split: option.split)

lemma slot_after:
  assumes "sessions_wf m" "i < PDI_MAX_SESSIONS"
  shows "m_sessions (set_slot i s m) ! j = (if j = i then s else m_sessions m ! j)"
    "s_state s \<noteq> SESSION_STATE_FREE \<Longrightarrow> m_current m = Some i \<Longrightarrow> current (set_slot i s m) = Some i"
  using assms by (auto simp: sessions_wf_def nth_list_update current_def)

section \<open>Properties\<close>

text \<open>
  C10. In every state reached from the empty table by attaching and detaching terminals, terminal input, directory and
  mask changes, logins and logouts, the table is well formed: a free slot holds no trace of an earlier session, an
  active one is numbered by its slot, has a terminal of its own, a mask of permission bits and no identity unless
  logged in. The current session is active, and a terminal is found exactly in the slot that holds it.
\<close>

theorem sessions_stay_wf:
  assumes "session_run ops (F, sessions_start, a) = Some (F', m, a')"
  shows "sessions_wf m \<and> current m = m_current m \<and>
    (\<forall>t i. findByTerminal t m = Some i \<longleftrightarrow>
       t \<noteq> None \<and> i < PDI_MAX_SESSIONS \<and> active m i \<and> s_terminal (m_sessions m ! i) = t)"
  using wf_run [OF sessions_start_wf assms] current_wf findByTerminal_Some by blast

theorem sessions_stay_wf_witness:
  "findByTerminal (Some 7) (snd (attach (Some 7) (snd (attach (Some 5) sessions_start)))) = Some 1"
proof -
  define m where "m = snd (attach (Some 7) (snd (attach (Some 5) sessions_start)))"
  have "session_run [Attach (Some 5), Attach (Some 7)] (F, sessions_start, a) = Some (F, m, a)" for F a
    by (simp add: m_def)
  note T = sessions_stay_wf [OF this]
  have "active m 1" "s_terminal (m_sessions m ! 1) = Some 7" unfolding m_def by code_simp+
  then show ?thesis using T unfolding m_def [symmetric] by simp
qed

text \<open>
  Attaching a terminal makes its session current. A terminal that has a session gets that one unchanged, a new
  one gets the first free slot with a session that is not logged in, and all other sessions stay as they are. When
  every slot is taken nothing changes: the session that was current stays current.
\<close>

theorem attach_session:
  assumes "sessions_wf m"
  shows "case attach (Some t) m of
      (Some i, m') \<Rightarrow> current m' = Some i \<and> findByTerminal (Some t) m' = Some i \<and>
        (\<forall>j. j \<noteq> i \<longrightarrow> m_sessions m' ! j = m_sessions m ! j) \<and>
        (if findByTerminal (Some t) m = Some i then m_sessions m' ! i = m_sessions m ! i
         else findByTerminal (Some t) m = None \<and> \<not> active m i \<and> (\<forall>j < i. active m j) \<and>
           \<not> getAuthorized m' \<and> getCurrentUid m' = 0 \<and> m_sessions m' ! i = opened i t)
    | (None, m') \<Rightarrow> m' = m \<and> findByTerminal (Some t) m = None \<and> activeCount m = of_nat PDI_MAX_SESSIONS"
proof (cases "findByTerminal (Some t) m")
  case found: (Some i)
  then have i: "i < PDI_MAX_SESSIONS" "active m i" using iffD1 [OF findByTerminal_Some [OF assms] found] by blast+
  then have w: "sessions_wf (m\<lparr>m_current := Some i\<rparr>)" by (rule wf_focus [OF assms])
  then show ?thesis
    using found current_wf [OF w] by (simp add: attach_cases(1) [OF found] findByTerminal_def first_slot_def)
next
  case none: None
  show ?thesis
  proof (cases "first_slot (\<lambda>s. s_state s = SESSION_STATE_FREE) m")
    case slot: (Some i)
    then have i: "i < PDI_MAX_SESSIONS" "\<not> active m i" "\<forall>j < i. active m j" by (auto simp: first_slot_Some)
    let ?m = "(set_slot i (opened i t) m)\<lparr>m_current := Some i\<rparr>"
    have w: "sessions_wf ?m" by (rule wf_open [OF assms i(1) none opened_ok])
    have n: "m_sessions ?m ! j = (if j = i then opened i t else m_sessions m ! j)" for j
      using slot_after(1) [OF assms i(1)] by simp
    have "current ?m = Some i" by (simp add: current_wf [OF w])
    moreover have "findByTerminal (Some t) ?m = Some i"
      unfolding findByTerminal_Some [OF w] n using i(1) opened_ok by simp
    ultimately show ?thesis
      unfolding attach_cases(2) [OF none slot] using none i n
      by (simp add: getAuthorized_def getCurrentUid_def opened_def session_clear_def)
  next
    case None
    then show ?thesis by (simp add: attach_cases(3) [OF none None] none activeCount_full [simplified] first_slot_None)
  qed
qed

theorem attach_session_witness:
  "fst (attach (Some 5) sessions_start) = Some 0 \<and> \<not> getAuthorized (snd (attach (Some 5) sessions_start))"
proof -
  have "attach (Some 5) sessions_start = (Some 0, (set_slot 0 (opened 0 5) sessions_start)\<lparr>m_current := Some 0\<rparr>)" by code_simp
  then show ?thesis using attach_session [OF sessions_start_wf, of 5] by (simp split: if_splits) code_simp
qed

text \<open>
  C35. The remote shell ignores that attaching may fail. When every slot is taken and a client without a session
  presents a valid password, it is told that the login succeeded, and the session that happens to be current, which
  belongs to another terminal, is logged in as that user. The client itself still has no session.
\<close>

theorem ssh_login_full_table:
  assumes "sessions_wf m" "activeCount m = of_nat PDI_MAX_SESSIONS" "findByTerminal (Some client) m = None" "current m = Some i"
    and "length u > 1" "length p > 1" "fst (isAuthorized E fs (Some u) (Some p) a)"
  shows "\<exists>m' a'. ssh_userauth E fs now True client u p (m, a) = (True, m', a') \<and>
    s_terminal (m_sessions m' ! i) \<noteq> Some client \<and> s_terminal (m_sessions m' ! i) = s_terminal (m_sessions m ! i) \<and>
    s_isAuthorized (m_sessions m' ! i) \<and> s_username (m_sessions m' ! i) = u \<and>
    (\<forall>j. j \<noteq> i \<longrightarrow> m_sessions m' ! j = m_sessions m ! j) \<and> findByTerminal (Some client) m' = None"
proof -
  obtain a' where a': "isAuthorized E fs (Some u) (Some p) a = (True, a')" using assms(7) by (cases "isAuthorized E fs (Some u) (Some p) a") auto
  then have last: "m_lastVerifiedUsername a' = u" by (auto simp: isAuthorized_def Let_def split: if_splits)
  have "first_slot (\<lambda>s. s_state s = SESSION_STATE_FREE) m = None"
    using assms(2) activeCount_full [of m] by (simp add: first_slot_None)
  then have att: "attach (Some client) m = (None, m)" by (rule attach_cases(3) [OF assms(3)])
  have i: "i < PDI_MAX_SESSIONS" "active m i" using current_active [OF assms(1,4)] by blast+
  have "u \<noteq> []" using assms(5) by auto
  then obtain s where s: "setAuthorized E fs now True (m, a') = (set_slot i s m, a')" "s_isAuthorized s" "s_username s = u"
    "s_terminal s = s_terminal (m_sessions m ! i)" "s_state s = s_state (m_sessions m ! i)"
    using setAuthorized_current [OF assms(1,4), of E fs now a'] last by auto
  have n: "m_sessions (set_slot i s m) ! j = (if j = i then s else m_sessions m ! j)" for j by (rule slot_after(1) [OF assms(1) i(1)])
  have other: "s_terminal (m_sessions m ! i) \<noteq> Some client" using assms(3) i by (simp add: findByTerminal_None)
  have "findByTerminal (Some client) (set_slot i s m) = None"
    using assms(3) s(4,5) unfolding findByTerminal_None n by simp
  moreover have "ssh_userauth E fs now True client u p (m, a) = (True, set_slot i s m, a')"
    using assms(5,6) by (simp add: ssh_userauth_def a' att s(1))
  ultimately show ?thesis using n s other by simp
qed

definition three_terminals :: session_mgr where
  "three_terminals = snd (attach (Some 3) (snd (attach (Some 2) (snd (attach (Some 1) sessions_start)))))"

definition admin :: auth_service where
  "admin = \<lparr>m_initStatus = True, cred_username = ''pdiStack'', cred_password = ''pdiStack@123'', m_lastVerifiedUsername = []\<rparr>"

theorem ssh_login_full_table_witness:
  "\<exists>m' a'. ssh_userauth good_flash Map.empty 0 True 9 ''pdiStack'' ''pdiStack@123'' (three_terminals, admin) = (True, m', a') \<and>
     s_terminal (m_sessions m' ! 2) = Some 3 \<and> s_isAuthorized (m_sessions m' ! 2) \<and> s_username (m_sessions m' ! 2) = ''pdiStack''"
proof -
  have w: "sessions_wf three_terminals" unfolding three_terminals_def by (intro wf_attach sessions_start_wf)
  have c: "activeCount three_terminals = of_nat 3" "findByTerminal (Some 9) three_terminals = None" "current three_terminals = Some 2"
    "s_terminal (m_sessions three_terminals ! 2) = Some 3"
    by code_simp+
  have v: "fst (isAuthorized good_flash Map.empty (Some ''pdiStack'') (Some ''pdiStack@123'') admin)"
    by (simp add: isAuthorized_def admin_def are_str_equals_def)
  show ?thesis using ssh_login_full_table [OF w c(1-3) _ _ v, of 0] c(4) by fastforce
qed

end
