(* ===== verification/RegexMatch.thy ===== *)
theory RegexMatch
  imports Prelude
begin

text \<open>
  The backtracking pattern matcher of \<^verbatim>\<open>utility/RegexMatch.cpp\<close>. A position in the pattern or the text is the
  rest from there on. The order of characters in a range depends on whether the platform's \<^verbatim>\<open>char\<close> is signed,
  which is the argument \<open>sg\<close>.
\<close>

section \<open>Model\<close>

definition char_order :: "bool \<Rightarrow> char \<Rightarrow> int" where
  "char_order sg c = (if sg \<and> of_char c \<ge> (128 :: int) then of_char c - 256 else of_char c)"

definition token_length :: "string \<Rightarrow> nat" where
  "token_length p =
     (case p of
        [] \<Rightarrow> 0
      | c # r \<Rightarrow>
          if c = CHR 0x5C \<and> r \<noteq> [] then 2
          else if c = CHR ''[''
          then (let i = (if r \<noteq> [] \<and> hd r = CHR ''^'' then 2 else 1);
                    i = i + length (takeWhile (\<lambda>x. x \<noteq> CHR '']'') (drop i p))
                in if i < length p then i + 1 else 1)
          else 1)"

fun class_found :: "bool \<Rightarrow> char \<Rightarrow> string \<Rightarrow> bool \<Rightarrow> bool" where
  "class_found sg ch [] found = found"
| "class_found sg ch (a # r) found =
     (if a = CHR '']'' then found
      else
        (case r of
           d # b # r' \<Rightarrow>
             if d = CHR ''-'' \<and> b \<noteq> CHR '']''
             then class_found sg ch r' (found \<or> char_order sg a \<le> char_order sg ch \<and> char_order sg ch \<le> char_order sg b)
             else class_found sg ch r (found \<or> ch = a)
         | _ \<Rightarrow> class_found sg ch r (found \<or> ch = a)))"

definition token_matches :: "bool \<Rightarrow> string \<Rightarrow> char \<Rightarrow> bool" where
  "token_matches sg p ch =
     (case p of
        [] \<Rightarrow> False
      | c # r \<Rightarrow>
          if c = CHR ''.'' then True
          else if c = CHR 0x5C \<and> r \<noteq> [] then ch = hd r
          else if c = CHR ''[''
          then (let negate = (r \<noteq> [] \<and> hd r = CHR ''^'') in class_found sg ch (if negate then tl r else r) False \<noteq> negate)
          else ch = c)"

text \<open>Trying the counts from the largest down, and the quantified token with the matcher of what follows it.\<close>

fun backtrack_down :: "(nat \<Rightarrow> bool) \<Rightarrow> nat \<Rightarrow> nat \<Rightarrow> bool" where
  "backtrack_down f mn 0 = (mn = 0 \<and> f 0)"
| "backtrack_down f mn (Suc n) = (mn \<le> Suc n \<and> (f (Suc n) \<or> backtrack_down f mn n))"

fun count_matches :: "nat \<Rightarrow> (char \<Rightarrow> bool) \<Rightarrow> string \<Rightarrow> nat" where
  "count_matches 0 P t = 0"
| "count_matches (Suc n) P [] = 0"
| "count_matches (Suc n) P (c # t) = (if P c then Suc (count_matches n P t) else 0)"

definition match_quant :: "(string \<Rightarrow> bool) \<Rightarrow> bool \<Rightarrow> string \<Rightarrow> char \<Rightarrow> string \<Rightarrow> bool" where
  "match_quant here sg tok quant t =
     (let minMatches = (if quant = CHR ''+'' then 1 else 0);
          maxMatches = (if quant = CHR ''?'' then 1 else 32767);
          count = count_matches maxMatches (token_matches sg tok) t
      in backtrack_down (\<lambda>k. here (drop k t)) minMatches count)"

lemma backtrack_down_iff: "backtrack_down f mn n \<longleftrightarrow> (\<exists>k. mn \<le> k \<and> k \<le> n \<and> f k)"
proof (induction n)
  case (Suc n)
  have "f (Suc n) \<Longrightarrow> mn \<le> Suc n \<Longrightarrow> \<exists>k. mn \<le> k \<and> k \<le> Suc n \<and> f k"
    by (rule exI [of _ "Suc n"]) simp
  moreover have "k \<le> Suc n \<longleftrightarrow> k \<le> n \<or> k = Suc n" for k by auto
  moreover have "mn \<le> k \<Longrightarrow> k \<le> n \<Longrightarrow> mn \<le> Suc n" for k by simp
  ultimately show ?case unfolding backtrack_down.simps Suc by blast
qed simp

lemma match_quant_cong [fundef_cong]:
  "(\<And>k. here (drop k t) = here' (drop k t)) \<Longrightarrow> sg = sg' \<Longrightarrow> tok = tok' \<Longrightarrow> q = q' \<Longrightarrow> t = t' \<Longrightarrow>
     match_quant here sg tok q t = match_quant here' sg' tok' q' t'"
  by (simp add: match_quant_def)

lemma token_length_bounds: "p \<noteq> [] \<Longrightarrow> 0 < token_length p \<and> token_length p \<le> length p"
  by (cases p) (auto simp: token_length_def Let_def Suc_le_eq)

function match_here :: "bool \<Rightarrow> string \<Rightarrow> string \<Rightarrow> bool" where
  "match_here sg p t =
     (if p = [] then True
      else if p = ''$'' then t = []
      else if token_length p < length p \<and> p ! token_length p \<in> set ''*+?''
      then match_quant (match_here sg (drop (token_length p + 1) p)) sg (take (token_length p) p) (p ! token_length p) t
      else (case t of [] \<Rightarrow> False
            | c # t \<Rightarrow> token_matches sg (take (token_length p) p) c \<and> match_here sg (drop (token_length p) p) t))"
  by pat_completeness auto
termination
  by (relation "measure (\<lambda>(sg, p, t). length p)") (use token_length_bounds in fastforce)+

declare match_here.simps [simp del]

fun match_from :: "bool \<Rightarrow> string \<Rightarrow> string \<Rightarrow> int \<Rightarrow> int" where
  "match_from sg p [] i = (if match_here sg p [] then i else -1)"
| "match_from sg p (c # t) i = (if match_here sg p (c # t) then i else match_from sg p t (i + 1))"

definition regex_match :: "bool \<Rightarrow> string option \<Rightarrow> string option \<Rightarrow> int" where
  "regex_match sg pattern txt =
     (case (pattern, txt) of
        (Some p, Some t) \<Rightarrow>
          if p \<noteq> [] \<and> hd p = CHR ''^'' then (if match_here sg (tl p) t then 0 else -1) else match_from sg p t 0
      | _ \<Rightarrow> -1)"

section \<open>Reference semantics\<close>

text \<open>
  A pattern is a list of tokens with the number of repetitions allowed, at most 32767 for the unbounded quantifiers,
  and an optional anchor at the end. A token stands for a set of characters.
\<close>

type_synonym item = "string \<times> nat \<times> nat"

fun class_ranges :: "string \<Rightarrow> (char \<times> char) list" where
  "class_ranges [] = []"
| "class_ranges (a # r) =
     (if a = CHR '']'' then []
      else
        (case r of
           d # b # r' \<Rightarrow> if d = CHR ''-'' \<and> b \<noteq> CHR '']'' then (a, b) # class_ranges r' else (a, a) # class_ranges r
         | _ \<Rightarrow> (a, a) # class_ranges r))"

definition token_set :: "bool \<Rightarrow> string \<Rightarrow> char set" where
  "token_set sg tok =
     (case tok of
        [] \<Rightarrow> {}
      | c # r \<Rightarrow>
          if c = CHR ''.'' then UNIV
          else if c = CHR 0x5C \<and> r \<noteq> [] then {hd r}
          else if c = CHR ''['' then
            (if r \<noteq> [] \<and> hd r = CHR ''^''
             then - (\<Union>(a, b) \<in> set (class_ranges (tl r)). {x. char_order sg a \<le> char_order sg x \<and> char_order sg x \<le> char_order sg b})
             else (\<Union>(a, b) \<in> set (class_ranges r). {x. char_order sg a \<le> char_order sg x \<and> char_order sg x \<le> char_order sg b}))
          else {c})"

definition quant_range :: "char \<Rightarrow> nat \<times> nat" where
  "quant_range q = (if q = CHR ''*'' then (0, 32767) else if q = CHR ''+'' then (1, 32767) else (0, 1))"

function parse_pattern :: "string \<Rightarrow> item list \<times> bool" where
  "parse_pattern p =
     (if p = [] then ([], False)
      else if p = ''$'' then ([], True)
      else if token_length p < length p \<and> p ! token_length p \<in> set ''*+?''
      then (let (its, anchored) = parse_pattern (drop (token_length p + 1) p)
            in ((take (token_length p) p, quant_range (p ! token_length p)) # its, anchored))
      else (let (its, anchored) = parse_pattern (drop (token_length p) p) in ((take (token_length p) p, 1, 1) # its, anchored)))"
  by pat_completeness auto
termination
  by (relation "measure length") (use token_length_bounds in fastforce)+

declare parse_pattern.simps [simp del]

fun item_words :: "bool \<Rightarrow> item list \<Rightarrow> string set" where
  "item_words sg [] = {[]}"
| "item_words sg ((tok, mn, mx) # its) =
     {v @ w | v w. mn \<le> length v \<and> length v \<le> mx \<and> set v \<subseteq> token_set sg tok \<and> w \<in> item_words sg its}"

definition matches_at :: "bool \<Rightarrow> string \<Rightarrow> string \<Rightarrow> bool" where
  "matches_at sg p t \<longleftrightarrow>
     (let (its, anchored) = parse_pattern p in \<exists>w r. t = w @ r \<and> w \<in> item_words sg its \<and> (anchored \<longrightarrow> r = []))"

section \<open>Correctness\<close>

lemma of_char_range: "0 \<le> (of_char c :: int)" "of_char c < (256 :: int)"
proof -
  have c: "(of_char c :: int) = int (of_char c)" by (simp add: of_char_def)
  then show "0 \<le> (of_char c :: int)" by simp
  have "(of_char c :: nat) < 256" by (rule nat_of_char_less_256)
  with c show "of_char c < (256 :: int)" by linarith
qed

lemma char_order_inj: "char_order sg a = char_order sg b \<longleftrightarrow> a = b"
proof
  assume "char_order sg a = char_order sg b"
  then have "(of_char a :: int) = of_char b"
    using of_char_range [of a] of_char_range [of b] by (auto simp: char_order_def split: if_splits)
  then show "a = b" by (rule of_char_eq_iff [THEN iffD1])
qed simp

declare class_found.simps(2) [simp del] class_ranges.simps(2) [simp del]

lemma class_step:
  "a \<noteq> CHR '']'' \<Longrightarrow> b \<noteq> CHR '']'' \<Longrightarrow> class_found sg ch (a # CHR ''-'' # b # s) found =
     class_found sg ch s (found \<or> char_order sg a \<le> char_order sg ch \<and> char_order sg ch \<le> char_order sg b)"
  "a \<noteq> CHR '']'' \<Longrightarrow> b \<noteq> CHR '']'' \<Longrightarrow> class_ranges (a # CHR ''-'' # b # s) = (a, b) # class_ranges s"
  "a \<noteq> CHR '']'' \<Longrightarrow> \<nexists>b s'. s = CHR ''-'' # b # s' \<and> b \<noteq> CHR '']'' \<Longrightarrow> class_found sg ch (a # s) found = class_found sg ch s (found \<or> ch = a)"
  "a \<noteq> CHR '']'' \<Longrightarrow> \<nexists>b s'. s = CHR ''-'' # b # s' \<and> b \<noteq> CHR '']'' \<Longrightarrow> class_ranges (a # s) = (a, a) # class_ranges s"
  "class_found sg ch (CHR '']'' # s) found = found" "class_ranges (CHR '']'' # s) = []"
  by (simp_all add: class_found.simps(2) [of sg ch a] class_ranges.simps(2) [of a] class_found.simps(2) [of sg ch "CHR '']''"]
      class_ranges.simps(2) [of "CHR '']''"] split: list.split) blast+

lemma class_found_ranges:
  "class_found sg ch r found \<longleftrightarrow>
     found \<or> (\<exists>(a, b) \<in> set (class_ranges r). char_order sg a \<le> char_order sg ch \<and> char_order sg ch \<le> char_order sg b)"
proof (induction "length r" arbitrary: r found rule: less_induct)
  case less
  show ?case
  proof (cases r)
    case (Cons a s)
    have one: "char_order sg a \<le> char_order sg ch \<and> char_order sg ch \<le> char_order sg a \<longleftrightarrow> ch = a"
      using char_order_inj [of sg a ch] by auto
    show ?thesis
    proof (cases "a = CHR '']''")
      case a: False
      show ?thesis
      proof (cases "\<exists>b s'. s = CHR ''-'' # b # s' \<and> b \<noteq> CHR '']''")
        case True
        then obtain b s' where "s = CHR ''-'' # b # s'" "b \<noteq> CHR '']''" by blast
        then show ?thesis using less [of s'] Cons class_step(1,2) [OF a] by simp
      next
        case False
        then show ?thesis using less [of s "found \<or> ch = a"] Cons class_step(3,4) [OF a False] one by simp
      qed
    qed (simp add: Cons class_step)
  qed simp
qed

lemma token_matches_set: "token_matches sg tok ch \<longleftrightarrow> ch \<in> token_set sg tok"
  by (auto simp: token_matches_def token_set_def class_found_ranges split: list.split)

lemma count_matches_iff: "k \<le> count_matches n P t \<longleftrightarrow> k \<le> n \<and> k \<le> length t \<and> (\<forall>c \<in> set (take k t). P c)"
proof (induction n P t arbitrary: k rule: count_matches.induct)
  case (3 n P c t)
  then show ?case by (cases k) auto
qed auto

lemma match_quant_iff:
  assumes "q \<in> set ''*+?''"
  shows "match_quant here sg tok q t \<longleftrightarrow>
    (\<exists>v r. t = v @ r \<and> fst (quant_range q) \<le> length v \<and> length v \<le> snd (quant_range q) \<and> set v \<subseteq> token_set sg tok \<and> here r)"
proof -
  define mn mx :: nat where "mn = (if q = CHR ''+'' then 1 else 0)" and "mx = (if q = CHR ''?'' then 1 else 32767)"
  have q: "quant_range q = (mn, mx)" using assms by (auto simp: quant_range_def mn_def mx_def)
  have "match_quant here sg tok q t \<longleftrightarrow> (\<exists>k. mn \<le> k \<and> k \<le> count_matches mx (token_matches sg tok) t \<and> here (drop k t))"
    by (simp only: match_quant_def Let_def backtrack_down_iff mn_def mx_def)
  also have "\<dots> \<longleftrightarrow> (\<exists>k. mn \<le> k \<and> k \<le> mx \<and> k \<le> length t \<and> set (take k t) \<subseteq> token_set sg tok \<and> here (drop k t))"
    by (auto simp: count_matches_iff token_matches_set)
  also have "\<dots> \<longleftrightarrow> (\<exists>v r. t = v @ r \<and> mn \<le> length v \<and> length v \<le> mx \<and> set v \<subseteq> token_set sg tok \<and> here r)"
    (is "?l \<longleftrightarrow> ?r")
  proof
    assume ?l
    then obtain k where "mn \<le> k" "k \<le> mx" "k \<le> length t" "set (take k t) \<subseteq> token_set sg tok" "here (drop k t)" by blast
    then show ?r by (intro exI [of _ "take k t"] exI [of _ "drop k t"]) simp
  next
    assume ?r
    then obtain v r where "t = v @ r" "mn \<le> length v" "length v \<le> mx" "set v \<subseteq> token_set sg tok" "here r" by blast
    then show ?l by (intro exI [of _ "length v"]) simp
  qed
  finally show ?thesis by (simp add: q)
qed

lemma item_words_Cons:
  "(\<exists>w r. t = w @ r \<and> w \<in> item_words sg ((tok, mn, mx) # its) \<and> Q r) \<longleftrightarrow>
     (\<exists>v r. t = v @ r \<and> mn \<le> length v \<and> length v \<le> mx \<and> set v \<subseteq> token_set sg tok \<and>
        (\<exists>w r'. r = w @ r' \<and> w \<in> item_words sg its \<and> Q r'))"
proof
  assume "\<exists>w r. t = w @ r \<and> w \<in> item_words sg ((tok, mn, mx) # its) \<and> Q r"
  then obtain v w r where "t = v @ w @ r" "mn \<le> length v" "length v \<le> mx" "set v \<subseteq> token_set sg tok" "w \<in> item_words sg its" "Q r"
    by auto
  then show "\<exists>v r. t = v @ r \<and> mn \<le> length v \<and> length v \<le> mx \<and> set v \<subseteq> token_set sg tok \<and>
      (\<exists>w r'. r = w @ r' \<and> w \<in> item_words sg its \<and> Q r')"
    by (intro exI [of _ v] exI [of _ "w @ r"]) auto
next
  assume "\<exists>v r. t = v @ r \<and> mn \<le> length v \<and> length v \<le> mx \<and> set v \<subseteq> token_set sg tok \<and>
      (\<exists>w r'. r = w @ r' \<and> w \<in> item_words sg its \<and> Q r')"
  then obtain v w r where "t = (v @ w) @ r" "mn \<le> length v" "length v \<le> mx" "set v \<subseteq> token_set sg tok" "w \<in> item_words sg its" "Q r"
    by auto
  then show "\<exists>w r. t = w @ r \<and> w \<in> item_words sg ((tok, mn, mx) # its) \<and> Q r"
    by (intro exI [of _ "v @ w"] exI [of _ r]) auto
qed

lemma single_char: "(\<exists>v r. t = v @ r \<and> 1 \<le> length v \<and> length v \<le> 1 \<and> set v \<subseteq> A \<and> P r) \<longleftrightarrow> (\<exists>c r. t = c # r \<and> c \<in> A \<and> P r)"
proof
  assume "\<exists>v r. t = v @ r \<and> 1 \<le> length v \<and> length v \<le> 1 \<and> set v \<subseteq> A \<and> P r"
  then obtain v r where v: "t = v @ r" "1 \<le> length v \<and> length v \<le> 1" "set v \<subseteq> A" "P r" by blast
  then obtain c where "v = [c]" by (cases v) simp_all
  with v show "\<exists>c r. t = c # r \<and> c \<in> A \<and> P r" by auto
next
  assume "\<exists>c r. t = c # r \<and> c \<in> A \<and> P r"
  then obtain c r where "t = [c] @ r" "c \<in> A" "P r" by auto
  then show "\<exists>v r. t = v @ r \<and> 1 \<le> length v \<and> length v \<le> 1 \<and> set v \<subseteq> A \<and> P r"
    by (intro exI [of _ "[c]"] exI [of _ r]) simp
qed

lemma match_here_spec: "match_here sg p t \<longleftrightarrow> matches_at sg p t"
proof (induction "length p" arbitrary: p t rule: less_induct)
  case less
  let ?n = "token_length p" and ?tok = "take (token_length p) p"
  consider "p = []" | "p = ''$''" | (quant) "p \<noteq> []" "p \<noteq> ''$''" "?n < length p" "p ! ?n \<in> set ''*+?''"
    | (plain) "p \<noteq> []" "p \<noteq> ''$''" "\<not> (?n < length p \<and> p ! ?n \<in> set ''*+?'')" by blast
  then show ?case
  proof cases
    case quant
    let ?r = "drop (?n + 1) p"
    obtain its anchored where its: "parse_pattern ?r = (its, anchored)" by fastforce
    obtain mn mx where q: "quant_range (p ! ?n) = (mn, mx)" by fastforce
    have parse: "parse_pattern p = ((?tok, mn, mx) # its, anchored)" using quant its q by (simp add: parse_pattern.simps [of p])
    have ih: "match_here sg ?r s \<longleftrightarrow> (\<exists>w r'. s = w @ r' \<and> w \<in> item_words sg its \<and> (anchored \<longrightarrow> r' = []))" for s
      using less [of ?r s] quant its by (simp add: matches_at_def)
    have "match_here sg p t \<longleftrightarrow> match_quant (match_here sg ?r) sg ?tok (p ! ?n) t"
      using quant by (simp add: match_here.simps [of sg p])
    also have "\<dots> \<longleftrightarrow> (\<exists>v r. t = v @ r \<and> mn \<le> length v \<and> length v \<le> mx \<and> set v \<subseteq> token_set sg ?tok \<and> match_here sg ?r r)"
      using match_quant_iff [OF quant(4), of "match_here sg ?r" sg ?tok t] q by simp
    finally show ?thesis unfolding matches_at_def parse prod.case Let_def item_words_Cons ih .
  next
    case plain
    let ?r = "drop ?n p"
    obtain its anchored where its: "parse_pattern ?r = (its, anchored)" by fastforce
    have parse: "parse_pattern p = ((?tok, 1, 1) # its, anchored)" using plain its by (auto simp: parse_pattern.simps [of p])
    have ih: "match_here sg ?r s \<longleftrightarrow> (\<exists>w r'. s = w @ r' \<and> w \<in> item_words sg its \<and> (anchored \<longrightarrow> r' = []))" for s
      using less [of ?r s] plain(1) token_length_bounds [OF plain(1)] its by (simp add: matches_at_def)
    have "match_here sg p t \<longleftrightarrow> (\<exists>c r. t = c # r \<and> c \<in> token_set sg ?tok \<and> match_here sg ?r r)"
      using plain by (auto simp: match_here.simps [of sg p] token_matches_set split: list.split)
    then show ?thesis unfolding matches_at_def parse prod.case Let_def item_words_Cons single_char ih .
  qed (simp_all add: match_here.simps [of sg "[]"] match_here.simps [of sg "''$''"] matches_at_def
      parse_pattern.simps [of "[]"] parse_pattern.simps [of "''$''"])
qed

lemma match_from_least:
  "match_from sg p t i = (case find (\<lambda>k. match_here sg p (drop k t)) [0..<Suc (length t)] of None \<Rightarrow> -1 | Some k \<Rightarrow> i + int k)"
proof (induction sg p t i rule: match_from.induct)
  case (2 sg p c t i)
  have upt: "[0..<Suc (length (c # t))] = 0 # map Suc [0..<Suc (length t)]" by (simp add: map_Suc_upt upt_conv_Cons del: upt_Suc)
  have find: "find (\<lambda>k. match_here sg p (drop k (c # t))) (map Suc ks) = map_option Suc (find (\<lambda>k. match_here sg p (drop k t)) ks)" for ks
    by (induction ks) auto
  show ?case
  proof (cases "match_here sg p (c # t)")
    case False
    show ?thesis unfolding upt match_from.simps(2) find.simps find using 2 [OF False] False
      by (auto simp del: upt_Suc split: option.split)
  next
    case True
    then show ?thesis unfolding upt by simp
  qed
qed simp

section \<open>Properties\<close>

text \<open>
  C9. The matcher decides its patterns: it returns the first position of the text from which the pattern matches a
  prefix of the rest (the whole rest if the pattern is anchored at the end), position 0 only for a pattern anchored
  at the start, and -1 if there is none. A pattern denotes the concatenation of its tokens, each repeated as its
  quantifier allows and at most 32767 times; greedy search with backtracking finds a way to match whenever one exists.
\<close>

theorem regex_match_spec:
  "regex_match sg (Some p) (Some t) =
     (if p \<noteq> [] \<and> hd p = CHR ''^'' then (if matches_at sg (tl p) t then 0 else -1)
      else (case find (\<lambda>k. matches_at sg p (drop k t)) [0..<Suc (length t)] of None \<Rightarrow> -1 | Some k \<Rightarrow> int k))"
  by (simp add: regex_match_def match_here_spec match_from_least del: upt_Suc cong: option.case_cong)

end
