(* ===== verification/Base64.thy ===== *)
theory Base64
  imports Prelude
begin

text \<open>
  The encoder of \<^verbatim>\<open>utility/Base64.cpp\<close>. Whether the platform's \<^verbatim>\<open>char\<close> is signed is the argument \<open>sg\<close>; the
  result is the bytes written to the output buffer.
\<close>

unbundle bit_operations_syntax

section \<open>Model\<close>

definition char_set :: string where
  "char_set = ''ABCDEFGHIJKLMNOPQRSTUVWXYZabcdefghijklmnopqrstuvwxyz0123456789+/''"

definition extend :: "bool \<Rightarrow> byte \<Rightarrow> u32" where
  "extend sg c = (if sg then scast c else ucast c)"

definition chunk_val :: "bool \<Rightarrow> byte list \<Rightarrow> u32" where
  "chunk_val sg cs = foldl (\<lambda>v c. push_bit 8 v OR extend sg c) 0 cs"

function emit :: "u32 \<Rightarrow> nat \<Rightarrow> string" where
  "emit v n =
     (if n = 0 then []
      else if n \<ge> 6 then char_set ! unat (signed_drop_bit (n - 6) v AND 63) # emit v (n - 6)
      else [char_set ! unat (push_bit (6 - n) v AND 63)])"
  by pat_completeness auto
termination
  by (relation "measure snd") auto

declare emit.simps [simp del]

function encode_loop :: "bool \<Rightarrow> byte list \<Rightarrow> nat \<Rightarrow> string \<times> nat" where
  "encode_loop sg s padding =
     (if s = [] then ([], padding)
      else
        (let chunk = take 3 s; (out, padding) = encode_loop sg (drop 3 s) (length chunk * 8 mod 3)
         in (emit (chunk_val sg chunk) (length chunk * 8) @ out, padding)))"
  by pat_completeness auto
termination
  by (relation "measure (\<lambda>(sg, s, padding). length s)") auto

declare encode_loop.simps [simp del]

definition base64Encode :: "bool \<Rightarrow> byte list \<Rightarrow> string option \<Rightarrow> bool \<times> string option" where
  "base64Encode sg input res =
     (case res of
        None \<Rightarrow> (False, None)
      | Some _ \<Rightarrow> (let (out, padding) = encode_loop sg input 0 in (True, Some (out @ replicate padding (CHR ''='') @ [NUL]))))"

text \<open>The key generator takes the numbers the C library's generator returns.\<close>

definition genUniqueKey :: "nat list \<Rightarrow> string" where
  "genUniqueKey rands = map (\<lambda>r. char_set ! (r mod (length char_set + 1 - 3))) rands"

section \<open>Reference\<close>

text \<open>
  The bits of the bytes, most significant first, filled up with zeros to groups of six; a character per group, and
  padding characters up to a multiple of four. Decoding turns characters back into bits and takes whole bytes.
\<close>

definition byte_bits :: "byte \<Rightarrow> bool list" where
  "byte_bits b = rev (map (bit b) [0..<8])"

definition group_value :: "bool list \<Rightarrow> nat" where
  "group_value bs = horner_sum of_bool 2 (rev bs)"

function groups :: "bool list \<Rightarrow> bool list list" where
  "groups bs = (if bs = [] then [] else (take 6 bs @ replicate (6 - length bs) False) # groups (drop 6 bs))"
  by pat_completeness auto
termination
  by (relation "measure length") auto

declare groups.simps [simp del]

definition b64_text :: "byte list \<Rightarrow> string" where
  "b64_text xs = map (\<lambda>g. char_set ! group_value g) (groups (concat (map byte_bits xs)))"

definition b64 :: "byte list \<Rightarrow> string" where
  "b64 xs = b64_text xs @ replicate ((4 - length (b64_text xs) mod 4) mod 4) (CHR ''='')"

definition char_bits :: "char \<Rightarrow> bool list" where
  "char_bits c = rev (map (bit (length (takeWhile (\<lambda>x. x \<noteq> c) char_set))) [0..<6])"

function bytes_from :: "bool list \<Rightarrow> byte list" where
  "bytes_from bs = (if length bs < 8 then [] else horner_sum of_bool 2 (rev (take 8 bs)) # bytes_from (drop 8 bs))"
  by pat_completeness auto
termination
  by (relation "measure length") auto

declare bytes_from.simps [simp del]

definition b64_decode :: "string \<Rightarrow> byte list" where
  "b64_decode s = bytes_from (concat (map char_bits (takeWhile (\<lambda>c. c \<noteq> CHR ''='') s)))"

text \<open>With a signed \<^verbatim>\<open>char\<close>, a byte from 128 on sets all bits of the bytes before it in its group of three.\<close>

fun smear_chunk :: "byte list \<Rightarrow> byte list" where
  "smear_chunk [] = []"
| "smear_chunk (c # cs) = (if \<exists>d \<in> set cs. bit d 7 then 0xff else c) # smear_chunk cs"

function smear :: "byte list \<Rightarrow> byte list" where
  "smear xs = (if xs = [] then [] else smear_chunk (take 3 xs) @ smear (drop 3 xs))"
  by pat_completeness auto
termination
  by (relation "measure length") auto

declare smear.simps [simp del]

section \<open>Groups of bits\<close>

lemma length_byte_bits [simp]: "length (byte_bits b) = 8"
  by (simp add: byte_bits_def)

lemma groups_block: "length b = 6 \<Longrightarrow> groups (b @ bs) = b # groups bs"
  by (subst groups.simps) auto

lemma groups_nil [simp]: "groups [] = []"
  by (simp add: groups.simps)

lemma groups_append: "6 dvd length bs \<Longrightarrow> groups (bs @ cs) = groups bs @ groups cs"
proof (induction bs rule: groups.induct)
  case (1 bs)
  show ?case
  proof (cases "bs = []")
    case False
    then have l: "6 \<le> length bs" using 1(2) dvd_imp_le by blast
    have b: "length (take 6 bs) = 6" using l by simp
    have "6 dvd length (drop 6 bs)" using 1(2) l by (simp add: dvd_minus_self)
    then have "groups (drop 6 bs @ cs) = groups (drop 6 bs) @ groups cs" by (rule 1(1) [OF False])
    moreover have "groups (bs @ cs) = take 6 bs # groups (drop 6 bs @ cs)"
      using groups_block [OF b, of "drop 6 bs @ cs"] append_take_drop_id [of 6 bs] by (metis append.assoc)
    ultimately show ?thesis using groups_block [OF b, of "drop 6 bs"] by simp
  qed simp
qed

lemma groups_length: "g \<in> set (groups bs) \<Longrightarrow> length g = 6"
proof (induction bs rule: groups.induct)
  case (1 bs)
  then show ?case using groups.simps [of bs] by (auto split: if_splits)
qed

lemma groups_concat: "\<exists>k < 6. concat (groups bs) = bs @ replicate k False"
proof (induction bs rule: groups.induct)
  case (1 bs)
  show ?case
  proof (cases "length bs < 6")
    case True
    then show ?thesis by (cases "bs = []") (auto simp: groups.simps [of bs] intro: exI [of _ "6 - length bs"])
  next
    case False
    then have "bs \<noteq> []" by auto
    then obtain k where "k < 6" "concat (groups (drop 6 bs)) = drop 6 bs @ replicate k False" using 1 by blast
    then show ?thesis using False \<open>bs \<noteq> []\<close> by (auto simp: groups.simps [of bs])
  qed
qed

lemma bit_group_value: "bit (group_value bs) i \<longleftrightarrow> i < length bs \<and> rev bs ! i"
  by (simp add: group_value_def bit_horner_sum_bit_iff)

lemma group_value_less: "length g = 6 \<Longrightarrow> group_value g < 64"
  using horner_sum_of_bool_2_less [of "rev g"] by (simp add: group_value_def)

section \<open>Decoding inverts the reference\<close>

lemma distinct_char_set: "distinct char_set" "length char_set = 64" "CHR ''='' \<notin> set char_set"
  by code_simp+

lemma position: "distinct xs \<Longrightarrow> i < length xs \<Longrightarrow> length (takeWhile (\<lambda>x. x \<noteq> xs ! i) xs) = i"
proof (induction xs arbitrary: i)
  case (Cons x xs)
  then show ?case by (cases i) auto
qed simp

lemma char_bits_group: "length g = 6 \<Longrightarrow> char_bits (char_set ! group_value g) = g"
proof -
  assume g: "length g = 6"
  have "length (takeWhile (\<lambda>x. x \<noteq> char_set ! group_value g) char_set) = group_value g"
    using position [OF distinct_char_set(1)] group_value_less [OF g] distinct_char_set(2) by simp
  then have "char_bits (char_set ! group_value g) = rev (map (\<lambda>i. bit (group_value g) i) [0..<6])" by (simp add: char_bits_def)
  also have "\<dots> = rev (map (\<lambda>i. rev g ! i) [0..<length (rev g)])" using g by (simp add: bit_group_value cong: map_cong)
  also have "\<dots> = g" by (simp only: map_nth rev_rev_ident)
  finally show ?thesis .
qed

lemma byte_from_bits: "horner_sum of_bool 2 (rev (byte_bits b)) = b"
  by (simp add: byte_bits_def horner_sum_bit_eq_take_bit take_bit_word_eq_self del: upt_Suc)

lemma bytes_from_bits: "length zs < 8 \<Longrightarrow> bytes_from (concat (map byte_bits xs) @ zs) = xs"
  by (induction xs) (simp_all add: bytes_from.simps byte_from_bits)

lemma takeWhile_pad: "CHR ''='' \<notin> set s \<Longrightarrow> takeWhile (\<lambda>c. c \<noteq> CHR ''='') (s @ replicate k (CHR ''='')) = s"
  by (subst takeWhile_append2) (auto simp: takeWhile_replicate)

lemma b64_text_chars: "set (b64_text xs) \<subseteq> set char_set"
proof
  fix c assume "c \<in> set (b64_text xs)"
  then obtain g where "g \<in> set (groups (concat (map byte_bits xs)))" "c = char_set ! group_value g" by (auto simp: b64_text_def)
  then show "c \<in> set char_set" using groups_length group_value_less distinct_char_set(2) by (metis nth_mem)
qed

lemma decode_b64: "b64_decode (b64 xs) = xs"
proof -
  let ?bs = "concat (map byte_bits xs)"
  have "CHR ''='' \<notin> set (b64_text xs)" using b64_text_chars distinct_char_set(3) by blast
  then have t: "takeWhile (\<lambda>c. c \<noteq> CHR ''='') (b64 xs) = b64_text xs" by (simp add: b64_def takeWhile_pad)
  have "map char_bits (b64_text xs) = groups ?bs"
    using groups_length char_bits_group by (auto simp: b64_text_def intro!: map_idI)
  moreover obtain k where "k < 6" "concat (groups ?bs) = ?bs @ replicate k False" using groups_concat by blast
  ultimately show ?thesis unfolding b64_decode_def t using bytes_from_bits [of "replicate k False" xs] by simp
qed

section \<open>The encoder\<close>

lemma bit_63: "bit (63 :: int) i \<longleftrightarrow> i < 6" "bit (63 :: nat) i \<longleftrightarrow> i < 6"
  using bit_mask_iff [of 6 i, where 'a = int] bit_mask_iff [of 6 i, where 'a = nat] by (simp_all add: mask_eq_exp_minus_1)

lemma unat_group:
  assumes "length g = 6" "\<And>i. i < 6 \<Longrightarrow> bit (w AND 63 :: u32) i \<longleftrightarrow> rev g ! i"
  shows "unat (w AND 63) = group_value g"
proof (rule bit_eqI)
  show "bit (unat (w AND 63)) i \<longleftrightarrow> bit (group_value g) i" for i
    using assms by (cases "i < 6") (auto simp: bit_group_value bit_unsigned_iff bit_and_iff bit_63)
qed

lemma emit_groups: "n \<le> 26 \<Longrightarrow> emit v n = map (\<lambda>g. char_set ! group_value g) (groups (rev (map (bit v) [0..<n])))"
proof (induction v n rule: emit.induct)
  case (1 v n)
  consider "n = 0" | (more) "6 \<le> n" | (rest) "0 < n" "n < 6" by linarith
  then show ?case
  proof cases
    case more
    have split: "rev (map (bit v) [0..<n]) = rev (map (bit v) [n - 6..<n]) @ rev (map (bit v) [0..<n - 6])"
      using more upt_add_eq_append [of 0 "n - 6" 6] by (simp flip: rev_append map_append)
    have "unat (signed_drop_bit (n - 6) v AND 63) = group_value (rev (map (bit v) [n - 6..<n]))"
      using more 1(2) by (intro unat_group) (auto simp: bit_and_iff bit_63 bit_signed_drop_bit_iff)
    then show ?thesis
      using more 1(1) 1(2) unfolding split by (simp add: emit.simps [of v n] groups_block)
  next
    case rest
    have "unat (push_bit (6 - n) v AND 63) = group_value (rev (map (bit v) [0..<n]) @ replicate (6 - n) False)"
      using rest by (intro unat_group) (auto simp: bit_and_iff bit_63 bit_push_bit_iff nth_append)
    then show ?thesis using rest by (simp add: emit.simps [of v n] groups.simps [of "rev (map (bit v) [0..<n])"])
  qed (simp add: emit.simps)
qed

definition read_bytes :: "bool \<Rightarrow> byte list \<Rightarrow> byte list" where
  "read_bytes sg xs = (if sg then smear xs else xs)"

lemma length_smear_chunk [simp]: "length (smear_chunk cs) = length cs"
  by (induction cs) auto

lemma smear_chunk_snoc: "smear_chunk (cs @ [c]) = (if bit c 7 then replicate (length cs) 0xff else smear_chunk cs) @ [c]"
  by (induction cs) auto

lemma bit_extend: "bit (extend sg c) i \<longleftrightarrow> i < 32 \<and> (if i < 8 then bit c i else sg \<and> bit c 7)"
  by (cases "i = 7") (auto simp: extend_def bit_simps min_def dest: bit_imp_le_length)

lemma byte_bits_ff: "byte_bits 0xff = replicate 8 True"
  by (simp add: byte_bits_def upt_rec numeral_eq_Suc)

lemma chunk_bits:
  "length cs \<le> 3 \<Longrightarrow>
     rev (map (bit (chunk_val sg cs)) [0..<8 * length cs]) = concat (map byte_bits (if sg then smear_chunk cs else cs))"
proof (induction cs rule: rev_induct)
  case (snoc c cs)
  let ?v = "chunk_val sg cs" and ?ys = "if sg then smear_chunk cs else cs"
  have v: "chunk_val sg (cs @ [c]) = push_bit 8 ?v OR extend sg c" by (simp add: chunk_val_def)
  have n: "8 * length (cs @ [c]) = 8 + 8 * length cs" by simp
  have low: "map (bit (push_bit 8 ?v OR extend sg c)) [0..<8] = map (bit c) [0..<8]"
    by (simp add: bit_or_iff bit_push_bit_iff bit_extend)
  have high: "map (bit (push_bit 8 ?v OR extend sg c)) [8..<8 + 8 * length cs] =
      map (\<lambda>i. bit ?v i \<or> sg \<and> bit c 7) [0..<8 * length cs]"
    using snoc.prems by (intro nth_equalityI) (auto simp: bit_or_iff bit_push_bit_iff bit_extend)
  have ih: "rev (map (bit ?v) [0..<8 * length cs]) = concat (map byte_bits ?ys)" using snoc by simp
  have ones: "concat (map byte_bits (replicate k 0xff)) = replicate (8 * k) True" for k
    by (induction k) (simp_all add: byte_bits_ff replicate_add [symmetric])
  have "rev (map (bit (chunk_val sg (cs @ [c]))) [0..<8 * length (cs @ [c])]) =
      rev (map (\<lambda>i. bit ?v i \<or> sg \<and> bit c 7) [0..<8 * length cs]) @ byte_bits c"
    unfolding v n upt_add_eq_append [OF le0, of 8] map_append low rev_append high byte_bits_def by simp
  also have "rev (map (\<lambda>i. bit ?v i \<or> sg \<and> bit c 7) [0..<8 * length cs]) =
      (if sg \<and> bit c 7 then concat (map byte_bits (replicate (length cs) 0xff)) else concat (map byte_bits ?ys))"
    unfolding ones using ih by (auto simp: map_replicate_const)
  finally show ?case by (simp add: smear_chunk_snoc)
qed (simp add: chunk_val_def)

lemma emit_chunk: "length cs \<le> 3 \<Longrightarrow> emit (chunk_val sg cs) (length cs * 8) = b64_text (if sg then smear_chunk cs else cs)"
  unfolding b64_text_def using emit_groups [of "8 * length cs" "chunk_val sg cs"] chunk_bits [of cs sg]
  by (simp add: mult.commute)

lemma length_groups: "length (groups bs) = (length bs + 5) div 6"
proof (induction bs rule: groups.induct)
  case (1 bs)
  show ?case
  proof (cases "length bs \<le> 6")
    case True
    then have "(length bs + 5) div 6 = (if bs = [] then 0 else 1)" by (cases bs) simp_all
    then show ?thesis using True by (simp add: groups.simps [of bs])
  next
    case False
    then have "bs \<noteq> []" by auto
    with False 1 show ?thesis by (simp add: groups.simps [of bs] le_div_geq)
  qed
qed

lemma length_b64_text: "length (b64_text xs) = (8 * length xs + 5) div 6"
proof -
  have "length (concat (map byte_bits xs)) = 8 * length xs" by (induction xs) auto
  then show ?thesis by (simp add: b64_text_def length_groups)
qed

lemma b64_text_Nil [simp]: "b64_text [] = []"
  by (simp add: b64_text_def)

lemma b64_text_append: "length xs = 3 \<Longrightarrow> b64_text (xs @ ys) = b64_text xs @ b64_text ys"
proof -
  assume xs: "length xs = 3"
  have "length (concat (map byte_bits xs)) = 8 * length xs" by (induction xs) auto
  with xs show ?thesis by (simp add: b64_text_def groups_append)
qed

lemma read_bytes_split:
  "read_bytes sg [] = []" "s \<noteq> [] \<Longrightarrow> read_bytes sg s = (if sg then smear_chunk (take 3 s) else take 3 s) @ read_bytes sg (drop 3 s)"
  by (simp_all add: read_bytes_def smear.simps [of "[]"] smear.simps [of s])

lemma length_read_bytes: "length (read_bytes sg s) = length s"
proof (induction s rule: smear.induct)
  case (1 s)
  then show ?case by (cases "s = []") (simp_all add: read_bytes_split)
qed

lemma encode_loop_eq:
  "encode_loop sg s p = (b64_text (read_bytes sg s), if s = [] then p else (4 - length (b64_text (read_bytes sg s)) mod 4) mod 4)"
proof (induction sg s p rule: encode_loop.induct)
  case (1 sg s p)
  show ?case
  proof (cases "s = []")
    case False
    let ?c = "take 3 s" and ?r = "drop 3 s" and ?d = "if sg then smear_chunk (take 3 s) else take 3 s"
    have e: "emit (chunk_val sg ?c) (length ?c * 8) = b64_text ?d" by (rule emit_chunk) simp
    have ih: "encode_loop sg ?r (length ?c * 8 mod 3) =
        (b64_text (read_bytes sg ?r), if ?r = [] then length ?c * 8 mod 3 else (4 - length (b64_text (read_bytes sg ?r)) mod 4) mod 4)"
      using 1 [OF False refl] .
    have rd: "read_bytes sg s = ?d @ read_bytes sg ?r" using read_bytes_split(2) [OF False] .
    show ?thesis
    proof (cases "?r = []")
      case True
      then have "length s \<le> 3" "length s \<noteq> 0" using False by simp_all
      then have "length s = 1 \<or> length s = 2 \<or> length s = 3" by linarith
      moreover have "length ?d = length s" using True by simp
      ultimately show ?thesis
        using False True e ih rd length_b64_text [of ?d] by (auto simp: encode_loop.simps [of sg s] read_bytes_split Let_def)
    next
      case more: False
      then have "length ?d = 3" by simp
      then have "b64_text (read_bytes sg s) = b64_text ?d @ b64_text (read_bytes sg ?r)" unfolding rd by (rule b64_text_append)
      moreover have "length (b64_text ?d) = 4" using \<open>length ?d = 3\<close> unfolding length_b64_text by simp
      ultimately show ?thesis using False more e ih by (simp add: encode_loop.simps [of sg s] Let_def)
    qed
  qed (simp add: encode_loop.simps read_bytes_split b64_text_def)
qed

lemma padded_length: "(8 * n + 5) div 6 + (4 - (8 * n + 5) div 6 mod 4) mod 4 = 4 * ((n + 2) div 3)" for n :: nat
proof -
  define q where "q = n div 3"
  consider "n = 3 * q" | "n = 3 * q + 1" | "n = 3 * q + 2" unfolding q_def by linarith
  then show ?thesis
  proof cases
    case 1
    then have "(8 * n + 5) div 6 = 4 * q" "(n + 2) div 3 = q" by simp_all
    then show ?thesis by simp
  next
    case 2
    then have "(8 * n + 5) div 6 = 4 * q + 2" "(n + 2) div 3 = q + 1" by simp_all
    moreover have "(4 * q + 2) mod 4 = 2" by presburger
    ultimately show ?thesis by (simp only:) simp
  next
    case 3
    then have "(8 * n + 5) div 6 = 4 * q + 3" "(n + 2) div 3 = q + 1" by simp_all
    moreover have "(4 * q + 3) mod 4 = 3" by presburger
    ultimately show ?thesis by (simp only:) simp
  qed
qed

lemma smear_ascii: "\<forall>b \<in> set xs. \<not> bit b 7 \<Longrightarrow> smear xs = xs"
proof (induction xs rule: smear.induct)
  case (1 xs)
  have "smear_chunk cs = cs" if "\<forall>b \<in> set cs. \<not> bit b 7" for cs using that by (induction cs) auto
  then have "smear_chunk (take 3 xs) = take 3 xs" using 1(2) by (auto dest: in_set_takeD)
  moreover have "smear (drop 3 xs) = drop 3 xs" if "xs \<noteq> []" using 1 that by (auto dest: in_set_dropD)
  ultimately show ?case by (subst smear.simps) simp
qed

section \<open>Properties\<close>

text \<open>
  C36. The encoder writes the base 64 text of the bytes it reads, with padding and a terminator, from which decoding
  returns exactly those bytes. These are the bytes of the input when \<^verbatim>\<open>char\<close> is unsigned or all of them are below
  128; with a signed \<^verbatim>\<open>char\<close> a byte from 128 on replaces the bytes before it in its group of three by 255.
\<close>

theorem base64Encode_correct:
  "let ys = (if sg then smear xs else xs) in
     base64Encode sg xs (Some buf) = (True, Some (b64 ys @ [NUL])) \<and> b64_decode (b64 ys) = ys \<and>
     length (b64 ys) = 4 * ((length xs + 2) div 3) \<and> (\<not> sg \<or> (\<forall>b \<in> set xs. \<not> bit b 7) \<longrightarrow> ys = xs)"
proof -
  let ?ys = "read_bytes sg xs" and ?n = "length xs"
  have "base64Encode sg xs (Some buf) = (True, Some (b64 ?ys @ [NUL]))"
    by (simp add: base64Encode_def encode_loop_eq b64_def) (simp add: read_bytes_split b64_text_def)
  moreover have "length (b64 ?ys) = 4 * ((?n + 2) div 3)" using padded_length [of ?n] by (simp add: b64_def length_b64_text length_read_bytes)
  ultimately show ?thesis using decode_b64 smear_ascii [of xs] by (auto simp: read_bytes_def Let_def)
qed

theorem base64Encode_correct_witness:
  "base64Encode True [0x61, 0x62] (Some []) = (True, Some (''YWI='' @ [NUL])) \<and> b64_decode ''YWI='' = [0x61, 0x62] \<and>
   base64Encode True [0x61, 0x80] (Some []) = (True, Some (''/4A='' @ [NUL])) \<and> b64_decode ''/4A='' = [0xff, 0x80]"
proof -
  have "smear [0x61, 0x62] = [0x61, 0x62]" "smear [0x61, 0x80] = [0xff, 0x80]" "b64 [0x61, 0x62] = ''YWI=''" "b64 [0xff, 0x80] = ''/4A=''"
    by code_simp+
  then show ?thesis
    using base64Encode_correct [of True "[0x61, 0x62]" "[]"] base64Encode_correct [of True "[0x61, 0x80]" "[]"]
    by (simp add: Let_def)
qed

end
