(* ===== verification/ConfigDatabase.thy ===== *)
theory ConfigDatabase
  imports Prelude "HOL-Library.Sublist"
begin

text \<open>
  The configuration database: the flash emulated EEPROM of \<^verbatim>\<open>devices/esp8266/core/EW_EEPROM.cpp\<close> with its
  second copy, the byte-wise load and store of \<^verbatim>\<open>devices/esp8266/DatabaseInterface.h\<close>, the table template of
  \<^verbatim>\<open>database/core/DatabaseTable.h\<close> and the table registry of \<^verbatim>\<open>utility/Database.cpp\<close>.
  The flash driver of the board is a parameter; the object of a table is the list of its bytes.
\<close>

section \<open>Model\<close>

subsection \<open>EEPROM\<close>

text \<open>
  The flash driver, on a state of its own. Reads and writes start at the first byte of a sector, so the number of the
  sector stands for the address; erase and write tell whether they succeeded.
\<close>

record 'f flash_env =
  spi_flash_read :: "u32 \<Rightarrow> nat \<Rightarrow> 'f \<Rightarrow> byte list"
  spi_flash_erase_sector :: "u32 \<Rightarrow> 'f \<Rightarrow> bool \<times> 'f"
  spi_flash_write :: "u32 \<Rightarrow> byte list \<Rightarrow> 'f \<Rightarrow> bool \<times> 'f"

record EW_EEPROMClass =
  e_sector :: u32
  e_copy_sector :: u32
  e_data :: "byte list option"
  e_size :: nat
  e_dirty :: bool

abbreviation (input) "SPI_FLASH_SEC_SIZE \<equiv> (4096 :: nat)"

definition EEPROM_VALIDITY_BYTES :: "byte list" where
  "EEPROM_VALIDITY_BYTES = [0x45, 0x57, 0x45, 0x45]"

definition eeprom_new :: "u32 \<Rightarrow> EW_EEPROMClass" where
  "eeprom_new sector = \<lparr>e_sector = sector, e_copy_sector = 0, e_data = None, e_size = 0, e_dirty = False\<rparr>"

definition has_validity :: "byte list \<Rightarrow> bool" where
  "has_validity d \<longleftrightarrow> take 4 d = EEPROM_VALIDITY_BYTES"

definition eeprom_begin :: "'f flash_env \<Rightarrow> nat \<Rightarrow> EW_EEPROMClass \<times> 'f \<Rightarrow> EW_EEPROMClass \<times> 'f" where
  "eeprom_begin E n = (\<lambda>(e, f).
     if n = 0 then (e, f)
     else
       (let n = (if n > SPI_FLASH_SEC_SIZE then SPI_FLASH_SEC_SIZE else n);
            n = (n + 3) div 4 * 4;
            e = e\<lparr>e_size := n, e_copy_sector := 255\<rparr>;
            d = spi_flash_read E (e_sector e) n f
        in if has_validity d then (e\<lparr>e_data := Some d, e_dirty := False\<rparr>, f)
           else
             (let d = spi_flash_read E (e_copy_sector e) n f in
              if has_validity d
              then (let (ok, f) = spi_flash_erase_sector E (e_sector e) f;
                        f = (if ok then snd (spi_flash_write E (e_sector e) d f) else f)
                    in (e\<lparr>e_data := Some d, e_dirty := False\<rparr>, f))
              else (e\<lparr>e_data := Some (EEPROM_VALIDITY_BYTES @ drop 4 d), e_dirty := False\<rparr>, f))))"

definition eeprom_read :: "int \<Rightarrow> EW_EEPROMClass \<Rightarrow> byte" where
  "eeprom_read address e =
     (if address < 0 \<or> address \<ge> int (e_size e) then 0
      else case e_data e of None \<Rightarrow> 0 | Some d \<Rightarrow> d ! nat address)"

definition eeprom_write :: "int \<Rightarrow> byte \<Rightarrow> EW_EEPROMClass \<Rightarrow> EW_EEPROMClass" where
  "eeprom_write address v e =
     (if address < 0 \<or> address \<ge> int (e_size e) then e
      else case e_data e of
             None \<Rightarrow> e
           | Some d \<Rightarrow> if d ! nat address \<noteq> v then e\<lparr>e_data := Some (d[nat address := v]), e_dirty := True\<rparr> else e)"

definition eeprom_commit :: "'f flash_env \<Rightarrow> EW_EEPROMClass \<times> 'f \<Rightarrow> bool \<times> EW_EEPROMClass \<times> 'f" where
  "eeprom_commit E = (\<lambda>(e, f).
     if e_size e = 0 then (False, e, f)
     else if \<not> e_dirty e then (True, e, f)
     else
       (case e_data e of
          None \<Rightarrow> (False, e, f)
        | Some d \<Rightarrow>
            (let (erased, f) = spi_flash_erase_sector E (e_sector e) f;
                 (ret, f) = (if erased then spi_flash_write E (e_sector e) d f else (False, f));
                 e = (if ret then e\<lparr>e_dirty := False\<rparr> else e);
                 (erased, f) = spi_flash_erase_sector E (e_copy_sector e) f;
                 f = (if erased then snd (spi_flash_write E (e_copy_sector e) d f) else f)
             in (ret, e, f))))"

definition eeprom_end :: "'f flash_env \<Rightarrow> EW_EEPROMClass \<times> 'f \<Rightarrow> EW_EEPROMClass \<times> 'f" where
  "eeprom_end E = (\<lambda>(e, f).
     if e_size e = 0 then (e, f)
     else (let (ret, e, f) = eeprom_commit E (e, f) in (e\<lparr>e_data := None, e_size := 0, e_dirty := False\<rparr>, f)))"

subsection \<open>Load and store of objects\<close>

definition CONFIG_VERSION :: "byte list" where
  "CONFIG_VERSION = [0x31, 0x2E, 0x31]"

abbreviation (input) "CONFIG_START \<equiv> (5 :: int)"

definition isValidConfigs :: "EW_EEPROMClass \<Rightarrow> bool" where
  "isValidConfigs e \<longleftrightarrow>
     eeprom_read (CONFIG_START + 0) e = CONFIG_VERSION ! 0 \<and>
     eeprom_read (CONFIG_START + 1) e = CONFIG_VERSION ! 1 \<and>
     eeprom_read (CONFIG_START + 2) e = CONFIG_VERSION ! 2"

fun save_loop :: "int \<Rightarrow> byte list \<Rightarrow> bool \<times> EW_EEPROMClass \<Rightarrow> bool \<times> EW_EEPROMClass" where
  "save_loop a [] (w, e) = (w, e)"
| "save_loop a (b # bs) (w, e) =
     (if eeprom_read a e \<noteq> b then save_loop (a + 1) bs (True, eeprom_write a b e) else save_loop (a + 1) bs (w, e))"

definition saveConfig :: "'f flash_env \<Rightarrow> u16 \<Rightarrow> byte list \<Rightarrow> EW_EEPROMClass \<times> 'f \<Rightarrow> EW_EEPROMClass \<times> 'f" where
  "saveConfig E address obj = (\<lambda>(e, f).
     let (data_written, e) = save_loop (uint address) obj (False, e) in
     if data_written then snd (eeprom_commit E (e, f)) else (e, f))"

definition loadConfig :: "u16 \<Rightarrow> byte list \<Rightarrow> EW_EEPROMClass \<Rightarrow> byte list" where
  "loadConfig address obj e =
     (if isValidConfigs e then map (\<lambda>i. eeprom_read (uint address + int i) e) [0..<length obj] else obj)"

definition cleanAllConfigs :: "'f flash_env \<Rightarrow> EW_EEPROMClass \<times> 'f \<Rightarrow> EW_EEPROMClass \<times> 'f" where
  "cleanAllConfigs E = (\<lambda>(e, f). eeprom_end E (fold (\<lambda>i. eeprom_write (int i) 0) [0..<SPI_FLASH_SEC_SIZE] e, f))"

subsection \<open>Registry and tables\<close>

text \<open>
  A table class: its address, and the bytes of a default constructed object, whose number is the size of the object.
\<close>

record table_class =
  c_addr :: u16
  c_default :: "byte list"

record struct_tables =
  m_table_address :: u16
  m_table_size :: u16
  m_instance :: "table_class option"

record Database =
  m_database_tables :: "struct_tables list"
  m_max_db_size :: u32

text \<open>The loops count the tables with eight bits: with 256 tables or more they do not end, which is \<^const>\<open>None\<close>.\<close>

fun last_loop :: "struct_tables list \<Rightarrow> nat \<Rightarrow> nat list \<Rightarrow> nat" where
  "last_loop ts l [] = l"
| "last_loop ts l (i # is) = last_loop ts (if m_table_address (ts ! l) < m_table_address (ts ! i) then i else l) is"

definition get_last_table :: "Database \<Rightarrow> struct_tables option" where
  "get_last_table db =
     (let ts = m_database_tables db; l = last_loop ts 0 [1..<length ts] in
      if length ts \<ge> 256 then None
      else if l \<noteq> 0 then Some (ts ! l)
      else Some \<lparr>m_table_address = 0, m_table_size = 0, m_instance = None\<rparr>)"

definition register_table :: "struct_tables \<Rightarrow> Database \<Rightarrow> (bool \<times> Database) option" where
  "register_table t db =
     (case get_last_table db of
        None \<Rightarrow> None
      | Some l \<Rightarrow>
          if uint (m_table_address l) + uint (m_table_size l) + 2 < uint (m_table_address t) \<and>
             uint (m_table_address t) + uint (m_table_size t) + 2 < uint (m_max_db_size db)
          then Some (True, db\<lparr>m_database_tables := m_database_tables db @ [t]\<rparr>)
          else Some (False, db))"

definition table_boot :: "table_class \<Rightarrow> Database \<Rightarrow> Database option" where
  "table_boot c db =
     map_option snd (register_table \<lparr>m_table_address = c_addr c, m_table_size = of_nat (length (c_default c)), m_instance = Some c\<rparr> db)"

fun boot_all :: "table_class list \<Rightarrow> Database \<Rightarrow> Database option" where
  "boot_all [] db = Some db"
| "boot_all (c # cs) db = (case table_boot c db of None \<Rightarrow> None | Some db \<Rightarrow> boot_all cs db)"

definition init_database :: "table_class list \<Rightarrow> u32 \<Rightarrow> Database \<Rightarrow> Database option" where
  "init_database instances n db = boot_all instances (db\<lparr>m_max_db_size := n\<rparr>)"

definition new_instance :: "nat \<Rightarrow> table_class \<Rightarrow> table_class list \<Rightarrow> table_class list" where
  "new_instance max_tables c instances = (if length instances < max_tables then instances @ [c] else instances)"

definition table_known :: "u16 \<Rightarrow> Database \<Rightarrow> bool option" where
  "table_known a db =
     (let ts = m_database_tables db in
      if a \<in> set (map m_table_address (take 256 ts)) then Some True else if length ts \<ge> 256 then None else Some False)"

definition get_table :: "u16 \<Rightarrow> byte list \<Rightarrow> Database \<Rightarrow> EW_EEPROMClass \<Rightarrow> (bool \<times> byte list) option" where
  "get_table a obj db e = map_option (\<lambda>k. if k then (True, loadConfig a obj e) else (False, obj)) (table_known a db)"

definition set_table :: "'f flash_env \<Rightarrow> u16 \<Rightarrow> byte list \<Rightarrow> Database \<Rightarrow> EW_EEPROMClass \<times> 'f \<Rightarrow> (bool \<times> EW_EEPROMClass \<times> 'f) option" where
  "set_table E a obj db st = map_option (\<lambda>k. if k then (True, saveConfig E a obj st) else (False, st)) (table_known a db)"

definition clear_table :: "'f flash_env \<Rightarrow> table_class \<Rightarrow> Database \<Rightarrow> EW_EEPROMClass \<times> 'f \<Rightarrow> (bool \<times> EW_EEPROMClass \<times> 'f) option" where
  "clear_table E c db st = set_table E (c_addr c) (c_default c) db st"

fun clear_loop :: "'f flash_env \<Rightarrow> struct_tables list \<Rightarrow> Database \<Rightarrow> EW_EEPROMClass \<times> 'f \<Rightarrow> (EW_EEPROMClass \<times> 'f) option" where
  "clear_loop E [] db st = Some st"
| "clear_loop E (t # ts) db st =
     (case m_instance t of
        None \<Rightarrow> clear_loop E ts db st
      | Some c \<Rightarrow> (case clear_table E c db st of None \<Rightarrow> None | Some (b, st) \<Rightarrow> clear_loop E ts db st))"

definition clear_all :: "'f flash_env \<Rightarrow> Database \<Rightarrow> EW_EEPROMClass \<times> 'f \<Rightarrow> (EW_EEPROMClass \<times> 'f) option" where
  "clear_all E db st =
     (if length (m_database_tables db) \<ge> 256 then None else clear_loop E (m_database_tables db) db st)"

definition db_initService :: "'f flash_env \<Rightarrow> table_class list \<Rightarrow> Database \<Rightarrow> EW_EEPROMClass \<times> 'f \<Rightarrow> (Database \<times> EW_EEPROMClass \<times> 'f) option" where
  "db_initService E instances db st =
     map_option (\<lambda>db. (db, eeprom_begin E SPI_FLASH_SEC_SIZE st)) (init_database instances (of_nat SPI_FLASH_SEC_SIZE) db)"

section \<open>Reading and writing bytes\<close>

definition mounted :: "EW_EEPROMClass \<Rightarrow> bool" where
  "mounted e \<longleftrightarrow> (\<exists>d. e_data e = Some d \<and> length d = e_size e)"

lemma mountedE: assumes "mounted e" obtains d where "e_data e = Some d" "length d = e_size e"
  using assms by (auto simp: mounted_def)

lemma read_dirty [simp]: "eeprom_read x (e\<lparr>e_dirty := b\<rparr>) = eeprom_read x e"
  by (simp add: eeprom_read_def)

lemma write_keeps [simp]:
  "e_size (eeprom_write a v e) = e_size e" "e_sector (eeprom_write a v e) = e_sector e"
  "e_copy_sector (eeprom_write a v e) = e_copy_sector e"
  "mounted e \<Longrightarrow> mounted (eeprom_write a v e)"
  by (auto simp: eeprom_write_def mounted_def split: option.splits)

lemma read_write:
  assumes "mounted e" "0 \<le> a" "a < int (e_size e)"
  shows "eeprom_read x (eeprom_write a v e) = (if x = a then v else eeprom_read x e)"
proof -
  obtain d where "e_data e = Some d" "length d = e_size e" using assms(1) by (rule mountedE)
  then show ?thesis using assms(2,3) by (auto simp: eeprom_read_def eeprom_write_def nth_list_update nat_eq_iff2)
qed

definition put_byte :: "int \<Rightarrow> byte \<Rightarrow> EW_EEPROMClass \<Rightarrow> EW_EEPROMClass" where
  "put_byte a b e = (if eeprom_read a e \<noteq> b then eeprom_write a b e else e)"

lemma put_byte:
  assumes "mounted e" "0 \<le> a" "a < int (e_size e)"
  shows "mounted (put_byte a b e)" "e_size (put_byte a b e) = e_size e" "e_sector (put_byte a b e) = e_sector e"
    "e_copy_sector (put_byte a b e) = e_copy_sector e"
    "eeprom_read x (put_byte a b e) = (if x = a then b else eeprom_read x e)"
    "e_dirty e \<Longrightarrow> e_dirty (put_byte a b e)" "eeprom_read a e \<noteq> b \<Longrightarrow> e_dirty (put_byte a b e)"
  using assms by (auto simp: put_byte_def read_write eeprom_write_def eeprom_read_def mounted_def)

lemma save_loop_spec:
  assumes "mounted e" "0 \<le> a" "a + int (length bs) \<le> int (e_size e)" "save_loop a bs (w, e) = (w', e')"
  shows "mounted e' \<and> e_size e' = e_size e \<and> e_sector e' = e_sector e \<and> e_copy_sector e' = e_copy_sector e \<and>
    (\<not> w' \<longrightarrow> e' = e \<and> \<not> w) \<and> (e_dirty e \<longrightarrow> e_dirty e') \<and> (w' \<and> \<not> w \<longrightarrow> e_dirty e') \<and>
    (\<forall>x. eeprom_read x e' = (if a \<le> x \<and> x < a + int (length bs) then bs ! nat (x - a) else eeprom_read x e))"
  using assms
proof (induction bs arbitrary: a w e)
  case (Cons b bs)
  let ?e = "put_byte a b e" and ?w = "w \<or> eeprom_read a e \<noteq> b"
  note p = put_byte [OF Cons.prems(1,2), where b = b]
  have a: "a < int (e_size e)" using Cons.prems(3) by simp
  have run: "save_loop (a + 1) bs (?w, ?e) = (w', e')"
    using Cons.prems(4) by (cases "eeprom_read a e = b") (simp_all add: put_byte_def)
  have size: "a + 1 + int (length bs) \<le> int (e_size ?e)" using Cons.prems(3) p(2) [OF a] by simp
  note IH = Cons.IH [OF p(1) [OF a] _ size run]
  have read: "eeprom_read x e' = (if a \<le> x \<and> x < a + int (length (b # bs)) then (b # bs) ! nat (x - a) else eeprom_read x e)" for x
  proof -
    have r: "eeprom_read x e' = (if a + 1 \<le> x \<and> x < a + 1 + int (length bs) then bs ! nat (x - (a + 1)) else eeprom_read x ?e)"
      using IH Cons.prems(2) by simp
    have "a < x \<Longrightarrow> nat (x - a) = Suc (nat (x - (a + 1)))" by simp
    then show ?thesis unfolding r p(5) [OF a, of x] by (cases "a < x") auto
  qed
  have "\<not> w' \<Longrightarrow> ?e = e" using IH Cons.prems(2) by (auto simp: put_byte_def)
  then show ?case using IH Cons.prems(2) p(2-4) [OF a] p(6,7) [OF a] read by auto
qed auto

section \<open>The content of the flash\<close>

text \<open>
  What the documentation of the flash driver promises: a sector that is erased reads as ones, an erased sector that is
  written reads as what was written, an operation that reports a failure changed nothing, and other sectors are kept.
\<close>

definition flash_device :: "'f flash_env \<Rightarrow> bool" where
  "flash_device E \<longleftrightarrow>
     (\<forall>s n f. length (spi_flash_read E s n f) = n) \<and>
     (\<forall>s f t n. spi_flash_read E t n (snd (spi_flash_erase_sector E s f)) =
        (if t = s \<and> fst (spi_flash_erase_sector E s f) then replicate n 0xFF else spi_flash_read E t n f)) \<and>
     (\<forall>s d f t n. t \<noteq> s \<or> \<not> fst (spi_flash_write E s d f) \<longrightarrow>
        spi_flash_read E t n (snd (spi_flash_write E s d f)) = spi_flash_read E t n f) \<and>
     (\<forall>s d f. fst (spi_flash_write E s d f) \<and> (\<forall>n. spi_flash_read E s n f = replicate n 0xFF) \<longrightarrow>
        spi_flash_read E s (length d) (snd (spi_flash_write E s d f)) = d)"

lemma flash_deviceD:
  assumes "flash_device E"
  shows flash_length: "length (spi_flash_read E s n f) = n"
    and flash_erase: "spi_flash_erase_sector E s f = (r, f') \<Longrightarrow>
      spi_flash_read E t n f' = (if t = s \<and> r then replicate n 0xFF else spi_flash_read E t n f)"
    and flash_write_other: "spi_flash_write E s d f = (r, f') \<Longrightarrow> t \<noteq> s \<or> \<not> r \<Longrightarrow> spi_flash_read E t n f' = spi_flash_read E t n f"
    and flash_write: "spi_flash_write E s d f = (True, f') \<Longrightarrow> (\<And>n. spi_flash_read E s n f = replicate n 0xFF) \<Longrightarrow>
      length d = n \<Longrightarrow> spi_flash_read E s n f' = d"
proof -
  show "length (spi_flash_read E s n f) = n" using assms unfolding flash_device_def by blast
  show "spi_flash_read E t n f' = (if t = s \<and> r then replicate n 0xFF else spi_flash_read E t n f)"
    if "spi_flash_erase_sector E s f = (r, f')"
    using assms that unfolding flash_device_def by (metis fst_conv snd_conv)
  show "spi_flash_read E t n f' = spi_flash_read E t n f" if "spi_flash_write E s d f = (r, f')" "t \<noteq> s \<or> \<not> r"
    using assms that unfolding flash_device_def by (metis fst_conv snd_conv)
  show "spi_flash_read E s n f' = d" if "spi_flash_write E s d f = (True, f')" "\<And>n. spi_flash_read E s n f = replicate n 0xFF" "length d = n"
    using assms that unfolding flash_device_def by (metis fst_conv snd_conv)
qed

text \<open>The bytes the next start finds, as a function of the two sectors.\<close>

definition recovered :: "byte list \<Rightarrow> byte list \<Rightarrow> byte list" where
  "recovered d c = (if has_validity d then d else if has_validity c then c else EEPROM_VALIDITY_BYTES @ drop 4 c)"

definition stored :: "'f flash_env \<Rightarrow> u32 \<Rightarrow> nat \<Rightarrow> 'f \<Rightarrow> byte list" where
  "stored E s n f = recovered (spi_flash_read E s n f) (spi_flash_read E 255 n f)"

lemma begin_stored:
  assumes "flash_device E" "0 < n" "n \<le> SPI_FLASH_SEC_SIZE" "4 dvd n"
  shows "\<exists>f'. eeprom_begin E n (eeprom_new s, f) =
    (\<lparr>e_sector = s, e_copy_sector = 255, e_data = Some (stored E s n f), e_size = n, e_dirty = False\<rparr>, f')"
proof -
  have "(n + 3) div 4 * 4 = n" using assms(4) by auto
  then show ?thesis using assms(2,3)
    by (auto simp: eeprom_begin_def eeprom_new_def stored_def recovered_def Let_def split: prod.split)
qed

lemma commit_dirty:
  assumes "e_size e \<noteq> 0" "e_dirty e" "e_data e = Some d"
    and "spi_flash_erase_sector E (e_sector e) f = (r1, f1)"
    and "(if r1 then spi_flash_write E (e_sector e) d f1 else (False, f1)) = (w1, f2)"
    and "spi_flash_erase_sector E (e_copy_sector e) f2 = (r2, f3)"
    and "(if r2 then spi_flash_write E (e_copy_sector e) d f3 else (False, f3)) = (w2, f4)"
  shows "eeprom_commit E (e, f) = (w1, e\<lparr>e_dirty := \<not> w1\<rparr>, f4)"
  using assms by (cases r2; cases w1) (auto simp: eeprom_commit_def)

lemma blank_invalid: "n \<noteq> 0 \<Longrightarrow> \<not> has_validity (replicate n 0xFF)"
  by (cases n) (auto simp: has_validity_def EEPROM_VALIDITY_BYTES_def)

text \<open>Erasing a sector and writing it, with each of the two possibly failing.\<close>

lemma rewrite_sector:
  assumes "flash_device E" "spi_flash_erase_sector E s f = (r, f1)" "length d = n"
    and "(if r then spi_flash_write E s d f1 else (False, f1)) = (w, f2)"
  shows "spi_flash_read E s n f2 = (if w then d else if r then replicate n 0xFF else spi_flash_read E s n f)"
    and "t \<noteq> s \<Longrightarrow> spi_flash_read E t m f2 = spi_flash_read E t m f"
    and "w \<Longrightarrow> r"
proof -
  note e = flash_erase [OF assms(1,2)]
  show "w \<Longrightarrow> r" using assms(4) by (auto split: if_splits)
  show "t \<noteq> s \<Longrightarrow> spi_flash_read E t m f2 = spi_flash_read E t m f"
    using assms(4) e [of t m] flash_write_other [OF assms(1), of s d f1 w f2 t m] by (auto split: if_splits)
  show "spi_flash_read E s n f2 = (if w then d else if r then replicate n 0xFF else spi_flash_read E s n f)"
  proof (cases r)
    case True
    then have w: "spi_flash_write E s d f1 = (w, f2)" and b: "\<And>n. spi_flash_read E s n f1 = replicate n 0xFF"
      using assms(4) e by auto
    show ?thesis
    proof (cases w)
      case True
      then show ?thesis using flash_write [OF assms(1) _ b assms(3)] w by simp
    next
      case False
      then show ?thesis using flash_write_other [OF assms(1) w] b \<open>r\<close> by simp
    qed
  next
    case False
    then show ?thesis using assms(4) e by auto
  qed
qed

section \<open>The registry\<close>

abbreviation t_end :: "struct_tables \<Rightarrow> int" where
  "t_end t \<equiv> uint (m_table_address t) + uint (m_table_size t)"

abbreviation gap :: "struct_tables \<Rightarrow> struct_tables \<Rightarrow> bool" where
  "gap s t \<equiv> t_end s + 2 < uint (m_table_address t)"

definition table_of :: "table_class \<Rightarrow> struct_tables" where
  "table_of c = \<lparr>m_table_address = c_addr c, m_table_size = of_nat (length (c_default c)), m_instance = Some c\<rparr>"

definition registry_ok :: "u32 \<Rightarrow> struct_tables list \<Rightarrow> bool" where
  "registry_ok n ts \<longleftrightarrow> sorted_wrt (\<lambda>s t. m_table_address s < m_table_address t) ts \<and> sorted_wrt gap (tl ts) \<and>
     (\<forall>t \<in> set ts. t_end t + 2 < uint n)"

lemma last_loop_max:
  "last_loop ts l is \<in> insert l (set is) \<and> (\<forall>i \<in> insert l (set is). m_table_address (ts ! i) \<le> m_table_address (ts ! last_loop ts l is))"
proof (induction "is" arbitrary: l)
  case (Cons i "is")
  show ?case using Cons.IH [of "if m_table_address (ts ! l) < m_table_address (ts ! i) then i else l"] by (auto split: if_splits)
qed simp

lemma last_sorted:
  assumes "sorted_wrt (\<lambda>s t. m_table_address s < m_table_address t) ts" "ts \<noteq> []"
  shows "last_loop ts 0 [1..<length ts] = length ts - 1"
proof (rule ccontr)
  let ?l = "last_loop ts 0 [1..<length ts]"
  have m: "?l \<in> insert 0 (set [1..<length ts])" "\<And>i. i \<in> insert 0 (set [1..<length ts]) \<Longrightarrow> m_table_address (ts ! i) \<le> m_table_address (ts ! ?l)"
    using last_loop_max [of ts 0 "[1..<length ts]"] by blast+
  assume "?l \<noteq> length ts - 1"
  then have l: "?l < length ts - 1" using m(1) assms(2) by (cases "length ts") auto
  then have "m_table_address (ts ! ?l) < m_table_address (ts ! (length ts - 1))"
    using sorted_wrt_nth_less [OF assms(1) l] by simp
  moreover have "m_table_address (ts ! (length ts - 1)) \<le> m_table_address (ts ! ?l)" using l by (intro m(2)) auto
  ultimately show False by (meson leD)
qed

lemma get_last_sorted:
  assumes "registry_ok n (m_database_tables db)" "length (m_database_tables db) < 256"
  shows "get_last_table db = Some (if length (m_database_tables db) \<ge> 2 then last (m_database_tables db)
    else \<lparr>m_table_address = 0, m_table_size = 0, m_instance = None\<rparr>)"
proof (cases "m_database_tables db")
  case (Cons t ts)
  then show ?thesis using assms last_sorted [of "m_database_tables db"]
    by (auto simp: get_last_table_def registry_ok_def Let_def last_conv_nth)
qed (simp add: get_last_table_def Let_def)

lemma register_sorted:
  assumes "registry_ok (m_max_db_size db) (m_database_tables db)" "length (m_database_tables db) < 256"
  shows "register_table t db =
    (let ts = m_database_tables db; ok = (if length ts \<ge> 2 then gap (last ts) t else 2 < uint (m_table_address t)) \<and> t_end t + 2 < uint (m_max_db_size db)
     in Some (ok, if ok then db\<lparr>m_database_tables := ts @ [t]\<rparr> else db))"
  using assms by (auto simp: register_table_def get_last_sorted Let_def)

lemma gap_trans: "gap s t \<Longrightarrow> gap t u \<Longrightarrow> gap s u"
  using uint_ge_0 [of "m_table_size t"] by linarith

lemma sorted_wrt_last: "sorted_wrt P xs \<Longrightarrow> x \<in> set xs \<Longrightarrow> x = last xs \<or> P x (last xs)"
  by (cases xs rule: rev_cases) (auto simp: sorted_wrt_append)

lemma registry_snoc:
  assumes "registry_ok n ts" "\<forall>s \<in> set ts. m_table_address s < m_table_address t" "length ts \<ge> 2 \<longrightarrow> gap (last ts) t" "t_end t + 2 < uint n"
  shows "registry_ok n (ts @ [t])"
proof -
  have g: "gap s t" if "s \<in> set (tl ts)" for s
  proof -
    have "tl ts \<noteq> []" using that by auto
    then have l: "length ts \<ge> 2" "last (tl ts) = last ts" by (cases ts; cases "tl ts"; simp)+
    have "s = last (tl ts) \<or> gap s (last (tl ts))" 
      using sorted_wrt_last [of gap "tl ts" s] assms(1) that unfolding registry_ok_def by blast
    moreover have "gap (last (tl ts)) t" using assms(3) l by simp
    ultimately show ?thesis using gap_trans [of s "last (tl ts)" t] by blast
  qed
  have "sorted_wrt gap (tl (ts @ [t]))"
  proof (cases ts)
    case (Cons a as)
    then show ?thesis using g assms(1) by (simp add: registry_ok_def sorted_wrt_append)
  qed simp
  then show ?thesis using assms(1,2,4) by (simp add: registry_ok_def sorted_wrt_append)
qed

lemma table_boot_table_of: "table_boot c db = map_option snd (register_table (table_of c) db)"
  by (simp add: table_boot_def table_of_def)

text \<open>Booting the table classes in ascending order of their addresses.\<close>

lemma boot_all_registry:
  assumes "registry_ok (m_max_db_size db) (m_database_tables db)" "length (m_database_tables db) + length cs < 256"
    and "sorted_wrt (\<lambda>c d. c_addr c < c_addr d) cs" "\<forall>s \<in> set (m_database_tables db). \<forall>c \<in> set cs. m_table_address s < c_addr c"
  shows "\<exists>ts. boot_all cs db = Some (db\<lparr>m_database_tables := m_database_tables db @ ts\<rparr>) \<and> subseq ts (map table_of cs) \<and>
    registry_ok (m_max_db_size db) (m_database_tables db @ ts)"
  using assms
proof (induction cs arbitrary: db)
  case Nil
  then show ?case by (intro exI [of _ "[]"]) simp
next
  case (Cons c cs)
  let ?ts = "m_database_tables db" and ?t = "table_of c"
  obtain ok where ok: "register_table ?t db = Some (ok, if ok then db\<lparr>m_database_tables := ?ts @ [?t]\<rparr> else db)"
    "ok \<longleftrightarrow> (if length ?ts \<ge> 2 then gap (last ?ts) ?t else 2 < uint (m_table_address ?t)) \<and> t_end ?t + 2 < uint (m_max_db_size db)"
    using register_sorted [OF Cons.prems(1), of ?t] Cons.prems(2) unfolding Let_def by simp
  have addr: "m_table_address ?t = c_addr c" by (simp add: table_of_def)
  show ?case
  proof (cases ok)
    case True
    let ?db = "db\<lparr>m_database_tables := ?ts @ [?t]\<rparr>"
    have "length ?ts \<ge> 2 \<longrightarrow> gap (last ?ts) ?t" "t_end ?t + 2 < uint (m_max_db_size db)" using ok(2) True by presburger+
    then have "registry_ok (m_max_db_size ?db) (m_database_tables ?db)"
      using registry_snoc [OF Cons.prems(1), of ?t] Cons.prems(4) addr by simp
    from Cons.IH [OF this] obtain ts where "boot_all cs ?db = Some (?db\<lparr>m_database_tables := (?ts @ [?t]) @ ts\<rparr>)" "subseq ts (map table_of cs)"
      "registry_ok (m_max_db_size db) ((?ts @ [?t]) @ ts)"
      using Cons.prems(2-4) addr by auto
    then show ?thesis using ok(1) True
      by (intro exI [of _ "?t # ts"]) (simp add: table_boot_table_of)
  next
    case False
    from Cons.IH [OF Cons.prems(1)] obtain ts where "boot_all cs db = Some (db\<lparr>m_database_tables := ?ts @ ts\<rparr>)" "subseq ts (map table_of cs)"
      "registry_ok (m_max_db_size db) (?ts @ ts)"
      using Cons.prems(2-4) by auto
    then show ?thesis using ok(1) False
      by (intro exI [of _ ts]) (simp add: table_boot_table_of list_emb_Cons)
  qed
qed

lemma boot_all_fitting:
  assumes "registry_ok (m_max_db_size db) (m_database_tables db)" "length (m_database_tables db) + length cs < 256"
    and "sorted_wrt gap (m_database_tables db @ map table_of cs)"
    and "\<forall>c \<in> set cs. 2 < uint (c_addr c) \<and> t_end (table_of c) + 2 < uint (m_max_db_size db)"
  shows "boot_all cs db = Some (db\<lparr>m_database_tables := m_database_tables db @ map table_of cs\<rparr>)"
  using assms
proof (induction cs arbitrary: db)
  case (Cons c cs)
  let ?ts = "m_database_tables db" and ?t = "table_of c"
  have g: "\<forall>s \<in> set ?ts. gap s ?t" using Cons.prems(3) by (simp add: sorted_wrt_append)
  then have l: "length ?ts \<ge> 2 \<longrightarrow> gap (last ?ts) ?t" by (auto simp: neq_Nil_conv intro!: bspec [OF g] last_in_set)
  have b: "2 < uint (m_table_address ?t)" "t_end ?t + 2 < uint (m_max_db_size db)"
    using Cons.prems(4) by (simp_all add: table_of_def)
  have r: "register_table ?t db = Some (True, db\<lparr>m_database_tables := ?ts @ [?t]\<rparr>)"
    using register_sorted [OF Cons.prems(1), of ?t] Cons.prems(2) l b unfolding Let_def by simp
  have "m_table_address s < m_table_address ?t" if "s \<in> set ?ts" for s
    using bspec [OF g that] uint_ge_0 [of "m_table_size s"] unfolding word_less_def by linarith
  then have "registry_ok (m_max_db_size db) (?ts @ [?t])" by (intro registry_snoc [OF Cons.prems(1) _ l b(2)]) blast
  then show ?case using Cons.IH [of "db\<lparr>m_database_tables := ?ts @ [?t]\<rparr>"] Cons.prems(2-4) r
    by (simp add: table_boot_table_of)
qed simp

text \<open>
  C37. The table registry. With one table registered, the address of the next is compared with zero and not with the
  end of the first table. Booting the table classes in ascending order of their addresses always ends; the registered
  tables are some of them, in that order, all inside the database, and from the second one on they are separated.
  When the sizes leave gaps of three bytes, every table is registered and all tables are separated.
\<close>

theorem boot_registry:
  assumes "sorted_wrt (\<lambda>c d. c_addr c < c_addr d) cs" "length cs < 256" "m_database_tables db = []"
  shows "register_table t \<lparr>m_database_tables = [s], m_max_db_size = n\<rparr> =
      (if 2 < uint (m_table_address t) \<and> t_end t + 2 < uint n
       then Some (True, \<lparr>m_database_tables = [s, t], m_max_db_size = n\<rparr>)
       else Some (False, \<lparr>m_database_tables = [s], m_max_db_size = n\<rparr>)) \<and>
    (\<exists>ts. init_database cs n db = Some \<lparr>m_database_tables = ts, m_max_db_size = n\<rparr> \<and> subseq ts (map table_of cs) \<and>
      (\<forall>t \<in> set ts. t_end t + 2 < uint n) \<and> sorted_wrt gap (tl ts)) \<and>
    (sorted_wrt gap (map table_of cs) \<and> (\<forall>c \<in> set cs. 2 < uint (c_addr c) \<and> t_end (table_of c) + 2 < uint n) \<longrightarrow>
      init_database cs n db = Some \<lparr>m_database_tables = map table_of cs, m_max_db_size = n\<rparr>)"
proof (intro conjI impI)
  let ?db = "db\<lparr>m_max_db_size := n\<rparr>"
  have db: "?db\<lparr>m_database_tables := ts\<rparr> = \<lparr>m_database_tables = ts, m_max_db_size = n\<rparr>" for ts by (cases db) simp
  have ok: "registry_ok (m_max_db_size ?db) (m_database_tables ?db)" using assms(3) by (simp add: registry_ok_def)
  show "register_table t \<lparr>m_database_tables = [s], m_max_db_size = n\<rparr> =
      (if 2 < uint (m_table_address t) \<and> t_end t + 2 < uint n
       then Some (True, \<lparr>m_database_tables = [s, t], m_max_db_size = n\<rparr>)
       else Some (False, \<lparr>m_database_tables = [s], m_max_db_size = n\<rparr>))"
    by (simp add: register_table_def get_last_table_def)
  show "\<exists>ts. init_database cs n db = Some \<lparr>m_database_tables = ts, m_max_db_size = n\<rparr> \<and> subseq ts (map table_of cs) \<and>
      (\<forall>t \<in> set ts. t_end t + 2 < uint n) \<and> sorted_wrt gap (tl ts)"
    using boot_all_registry [OF ok, of cs] assms db by (auto simp: init_database_def registry_ok_def)
  assume "sorted_wrt gap (map table_of cs) \<and> (\<forall>c \<in> set cs. 2 < uint (c_addr c) \<and> t_end (table_of c) + 2 < uint n)"
  then show "init_database cs n db = Some \<lparr>m_database_tables = map table_of cs, m_max_db_size = n\<rparr>"
    using boot_all_fitting [OF ok, of cs] assms db by (simp add: init_database_def)
qed

text \<open>The addresses of the tables of the framework, with objects that fill the space up to the next table.\<close>

definition framework_tables :: "table_class list" where
  "framework_tables = map (\<lambda>(a, n). \<lparr>c_addr = a, c_default = replicate n 0\<rparr>)
     [(5, 42), (50, 97), (150, 147), (300, 197), (500, 197), (700, 797), (1500, 197), (1700, 297), (2000, 597), (2600, 1400)]"

theorem boot_registry_witness:
  "init_database framework_tables 4096 \<lparr>m_database_tables = [], m_max_db_size = 0\<rparr> =
     Some \<lparr>m_database_tables = map table_of framework_tables, m_max_db_size = 4096\<rparr> \<and>
   register_table \<lparr>m_table_address = 10, m_table_size = 8, m_instance = None\<rparr>
     \<lparr>m_database_tables = [\<lparr>m_table_address = 5, m_table_size = 100, m_instance = None\<rparr>], m_max_db_size = 4096\<rparr> =
     Some (True, \<lparr>m_database_tables = [\<lparr>m_table_address = 5, m_table_size = 100, m_instance = None\<rparr>,
       \<lparr>m_table_address = 10, m_table_size = 8, m_instance = None\<rparr>], m_max_db_size = 4096\<rparr>)"
proof -
  have "sorted_wrt (\<lambda>c d. c_addr c < c_addr d) framework_tables" "length framework_tables < 256"
    "sorted_wrt gap (map table_of framework_tables)"
    "\<forall>c \<in> set framework_tables. 2 < uint (c_addr c) \<and> t_end (table_of c) + 2 < uint (4096 :: u32)"
    by (simp_all add: framework_tables_def table_of_def)
  then show ?thesis
    using boot_registry [of framework_tables "\<lparr>m_database_tables = [], m_max_db_size = 0\<rparr>"
        "\<lparr>m_table_address = 10, m_table_size = 8, m_instance = None\<rparr>" "\<lparr>m_table_address = 5, m_table_size = 100, m_instance = None\<rparr>" 4096]
    by simp
qed

section \<open>Tables and the flash\<close>


text \<open>A flash in memory whose operations stop working after a number of steps, when it is limited.\<close>

type_synonym ram = "(u32 \<Rightarrow> nat \<Rightarrow> byte) \<times> nat"

definition ram_flash :: "bool \<Rightarrow> ram flash_env" where
  "ram_flash limited = \<lparr>
     spi_flash_read = \<lambda>s n (m, k). map (m s) [0..<n],
     spi_flash_erase_sector = \<lambda>s (m, k). if limited \<and> k = 0 then (False, m, k) else (True, m(s := \<lambda>i. 0xFF), k - 1),
     spi_flash_write = \<lambda>s d (m, k). if limited \<and> k = 0 then (False, m, k)
       else (True, m(s := \<lambda>i. if i < length d then m s i AND d ! i else m s i), k - 1)\<rparr>"

lemma all_ones:
  assumes "\<forall>n. map g [0..<n] = replicate n (0xFF :: byte)"
  shows "g i = 0xFF"
  using arg_cong [OF spec [OF assms, of "Suc i"], of "\<lambda>l. l ! i"] by (simp del: upt_Suc replicate_Suc)

lemma and_ones: "(0xFF :: byte) AND x = x"
proof -
  have "(0xFF :: byte) = -1" by simp
  then show ?thesis by (simp only: and.left_neutral)
qed

lemma ram_flash_device: "flash_device (ram_flash limited)"
  unfolding flash_device_def ram_flash_def
  by (auto simp: map_replicate_const all_ones and_ones split: if_splits intro!: nth_equalityI)

definition image :: "byte list \<Rightarrow> nat \<Rightarrow> ram" where
  "image d k = ((\<lambda>s i. if i < length d then d ! i else 0xFF), k)"


text \<open>Operations on tables look at the bytes only.\<close>

lemma get_table_cong:
  assumes "isValidConfigs e = isValidConfigs e'"
    and "isValidConfigs e \<Longrightarrow> \<forall>i < length obj. eeprom_read (uint a + int i) e = eeprom_read (uint a + int i) e'"
  shows "get_table a obj db e = get_table a obj db e'"
proof -
  have "loadConfig a obj e = loadConfig a obj e'"
    using assms by (cases "isValidConfigs e") (auto simp: loadConfig_def)
  then show ?thesis by (simp only: get_table_def)
qed

lemma valid_configs_cong:
  assumes "\<forall>x \<in> {5, 6, 7}. eeprom_read x e = eeprom_read x e'"
  shows "isValidConfigs e = isValidConfigs e'"
  using assms by (simp add: isValidConfigs_def)

lemma has_validity_reads:
  assumes "e_data e = Some d" "length d = e_size e" "4 \<le> e_size e"
  shows "has_validity d \<longleftrightarrow> (\<forall>i < 4. eeprom_read (int i) e = EEPROM_VALIDITY_BYTES ! i)"
proof -
  have "length EEPROM_VALIDITY_BYTES = 4" by (simp add: EEPROM_VALIDITY_BYTES_def)
  then show ?thesis using assms by (auto simp: has_validity_def list_eq_iff_nth_eq eeprom_read_def)
qed

lemma commit_stored:
  assumes "flash_device E" "\<forall>f. fst (spi_flash_erase_sector E s f)" "\<forall>d f. fst (spi_flash_write E s d f)"
    and "e_data e = Some d" "length d = n" "e_size e = n" "0 < n" "has_validity d" "e_dirty e" "e_sector e = s" "e_copy_sector e \<noteq> s"
    and "eeprom_commit E (e, f) = (r, e', f')"
  shows "e' = e\<lparr>e_dirty := False\<rparr>" "stored E s n f' = d"
proof -
  obtain r1 f1 w1 f2 r2 f3 w2 f4 where o:
    "spi_flash_erase_sector E s f = (r1, f1)" "(if r1 then spi_flash_write E s d f1 else (False, f1)) = (w1, f2)"
    "spi_flash_erase_sector E (e_copy_sector e) f2 = (r2, f3)"
    "(if r2 then spi_flash_write E (e_copy_sector e) d f3 else (False, f3)) = (w2, f4)"
    by (metis surj_pair)
  have ok: "r1" "w1" using o(1,2) assms(2,3) by (metis fst_conv)+
  have c: "eeprom_commit E (e, f) = (w1, e\<lparr>e_dirty := \<not> w1\<rparr>, f4)"
    by (rule commit_dirty) (use assms o in auto)
  show "e' = e\<lparr>e_dirty := False\<rparr>" using c assms(12) ok by simp
  have "spi_flash_read E s n f4 = d"
    using rewrite_sector(1) [OF assms(1) o(1) assms(5) o(2)] rewrite_sector(2) [OF assms(1) o(3) assms(5) o(4), of s n] assms(11) ok by simp
  then show "stored E s n f' = d" using c assms(8,12) by (simp add: stored_def recovered_def)
qed

text \<open>
  A start finds the bytes of \<open>e\<close>: the sector is that of \<open>e\<close>, and the copy is where it always is.
\<close>

definition synced :: "'f flash_env \<Rightarrow> EW_EEPROMClass \<Rightarrow> 'f \<Rightarrow> bool" where
  "synced E e f \<longleftrightarrow> (\<exists>d. e_data e = Some d \<and> length d = e_size e \<and> has_validity d \<and> stored E (e_sector e) (e_size e) f = d) \<and>
     0 < e_size e \<and> e_size e \<le> SPI_FLASH_SEC_SIZE \<and> 4 dvd e_size e \<and> e_copy_sector e = 255 \<and> e_sector e \<noteq> 255"

lemma saveConfig_spec:
  assumes "flash_device E" "\<forall>f. fst (spi_flash_erase_sector E (e_sector e) f)" "\<forall>d f. fst (spi_flash_write E (e_sector e) d f)"
    and "synced E e f" "4 \<le> uint a" "uint a + int (length obj) \<le> int (e_size e)" "saveConfig E a obj (e, f) = (e', f')"
  shows "synced E e' f' \<and> e_sector e' = e_sector e \<and> e_size e' = e_size e \<and>
    (\<forall>x. eeprom_read x e' = (if uint a \<le> x \<and> x < uint a + int (length obj) then obj ! nat (x - uint a) else eeprom_read x e))"
proof -
  have m: "mounted e" using assms(4) by (auto simp: synced_def mounted_def)
  obtain w e1 where l: "save_loop (uint a) obj (False, e) = (w, e1)" by fastforce
  note L = save_loop_spec [OF m _ assms(6) l, simplified]
  show ?thesis
  proof (cases w)
    case True
    obtain d where d: "e_data e = Some d" "length d = e_size e" "has_validity d" using assms(4) by (auto simp: synced_def)
    obtain d1 where d1: "e_data e1 = Some d1" "length d1 = e_size e1" using L by (auto simp: mounted_def)
    have four: "4 \<le> e_size e" using assms(4) by (auto simp: synced_def elim: dvdE)
    then have v: "has_validity d1"
      using has_validity_reads [OF d(1,2)] has_validity_reads [OF d1] d(3) L assms(5) by auto
    have c: "snd (eeprom_commit E (e1, f)) = (e', f')" using assms(7) l True by (simp add: saveConfig_def)
    then obtain r where r: "eeprom_commit E (e1, f) = (r, e', f')" by (cases "eeprom_commit E (e1, f)") auto
    have "e' = e1\<lparr>e_dirty := False\<rparr>" "stored E (e_sector e) (e_size e) f' = d1"
      using commit_stored [OF assms(1-3) d1(1) _ _ _ v _ _ _ r, of "e_size e"] d1(2) L True four assms(4) by (auto simp: synced_def)
    then show ?thesis using assms(4) L d1 v by (simp add: synced_def)
  next
    case False
    then have eq: "e' = e1" "f' = f" "e1 = e" using assms(7) l L by (auto simp: saveConfig_def)
    then have "synced E e1 f" using assms(4) by simp
    then show ?thesis unfolding eq(1,2) using L by blast
  qed
qed

lemma synced_restart:
  assumes "flash_device E" "synced E e f"
  shows "eeprom_read x (fst (eeprom_begin E (e_size e) (eeprom_new (e_sector e), f))) = eeprom_read x e"
proof -
  have n: "0 < e_size e" "e_size e \<le> SPI_FLASH_SEC_SIZE" "4 dvd e_size e" "e_data e = Some (stored E (e_sector e) (e_size e) f)"
    using assms(2) by (auto simp: synced_def)
  show ?thesis using begin_stored [OF assms(1) n(1-3), of "e_sector e" f] n(4) by (auto simp: eeprom_read_def)
qed

text \<open>
  C11. Configuration tables on a working flash. What is stored in a registered table is what a load returns, tables
  that do not overlap it keep their content, and after a restart every table is loaded as before it. The bytes that
  mark the configuration as valid are those of the first table, so the table is either behind them or sets them.
\<close>

theorem set_table_get_table:
  assumes "flash_device E" "\<forall>f. fst (spi_flash_erase_sector E (e_sector e) f)" "\<forall>d f. fst (spi_flash_write E (e_sector e) d f)"
    and "synced E e f" "table_known a db = Some True" "uint a + int (length obj) \<le> int (e_size e)"
    and "8 \<le> uint a \<and> isValidConfigs e \<or> a = 5 \<and> 3 \<le> length obj \<and> take 3 obj = CONFIG_VERSION"
  shows "\<exists>e' f'. set_table E a obj db (e, f) = Some (True, e', f') \<and> synced E e' f' \<and>
    (\<forall>obj'. length obj' = length obj \<longrightarrow> get_table a obj' db e' = Some (True, obj)) \<and>
    (isValidConfigs e \<longrightarrow> (\<forall>b obj'. uint b + int (length obj') \<le> uint a \<or> uint a + int (length obj) \<le> uint b \<longrightarrow>
       get_table b obj' db e' = get_table b obj' db e)) \<and>
    (\<forall>b obj'. get_table b obj' db (fst (eeprom_begin E (e_size e) (eeprom_new (e_sector e), f'))) = get_table b obj' db e')"
proof -
  obtain e' f' where s: "saveConfig E a obj (e, f) = (e', f')" by fastforce
  have "4 \<le> uint a" using assms(7) by auto
  note S = saveConfig_spec [OF assms(1-4) this assms(6) s]
  have R: "eeprom_read x e' = (if uint a \<le> x \<and> x < uint a + int (length obj) then obj ! nat (x - uint a) else eeprom_read x e)" for x
    using S by simp
  have S': "synced E e' f'" "e_sector e' = e_sector e" "e_size e' = e_size e" using S by simp_all
  note restart = synced_restart [OF assms(1) S'(1), unfolded S'(2,3)]
  have v: "isValidConfigs e'"
  proof (cases "8 \<le> uint a")
    case True
    then have "isValidConfigs e" "isValidConfigs e' = isValidConfigs e" using assms(7) R by (auto intro!: valid_configs_cong)
    then show ?thesis by simp
  next
    case False
    then have a: "a = 5" "3 \<le> length obj" "take 3 obj = CONFIG_VERSION" using assms(7) by auto
    have "obj ! i = CONFIG_VERSION ! i" if "i < 3" for i using that nth_take [of i 3 obj] unfolding a(3) by simp
    with a(1,2) show ?thesis by (auto simp: isValidConfigs_def R)
  qed
  have "loadConfig a obj' e' = obj" if "length obj' = length obj" for obj'
    unfolding loadConfig_def using v that by (auto intro!: nth_equalityI simp: R)
  then have "\<forall>obj'. length obj' = length obj \<longrightarrow> get_table a obj' db e' = Some (True, obj)"
    using assms(5) by (simp add: get_table_def)
  moreover have "get_table b obj' db e' = get_table b obj' db e"
    if "isValidConfigs e" "uint b + int (length obj') \<le> uint a \<or> uint a + int (length obj) \<le> uint b" for b obj'
    using that v by (intro get_table_cong) (auto simp: R)
  moreover have "get_table b obj' db (fst (eeprom_begin E (e_size e) (eeprom_new (e_sector e), f'))) = get_table b obj' db e'" for b obj'
    by (intro get_table_cong valid_configs_cong) (simp_all add: restart)
  moreover have "set_table E a obj db (e, f) = Some (True, e', f')" using assms(5) s by (simp add: set_table_def)
  ultimately show ?thesis using S'(1) by (intro exI [of _ e'] exI [of _ f']) simp
qed

definition witness_config :: EW_EEPROMClass where
  "witness_config = \<lparr>e_sector = 251, e_copy_sector = 255, e_data = Some (EEPROM_VALIDITY_BYTES @ 0 # CONFIG_VERSION @ [0, 0, 0, 5]), e_size = 12, e_dirty = False\<rparr>"

theorem set_table_get_table_witness:
  "let db = \<lparr>m_database_tables = [\<lparr>m_table_address = 8, m_table_size = 2, m_instance = None\<rparr>], m_max_db_size = 12\<rparr>;
       d = the (e_data witness_config)
   in \<exists>e' f'. set_table (ram_flash False) 8 [7, 9] db (witness_config, image d 0) = Some (True, e', f') \<and>
        get_table 8 [0, 0] db (fst (eeprom_begin (ram_flash False) 12 (eeprom_new 251, f'))) = Some (True, [7, 9])"
proof -
  let ?db = "\<lparr>m_database_tables = [\<lparr>m_table_address = 8, m_table_size = 2, m_instance = None\<rparr>], m_max_db_size = 12\<rparr>"
  let ?d = "the (e_data witness_config)"
  have v: "isValidConfigs witness_config" by (simp add: isValidConfigs_def witness_config_def eeprom_read_def EEPROM_VALIDITY_BYTES_def CONFIG_VERSION_def)
  have w: "e_data witness_config = Some ?d" "length ?d = 12" "has_validity ?d" "e_sector witness_config = 251" "e_size witness_config = 12" "e_copy_sector witness_config = 255"
    by (simp_all add: witness_config_def has_validity_def EEPROM_VALIDITY_BYTES_def CONFIG_VERSION_def)
  have r: "spi_flash_read (ram_flash False) s 12 (image ?d 0) = ?d" for s
    using w(2) by (simp add: ram_flash_def image_def list_eq_iff_nth_eq)
  have s: "synced (ram_flash False) witness_config (image ?d 0)" using w r by (simp add: synced_def stored_def recovered_def)
  have ok: "\<forall>f. fst (spi_flash_erase_sector (ram_flash False) s f)" "\<forall>d f. fst (spi_flash_write (ram_flash False) s d f)" for s
    by (simp_all add: ram_flash_def)
  have k: "table_known 8 ?db = Some True" by (simp add: table_known_def)
  have b: "uint (8 :: u16) + int (length [7, 9 :: byte]) \<le> int (e_size witness_config)" using w by simp
  have c: "8 \<le> uint (8 :: u16) \<and> isValidConfigs witness_config \<or> (8 :: u16) = 5 \<and> 3 \<le> length [7, 9 :: byte] \<and> take 3 [7, 9] = CONFIG_VERSION"
    using v by simp
  note T = set_table_get_table [OF ram_flash_device ok s k b c, unfolded w(4,5)]
  obtain e' f' where "set_table (ram_flash False) 8 [7, 9] ?db (witness_config, image ?d 0) = Some (True, e', f')"
    "get_table 8 [0, 0] ?db e' = Some (True, [7, 9])"
    "get_table 8 [0, 0] ?db (fst (eeprom_begin (ram_flash False) 12 (eeprom_new 251, f'))) = get_table 8 [0, 0] ?db e'"
    using T by auto
  then show ?thesis unfolding Let_def by (intro exI [of _ e'] exI [of _ f'] conjI) (simp_all only:)
qed

end
