(* ===== verification/SshPacket.thy ===== *)
theory SshPacket
  imports Aes Sha1 Sha256
begin

text \<open>
  The packet layer of the remote shell (\<^verbatim>\<open>service_provider/shell/ssh/SSHServiceUtil.cpp\<close>): strings, name lists and
  large integers on the wire, packets in clear and encrypted with a message authentication code, and the derivation
  of the keys. The bytes that have arrived are a list; sizes are 32 bits wide, as on the supported boards.
\<close>

section \<open>Model\<close>

text \<open>
  The outcome of an operation that indexes buffers without checks: \<open>Oob\<close> is an access outside a buffer,
  \<open>NoReturn\<close> a computation that does not end.
\<close>

datatype 'a outcome = Oob | NoReturn | Done 'a

definition and_then :: "'a option outcome \<Rightarrow> ('a \<Rightarrow> 'b option outcome) \<Rightarrow> 'b option outcome" where
  "and_then m k = (case m of Oob \<Rightarrow> Oob | NoReturn \<Rightarrow> NoReturn | Done None \<Rightarrow> Done None | Done (Some x) \<Rightarrow> k x)"

subsection \<open>Numbers, strings and lists of names\<close>

definition get_u32 :: "byte list \<Rightarrow> nat \<Rightarrow> u32" where
  "get_u32 p k = push_bit 24 (ucast (p ! k)) OR push_bit 16 (ucast (p ! (k + 1))) OR push_bit 8 (ucast (p ! (k + 2))) OR ucast (p ! (k + 3))"

definition put_u32 :: "u32 \<Rightarrow> byte list" where
  "put_u32 w = [ucast (drop_bit 24 w AND 0xFF), ucast (drop_bit 16 w AND 0xFF), ucast (drop_bit 8 w AND 0xFF), ucast (w AND 0xFF)]"

definition append_ssh_string :: "byte list \<Rightarrow> byte list \<Rightarrow> byte list" where
  "append_ssh_string out data = out @ put_u32 (of_nat (length data)) @ data"

text \<open>The sum of the offset and the length is computed with 32 bits.\<close>

definition read_ssh_string :: "byte list \<Rightarrow> nat \<Rightarrow> (byte list \<times> nat) option outcome" where
  "read_ssh_string payload offset =
     (if offset + 4 > length payload then Done None
      else
        (let len = get_u32 payload offset; offset = offset + 4 in
         if unat (of_nat offset + len :: u32) > length payload then Done None
         else if offset + unat len > length payload then Oob
         else Done (Some (take (unat len) (drop offset payload), offset + unat len))))"

fun name_loop :: "byte list \<Rightarrow> byte list \<Rightarrow> byte list list" where
  "name_loop name [] = (if name \<noteq> [] then [name] else [])"
| "name_loop name (c # cs) = (if c = 0x2C then name # name_loop [] cs else name_loop (name @ [c]) cs)"

definition parse_name_list :: "byte list \<Rightarrow> nat \<Rightarrow> (byte list list \<times> nat) option outcome" where
  "parse_name_list payload offset =
     (if offset + 4 > length payload then Done None
      else
        (let len = get_u32 payload offset; offset = offset + 4 in
         if unat (of_nat offset + len :: u32) > length payload then Done None
         else if offset + unat len > length payload then Oob
         else Done (Some (name_loop [] (take (unat len) (drop offset payload)), offset + unat len))))"

fun join_names :: "byte list list \<Rightarrow> byte list" where
  "join_names [] = []"
| "join_names [n] = n"
| "join_names (n # ns) = n @ [0x2C] @ join_names ns"

definition append_name_list :: "byte list \<Rightarrow> byte list list \<Rightarrow> byte list" where
  "append_name_list out names = (let joined = join_names names in out @ put_u32 (of_nat (length joined)) @ joined)"

definition append_mpint :: "byte list \<Rightarrow> byte list \<Rightarrow> byte list" where
  "append_mpint out data =
     (let d = dropWhile (\<lambda>b. b = 0) data; prepend_zero = (d \<noteq> [] \<and> hd d AND 0x80 \<noteq> 0);
          total_len = length d + (if prepend_zero then 1 else 0)
      in out @ put_u32 (of_nat total_len) @ (if prepend_zero then [0] else []) @ d)"

subsection \<open>Key exchange messages\<close>

record SSHKexInitFields =
  kx_cookie :: "byte list"
  kex_algorithms :: "byte list list"
  server_host_key_algorithms :: "byte list list"
  encryption_algorithms_ctos :: "byte list list"
  encryption_algorithms_stoc :: "byte list list"
  mac_algorithms_ctos :: "byte list list"
  mac_algorithms_stoc :: "byte list list"
  compression_algorithms_ctos :: "byte list list"
  compression_algorithms_stoc :: "byte list list"
  languages_ctos :: "byte list list"
  languages_stoc :: "byte list list"
  first_kex_packet_follows :: bool
  kx_reserved :: u32

abbreviation (input) "SSH2_MSG_SERVICE_REQUEST \<equiv> (5 :: byte)"
abbreviation (input) "SSH2_MSG_SERVICE_ACCEPT \<equiv> (6 :: byte)"
abbreviation (input) "SSH2_MSG_KEXINIT \<equiv> (20 :: byte)"
abbreviation (input) "SSH2_MSG_NEWKEYS \<equiv> (21 :: byte)"
abbreviation (input) "SSH2_MSG_KEXDH_INIT \<equiv> (30 :: byte)"
abbreviation (input) "SSH2_MSG_KEXDH_REPLY \<equiv> (31 :: byte)"
abbreviation (input) "SSH2_MSG_USERAUTH_REQUEST \<equiv> (50 :: byte)"
abbreviation (input) "SSH2_MSG_USERAUTH_FAILURE \<equiv> (51 :: byte)"
abbreviation (input) "SSH2_MSG_USERAUTH_SUCCESS \<equiv> (52 :: byte)"

definition ascii :: "string \<Rightarrow> byte list" where
  "ascii s = map (\<lambda>c. of_nat (of_char c)) s"

definition parse_kex_init_fields :: "byte list \<Rightarrow> SSHKexInitFields option outcome" where
  "parse_kex_init_fields p =
     (if length p < 17 \<or> p ! 0 \<noteq> SSH2_MSG_KEXINIT then Done None
      else
        and_then (parse_name_list p 17) (\<lambda>(kex, off).
        and_then (parse_name_list p off) (\<lambda>(hostkey, off).
        and_then (parse_name_list p off) (\<lambda>(enc_ctos, off).
        and_then (parse_name_list p off) (\<lambda>(enc_stoc, off).
        and_then (parse_name_list p off) (\<lambda>(mac_ctos, off).
        and_then (parse_name_list p off) (\<lambda>(mac_stoc, off).
        and_then (parse_name_list p off) (\<lambda>(comp_ctos, off).
        and_then (parse_name_list p off) (\<lambda>(comp_stoc, off).
        and_then (parse_name_list p off) (\<lambda>(lang_ctos, off).
        and_then (parse_name_list p off) (\<lambda>(lang_stoc, off).
          if off \<ge> length p then Done None
          else if off + 1 + 4 > length p then Done None
          else Done (Some \<lparr>kx_cookie = take 16 (drop 1 p), kex_algorithms = kex, server_host_key_algorithms = hostkey,
            encryption_algorithms_ctos = enc_ctos, encryption_algorithms_stoc = enc_stoc, mac_algorithms_ctos = mac_ctos,
            mac_algorithms_stoc = mac_stoc, compression_algorithms_ctos = comp_ctos, compression_algorithms_stoc = comp_stoc,
            languages_ctos = lang_ctos, languages_stoc = lang_stoc, first_kex_packet_follows = (p ! off \<noteq> 0),
            kx_reserved = get_u32 p (off + 1)\<rparr>))))))))))))"

definition prepare_server_kexinit :: "(nat \<Rightarrow> byte) \<Rightarrow> byte list" where
  "prepare_server_kexinit rnd =
     (let kex = [ascii ''curve25519-sha256'']; hostkey = [ascii ''ssh-ed25519'']; enc = [ascii ''aes128-ctr''];
          mac = [ascii ''hmac-sha1'']; comp = [ascii ''none''];
          payload = [SSH2_MSG_KEXINIT] @ map rnd [0..<16];
          payload = foldl append_name_list payload [kex, hostkey, enc, enc, mac, mac, comp, comp, [], []]
      in payload @ [0] @ [0, 0, 0, 0])"

definition parse_kex_ecdh_init :: "byte list \<Rightarrow> byte list option" where
  "parse_kex_ecdh_init p =
     (if length p < 1 \<or> p ! 0 \<noteq> SSH2_MSG_KEXDH_INIT then None
      else if 1 + 4 > length p then None
      else if get_u32 p 1 \<noteq> 32 \<or> 5 + 32 > length p then None
      else Some (take 32 (drop 5 p)))"

definition build_exchange_hash :: "byte list \<Rightarrow> byte list \<Rightarrow> byte list \<Rightarrow> byte list \<Rightarrow> byte list \<Rightarrow> byte list \<Rightarrow> byte list \<Rightarrow> byte list \<Rightarrow> byte list" where
  "build_exchange_hash client_version server_version client_kexinit server_kexinit host_key client_pub server_pub secret =
     (let inp = foldl append_ssh_string [] [client_version, server_version, client_kexinit, server_kexinit, host_key, client_pub, server_pub];
          inp = append_mpint inp secret
      in sha256 sha256_blank inp (of_nat (length inp)))"

text \<open>The input is assembled in a buffer of 1024 bytes; of a longer key only the first 32 bytes are written.\<close>

definition derive_key :: "byte list \<Rightarrow> byte list \<Rightarrow> byte list \<Rightarrow> char \<Rightarrow> byte list \<Rightarrow> byte list outcome" where
  "derive_key K H session_id key_type out =
     (let buf = K @ H @ [of_nat (of_char key_type)] @ session_id; hash = sha256 sha256_blank buf (of_nat (length buf)) in
      if length buf > 1024 then Oob
      else if length out \<le> 32 then Done (take (length out) hash)
      else Done (hash @ drop 32 out))"

subsection \<open>Sessions and packets\<close>

datatype SessionState =
    SESSION_STATE_WAITING_FOR_CLIENT | SESSION_STATE_CLIENT_CONNECTED | SESSION_STATE_VEX_SEND | SESSION_STATE_VEX_RECV
  | SESSION_STATE_KEX_INIT_RECV | SESSION_STATE_KEX_INIT_SEND | SESSION_STATE_KEXDH_INIT_RECV | SESSION_STATE_KEXDH_INIT_SEND
  | SESSION_STATE_NEWKEYS_RECEIVED | SESSION_STATE_AUTHENTICATION_REQUEST | SESSION_STATE_CHANNEL_REQUEST
  | SESSION_STATE_SESSION_ESTABLISHED | SESSION_STATE_SESSION_TIMEOUT | SESSION_STATE_SESSION_CLOSE

text \<open>The states are compared with that of the received keys only.\<close>

fun past_newkeys :: "SessionState \<Rightarrow> bool" where
  "past_newkeys SESSION_STATE_AUTHENTICATION_REQUEST = True"
| "past_newkeys SESSION_STATE_CHANNEL_REQUEST = True"
| "past_newkeys SESSION_STATE_SESSION_ESTABLISHED = True"
| "past_newkeys SESSION_STATE_SESSION_TIMEOUT = True"
| "past_newkeys SESSION_STATE_SESSION_CLOSE = True"
| "past_newkeys _ = False"

record LWSSHSession =
  m_state :: SessionState
  m_sshpacket :: "byte list"
  m_ecdh_client_pubkey :: "byte list"
  m_server_version :: "byte list"
  m_client_version :: "byte list"
  m_client_kexinit :: "byte list"
  m_server_kexinit :: "byte list"
  m_server_kex_init_sent :: byte
  m_server_ephermeral_pubkey :: "byte list"
  m_server_ephermeral_privkey :: "byte list"
  m_shared_secret_key :: "byte list"
  m_exchange_hash_h :: "byte list"
  derived_iv_ctos :: "byte list"
  derived_iv_stoc :: "byte list"
  derived_enc_key_ctos :: "byte list"
  derived_enc_key_stoc :: "byte list"
  derived_mac_key_ctos :: "byte list"
  derived_mac_key_stoc :: "byte list"
  aes_ctx_ctos :: AES_ctx
  aes_ctx_stoc :: AES_ctx
  packets_seq_num_ctos :: u32
  packets_seq_num_stoc :: u32

text \<open>The constructor leaves the two cipher contexts as they are.\<close>

definition ssh_session_new :: "AES_ctx \<Rightarrow> AES_ctx \<Rightarrow> LWSSHSession" where
  "ssh_session_new c1 c2 = \<lparr>m_state = SESSION_STATE_WAITING_FOR_CLIENT, m_sshpacket = [], m_ecdh_client_pubkey = [],
     m_server_version = ascii ''SSH-2.0-LWSSH_0.1'', m_client_version = [], m_client_kexinit = [], m_server_kexinit = [],
     m_server_kex_init_sent = 0, m_server_ephermeral_pubkey = [], m_server_ephermeral_privkey = [],
     m_shared_secret_key = replicate 32 0, m_exchange_hash_h = replicate 32 0,
     derived_iv_ctos = replicate 16 0, derived_iv_stoc = replicate 16 0, derived_enc_key_ctos = replicate 16 0,
     derived_enc_key_stoc = replicate 16 0, derived_mac_key_ctos = replicate 20 0, derived_mac_key_stoc = replicate 20 0,
     aes_ctx_ctos = c1, aes_ctx_stoc = c2, packets_seq_num_ctos = 0, packets_seq_num_stoc = 0\<rparr>"

definition prepare_ssh_packet :: "(nat \<Rightarrow> byte) \<Rightarrow> nat \<Rightarrow> byte list \<Rightarrow> byte list" where
  "prepare_ssh_packet rnd block_size payload =
     (let min_packet_len = length payload + 1 + 4;
          padding_len = block_size - min_packet_len mod block_size;
          padding_len = (if padding_len < 4 then padding_len + block_size else padding_len);
          packet_length = of_nat (length payload + padding_len + 1) :: u32
      in put_u32 packet_length @ [of_nat padding_len] @ payload @ map rnd [0..<padding_len])"

definition encrypt_ssh_payload :: "LWSSHSession \<Rightarrow> byte list \<Rightarrow> (byte list \<times> LWSSHSession) outcome" where
  "encrypt_ssh_payload ss payload =
     (case hmac_sha1 64 sha1_blank (derived_mac_key_stoc ss) (put_u32 (packets_seq_num_stoc ss) @ payload) of
        None \<Rightarrow> NoReturn
      | Some computed_mac \<Rightarrow>
          (let (payload, ctx) = AES_CTR_xcrypt_buffer (aes_ctx_stoc ss) payload
           in Done (payload @ computed_mac, ss\<lparr>aes_ctx_stoc := ctx\<rparr>)))"

text \<open>
  \<open>sent\<close> tells whether the client accepts all bytes; the result has the bytes then. A packet that is not sent still
  advances the cipher.
\<close>

definition send_server_ssh_packet :: "(nat \<Rightarrow> byte) \<Rightarrow> bool \<Rightarrow> LWSSHSession \<Rightarrow> byte list \<Rightarrow> bool \<Rightarrow> (bool \<times> byte list \<times> LWSSHSession) outcome" where
  "send_server_ssh_packet rnd sent ss payload encrypt =
     (if encrypt \<and> past_newkeys (m_state ss)
      then (case encrypt_ssh_payload ss (prepare_ssh_packet rnd 16 payload) of
              Oob \<Rightarrow> Oob
            | NoReturn \<Rightarrow> NoReturn
            | Done (wire, ss) \<Rightarrow>
                Done (if sent then (True, wire, ss\<lparr>packets_seq_num_stoc := packets_seq_num_stoc ss + 1\<rparr>) else (False, [], ss)))
      else Done (if sent then (True, prepare_ssh_packet rnd 8 payload, ss\<lparr>packets_seq_num_stoc := packets_seq_num_stoc ss + 1\<rparr>)
                 else (False, [], ss)))"

definition parse_received_packet :: "byte list \<Rightarrow> LWSSHSession \<Rightarrow> (int \<times> byte list \<times> LWSSHSession) outcome" where
  "parse_received_packet inp ss =
     (if length inp < 5 then Done (1, inp, ss)
      else
        (let packet_length = get_u32 inp 0; padding_length = inp ! 4;
             payload_length = packet_length - ucast padding_length - 1;
             inp = drop 5 inp;
             payload = take (unat payload_length) inp;
             inp = drop (unat padding_length) (drop (unat payload_length) inp);
             ss = ss\<lparr>m_sshpacket := payload, packets_seq_num_ctos := packets_seq_num_ctos ss + 1\<rparr>
         in if length payload \<noteq> unat payload_length then Done (-1, inp, ss)
            else if payload = [] then Oob
            else Done (if hd payload < 101 then 0 else -1, inp, ss)))"

text \<open>Without a handler for large channel data.\<close>

definition parse_encrypted_packet :: "byte list \<Rightarrow> LWSSHSession \<Rightarrow> (int \<times> byte list \<times> LWSSHSession) outcome" where
  "parse_encrypted_packet inp ss =
     (if length inp < 4 + 20 then Done (1, inp, ss)
      else
        (let header = take 4 inp; inp = drop 4 inp;
             packet_length = get_u32 (fst (AES_CTR_xcrypt_buffer (aes_ctx_ctos ss) header)) 0;
             n = unat (packet_length + 20);
             packetvec = header @ take n inp;
             inp = drop n inp
         in if length packetvec < 20 then Oob
            else
              (let recv_mac = drop (length packetvec - 20) packetvec;
                   (packetvec, ctx) = AES_CTR_xcrypt_buffer (aes_ctx_ctos ss) (take (length packetvec - 20) packetvec);
                   ss = ss\<lparr>aes_ctx_ctos := ctx\<rparr>
               in case hmac_sha1 64 sha1_blank (derived_mac_key_ctos ss) (put_u32 (packets_seq_num_ctos ss) @ packetvec) of
                    None \<Rightarrow> NoReturn
                  | Some computed_mac \<Rightarrow>
                      if recv_mac \<noteq> computed_mac then Done (-1, inp, ss)
                      else
                        (let ss = ss\<lparr>packets_seq_num_ctos := packets_seq_num_ctos ss + 1\<rparr>;
                             payload_length = packet_length - ucast (packetvec ! 4) - 1;
                             payload = take (unat payload_length) (drop 5 packetvec)
                         in if length packetvec < 5 \<or> 5 + unat payload_length > length packetvec then Oob
                            else if payload = [] then Oob
                            else Done (if hd payload < 101 then 0 else -1, inp, ss\<lparr>m_sshpacket := payload\<rparr>)))))"

subsection \<open>Password requests\<close>

record SSHUserAuthRequest =
  ua_username :: "byte list"
  ua_service :: "byte list"
  ua_method :: "byte list"
  ua_password :: "byte list"

definition parse_userauth_request :: "byte list \<Rightarrow> SSHUserAuthRequest option outcome" where
  "parse_userauth_request p =
     and_then (read_ssh_string p 1) (\<lambda>(username, off).
     and_then (read_ssh_string p off) (\<lambda>(service, off).
     and_then (read_ssh_string p off) (\<lambda>(meth, off).
       let req = \<lparr>ua_username = username, ua_service = service, ua_method = meth, ua_password = []\<rparr> in
       if meth = ascii ''password''
       then (if off \<ge> length p then Done None
             else and_then (read_ssh_string p (off + 1)) (\<lambda>(password, off). Done (Some (req\<lparr>ua_password := password\<rparr>))))
       else Done (Some req))))"

section \<open>Numbers, strings and names\<close>

lemma length_put_u32 [simp]: "length (put_u32 w) = 4"
  by (simp add: put_u32_def)

lemma put_u32_be32: "put_u32 w = be32 w"
  by (simp add: put_u32_def be32_def ucast_low_byte)

lemma word_from_bytes:
  "(push_bit 24 (ucast (ucast (drop_bit 24 w) :: byte)) OR push_bit 16 (ucast (ucast (drop_bit 16 w) :: byte)) OR
    push_bit 8 (ucast (ucast (drop_bit 8 w) :: byte)) OR ucast (ucast w :: byte) :: u32) = (w :: u32)" (is "?l = w")
proof (rule bit_word_eqI)
  fix n assume "n < LENGTH(32)"
  then consider "n < 8" | "8 \<le> n" "n < 16" | "16 \<le> n" "n < 24" | "24 \<le> n" "n < 32" by fastforce
  then show "bit ?l n \<longleftrightarrow> bit w n" by cases (auto simp: bit_simps)
qed

lemma get_put_u32 [simp]: "get_u32 (pre @ put_u32 w @ rest) (length pre) = w"
  by (simp add: get_u32_def put_u32_be32 be32_def nth_append word_from_bytes)

lemma unat_sum: "a + b < 2 ^ 32 \<Longrightarrow> unat (of_nat a + of_nat b :: u32) = a + b"
  unfolding of_nat_add [symmetric] by (rule unat_of_nat_small) simp

lemma get_put_u32_0 [simp]: "get_u32 (put_u32 w @ rest) 0 = w"
  using get_put_u32 [of "[]"] by simp

lemma read_append:
  assumes "length pre + 4 + length data < 2 ^ 32"
  shows "read_ssh_string (append_ssh_string pre data @ rest) (length pre) = Done (Some (data, length pre + 4 + length data))"
  using assms unat_sum [of "length pre + 4" "length data"]
  by (simp add: read_ssh_string_def append_ssh_string_def Let_def unat_of_nat_small)

lemma name_loop_append: "0x2C \<notin> set n \<Longrightarrow> name_loop c (n @ rest) = name_loop (c @ n) rest"
  by (induction n arbitrary: c) auto

lemma name_loop_join:
  assumes "\<forall>n \<in> set names. n \<noteq> [] \<and> 0x2C \<notin> set n"
  shows "name_loop [] (join_names names) = names"
  using assms
proof (induction names rule: join_names.induct)
  case (2 n)
  then show ?case using name_loop_append [of n "[]" "[]"] by simp
next
  case (3 n m ms)
  then show ?case using name_loop_append [of n "[]" "0x2C # join_names (m # ms)"] by simp
qed simp

lemma parse_append_names:
  assumes "\<forall>n \<in> set names. n \<noteq> [] \<and> 0x2C \<notin> set n" "length pre + 4 + length (join_names names) < 2 ^ 32"
  shows "parse_name_list (append_name_list pre names @ rest) (length pre) = Done (Some (names, length (append_name_list pre names)))"
  using assms(2) name_loop_join [OF assms(1)] unat_sum [of "length pre + 4" "length (join_names names)"]
  by (simp add: parse_name_list_def append_name_list_def Let_def unat_of_nat_small)

section \<open>Packets\<close>

lemma key_stream_take: "take n (key_stream ctx j xs) = key_stream ctx j (take n xs)"
  by (rule nth_equalityI) (simp_all add: key_stream_def)

lemma length_key_stream [simp]: "length (key_stream ctx j xs) = length xs"
  by (simp add: key_stream_def)

lemma prepare_shape:
  assumes "4 \<le> b" "b \<le> 16"
  obtains pad where "4 \<le> pad" "pad < 20" "b dvd length payload + 5 + pad"
    "prepare_ssh_packet rnd b payload = put_u32 (of_nat (length payload + pad + 1)) @ of_nat pad # payload @ map rnd [0..<pad]"
proof -
  let ?m = "length payload + 5"
  define q where "q = b - ?m mod b"
  define pad where "pad = (if q < 4 then q + b else q)"
  have r: "?m mod b < b" using assms by simp
  then have q: "0 < q" "q \<le> b" by (auto simp: q_def)
  have "?m = b * (?m div b) + ?m mod b" by simp
  then have "?m + q = b * (?m div b) + b" using r unfolding q_def by linarith
  then have "b dvd ?m + q" by simp
  then have d: "b dvd ?m + pad" by (auto simp: pad_def add.assoc [symmetric] simp del: add.assoc)
  show thesis
  proof (rule that [OF _ _ d])
    show "4 \<le> pad" "pad < 20" using assms q by (auto simp: pad_def)
    show "prepare_ssh_packet rnd b payload = put_u32 (of_nat (length payload + pad + 1)) @ of_nat pad # payload @ map rnd [0..<pad]"
      by (simp add: prepare_ssh_packet_def pad_def q_def Let_def add.commute [of 5])
  qed
qed

lemma ucast_pad: "pad < 256 \<Longrightarrow> (ucast (of_nat pad :: byte) :: u32) = of_nat pad"
proof -
  assume "pad < 256"
  then have u: "unat (of_nat pad :: byte) = pad" by (simp add: unat_of_nat_small)
  have "ucast (of_nat pad :: byte) = (of_nat (unat (of_nat pad :: byte)) :: u32)" by (simp only: of_nat_unat)
  then show ?thesis unfolding u .
qed

text \<open>Two ends of a connection with the same key stream, code key and packet number.\<close>

definition matched :: "LWSSHSession \<Rightarrow> LWSSHSession \<Rightarrow> bool" where
  "matched S R \<longleftrightarrow> aes_ctx_stoc S = aes_ctx_ctos R \<and> derived_mac_key_stoc S = derived_mac_key_ctos R \<and>
     packets_seq_num_stoc S = packets_seq_num_ctos R \<and> length (derived_mac_key_stoc S) = 20"

definition payload_ok :: "byte list \<Rightarrow> bool" where
  "payload_ok p \<longleftrightarrow> p \<noteq> [] \<and> hd p < 101 \<and> length p < 2 ^ 32 - 128"

lemma packet_round_trip:
  assumes "matched S R" "past_newkeys (m_state S)" "payload_ok p"
  obtains wire S' R' where "send_server_ssh_packet rnd True S p True = Done (True, wire, S')"
    "\<And>rest. parse_encrypted_packet (wire @ rest) R = Done (0, rest, R')" "m_sshpacket R' = p" "matched S' R'" "m_state S' = m_state S"
proof -
  have p: "p \<noteq> []" "hd p < 101" "length p < 2 ^ 32 - 128" using assms(3) by (auto simp: payload_ok_def)
  obtain pad where pad: "4 \<le> pad" "pad < 20" and pk: "prepare_ssh_packet rnd 16 p = put_u32 (of_nat (length p + pad + 1)) @ of_nat pad # p @ map rnd [0..<pad]"
    by (rule prepare_shape [of 16 p rnd]) simp_all
  define C where "C = aes_ctx_ctos R"
  define pkt where "pkt = put_u32 (of_nat (length p + pad + 1)) @ of_nat pad # p @ map rnd [0..<pad]"
  have l: "length pkt = length p + pad + 5" by (simp add: pkt_def)
  have k: "length (derived_mac_key_ctos R) \<le> 64" "length (put_u32 (packets_seq_num_ctos R) @ pkt) < 2 ^ 32 - 64"
    using assms(1) p(3) pad(2) l by (auto simp: matched_def)
  obtain mac where mac: "hmac_sha1 64 sha1_blank (derived_mac_key_ctos R) (put_u32 (packets_seq_num_ctos R) @ pkt) = Some mac" "length mac = 20"
    by (rule hmac_sha1_mac [OF k])
  let ?S = "S\<lparr>aes_ctx_stoc := ctx_after C (length pkt), packets_seq_num_stoc := packets_seq_num_stoc S + 1\<rparr>"
  let ?R = "R\<lparr>aes_ctx_ctos := ctx_after C (length pkt), packets_seq_num_ctos := packets_seq_num_ctos R + 1, m_sshpacket := p\<rparr>"
  define wire where "wire = key_stream C 0 pkt @ mac"
  have m: "aes_ctx_stoc S = C" "derived_mac_key_stoc S = derived_mac_key_ctos R" "packets_seq_num_stoc S = packets_seq_num_ctos R"
    using assms(1) by (simp_all add: matched_def C_def)
  have "send_server_ssh_packet rnd True S p True = Done (True, wire, ?S)"
    using assms(2) mac(1) by (simp add: send_server_ssh_packet_def encrypt_ssh_payload_def pk [folded pkt_def] m buffer_stream wire_def)
  moreover have "parse_encrypted_packet (wire @ rest) R = Done (0, rest, ?R)" for rest
  proof -
    have h: "fst (AES_CTR_xcrypt_buffer C (take 4 (wire @ rest))) = put_u32 (of_nat (length p + pad + 1))"
      using l by (simp add: wire_def buffer_stream key_stream_take key_stream_twice) (simp add: pkt_def)
    have g: "get_u32 (put_u32 w) 0 = w" for w using get_put_u32_0 [of w "[]"] by simp
    have n: "unat (of_nat (length p + pad + 1) + 20 :: u32) = length p + pad + 21"
      using unat_sum [of "length p + pad + 1" 20] p(3) pad(2) by simp
    have v: "take 4 (wire @ rest) @ take (length p + pad + 21) (drop 4 (wire @ rest)) = wire" "drop (length p + pad + 21) (drop 4 (wire @ rest)) = rest"
      using l mac(2) by (simp_all add: wire_def take_add [symmetric] del: take_append drop_append) (simp_all add: wire_def)
    have d: "AES_CTR_xcrypt_buffer C (take (length wire - 20) wire) = (pkt, ctx_after C (length pkt))" "drop (length wire - 20) wire = mac"
      using mac(2) by (simp_all add: wire_def buffer_stream key_stream_twice)
    have pl: "pkt ! 4 = of_nat pad" "drop 5 pkt = p @ map rnd [0..<pad]" by (simp_all add: pkt_def nth_append)
    have "24 \<le> length (wire @ rest)" "20 \<le> length wire" using l mac(2) pad(1) by (simp_all add: wire_def)
    then show ?thesis
      unfolding parse_encrypted_packet_def Let_def C_def [symmetric] h g n v d
      using mac p l pad by (simp add: pl ucast_pad unat_of_nat_small)
  qed
  ultimately show thesis using m assms(1) by (intro that [of wire ?S ?R]) (simp_all add: matched_def)
qed

text \<open>Sequences of packets.\<close>

fun ssh_send_all :: "LWSSHSession \<Rightarrow> ((nat \<Rightarrow> byte) \<times> byte list) list \<Rightarrow> (byte list \<times> LWSSHSession) outcome" where
  "ssh_send_all S [] = Done ([], S)"
| "ssh_send_all S ((rnd, p) # ps) =
     (case send_server_ssh_packet rnd True S p True of
        Done (True, wire, S) \<Rightarrow> (case ssh_send_all S ps of Done (wires, S) \<Rightarrow> Done (wire @ wires, S) | r \<Rightarrow> r)
      | _ \<Rightarrow> NoReturn)"

fun ssh_receive_all :: "nat \<Rightarrow> byte list \<Rightarrow> LWSSHSession \<Rightarrow> (byte list list \<times> byte list \<times> LWSSHSession) outcome" where
  "ssh_receive_all 0 inp R = Done ([], inp, R)"
| "ssh_receive_all (Suc n) inp R =
     (case parse_encrypted_packet inp R of
        Done (status, inp, R) \<Rightarrow>
          if status \<noteq> 0 then Done ([], inp, R)
          else (case ssh_receive_all n inp R of Done (ps, inp, R') \<Rightarrow> Done (m_sshpacket R # ps, inp, R') | r \<Rightarrow> r)
      | _ \<Rightarrow> NoReturn)"

text \<open>
  C6. The encrypted channel. When both ends have the same keys, counter and packet number, the payloads sent arrive
  in order and complete, with any bytes behind them left for the next calls, and both ends stay in step: padding,
  encryption, code and packet numbers of the sender are those the receiver undoes and checks.
\<close>

theorem ssh_channel_in_order:
  assumes "matched S R" "past_newkeys (m_state S)" "\<forall>(rnd, p) \<in> set ps. payload_ok p"
  shows "\<exists>wire S' R'. ssh_send_all S ps = Done (wire, S') \<and>
    ssh_receive_all (length ps) (wire @ rest) R = Done (map snd ps, rest, R') \<and> matched S' R'"
  using assms
proof (induction ps arbitrary: S R)
  case (Cons x ps)
  obtain rnd p where x: "x = (rnd, p)" by (cases x)
  have p: "payload_ok p" "\<forall>(rnd, p) \<in> set ps. payload_ok p" using Cons.prems(3) x by auto
  obtain wire S1 R1 where one: "send_server_ssh_packet rnd True S p True = Done (True, wire, S1)"
    "\<And>more. parse_encrypted_packet (wire @ more) R = Done (0, more, R1)" "m_sshpacket R1 = p" "matched S1 R1" "m_state S1 = m_state S"
    by (rule packet_round_trip [OF Cons.prems(1,2) p(1), of rnd]) simp
  obtain wires S' R' where "ssh_send_all S1 ps = Done (wires, S')" "ssh_receive_all (length ps) (wires @ rest) R1 = Done (map snd ps, rest, R')"
    "matched S' R'"
    using Cons.IH [OF one(4) _ p(2)] Cons.prems(2) one(5) by auto
  then show ?case using one x by auto
qed simp

theorem ssh_channel_in_order_witness:
  "let c = \<lparr>RoundKey = KeyExpansion (replicate 16 7), Iv = replicate 16 9\<rparr>;
       S = (ssh_session_new c c)\<lparr>m_state := SESSION_STATE_CHANNEL_REQUEST\<rparr>; ps = [(\<lambda>i. 0, [94, 1, 2]), (\<lambda>i. of_nat i, [97])]
   in \<exists>wire S' R'. ssh_send_all S ps = Done (wire, S') \<and> ssh_receive_all 2 (wire @ [3]) S = Done ([[94, 1, 2], [97]], [3], R')"
proof -
  let ?c = "\<lparr>RoundKey = KeyExpansion (replicate 16 7), Iv = replicate 16 9\<rparr>"
  let ?S = "(ssh_session_new ?c ?c)\<lparr>m_state := SESSION_STATE_CHANNEL_REQUEST\<rparr>"
  let ?ps = "[(\<lambda>i. 0, [94, 1, 2]), (\<lambda>i. of_nat i, [97])] :: ((nat \<Rightarrow> byte) \<times> byte list) list"
  have m: "matched ?S ?S" "past_newkeys (m_state ?S)" by (simp_all add: matched_def ssh_session_new_def)
  have p: "\<forall>(rnd, p) \<in> set ?ps. payload_ok p" by (simp add: payload_ok_def)
  have l: "length ?ps = 2" "map snd ?ps = [[94, 1, 2], [97]]" by simp_all
  show ?thesis using ssh_channel_in_order [OF m p, of "[3]"] unfolding Let_def l by blast
qed


text \<open>
  C39. Lengths from the wire. A string is read exactly when it lies inside the payload, as long as the sum of offset
  and length does not wrap; it can wrap, and then the string is read from outside the payload. So is the user name of
  a request that announces the largest length. The encrypted length of a packet is used before the code is checked:
  a length within twenty of the largest one makes the reader take bytes from an empty packet.
\<close>

theorem hostile_lengths:
  assumes "length p < 2 ^ 32"
  shows "(off + 4 \<le> length p \<and> off + 4 + unat (get_u32 p off) < 2 ^ 32 \<longrightarrow>
      read_ssh_string p off = Done (if off + 4 + unat (get_u32 p off) \<le> length p
        then Some (take (unat (get_u32 p off)) (drop (off + 4) p), off + 4 + unat (get_u32 p off)) else None)) \<and>
    (read_ssh_string p off = Oob \<longleftrightarrow> off + 4 \<le> length p \<and> 2 ^ 32 \<le> off + 4 + unat (get_u32 p off) \<and>
      off + 4 + unat (get_u32 p off) - 2 ^ 32 \<le> length p) \<and>
    (length pre + 4 + length data < 2 ^ 32 \<longrightarrow>
      read_ssh_string (append_ssh_string pre data @ rest) (length pre) = Done (Some (data, length pre + 4 + length data))) \<and>
    (length rest < 2 ^ 31 \<longrightarrow> parse_userauth_request (SSH2_MSG_USERAUTH_REQUEST # [0xFF, 0xFF, 0xFF, 0xFF] @ rest) = Oob) \<and>
    (2 ^ 32 - 20 \<le> unat L \<and> unat L < 2 ^ 32 - 4 \<and> 20 \<le> length rest \<longrightarrow>
      parse_encrypted_packet (fst (AES_CTR_xcrypt_buffer (aes_ctx_ctos R) (put_u32 L)) @ rest) R = Oob)"
proof (intro conjI impI)
  have sum: "unat (of_nat (off + 4) + get_u32 p off :: u32) = (off + 4 + unat (get_u32 p off)) mod 2 ^ 32" if "off + 4 \<le> length p"
    using that assms by (simp add: unat_word_ariths unat_of_nat take_bit_nat_eq_self mod_add_left_eq)
  have b: "off + 4 + unat (get_u32 p off) < 2 ^ 32 + 2 ^ 32" if "off + 4 \<le> length p"
    using unat_bound [of "get_u32 p off"] that assms by simp
  have m: "(off + 4 + unat (get_u32 p off)) mod 2 ^ 32 = off + 4 + unat (get_u32 p off) - 2 ^ 32"
    if "off + 4 \<le> length p" "2 ^ 32 \<le> off + 4 + unat (get_u32 p off)"
    using b [OF that(1)] that(2) by (simp add: le_mod_geq)
  show "read_ssh_string p off = Done (if off + 4 + unat (get_u32 p off) \<le> length p
        then Some (take (unat (get_u32 p off)) (drop (off + 4) p), off + 4 + unat (get_u32 p off)) else None)"
    if "off + 4 \<le> length p \<and> off + 4 + unat (get_u32 p off) < 2 ^ 32"
    using sum that unfolding read_ssh_string_def Let_def by simp
  show "read_ssh_string p off = Oob \<longleftrightarrow> off + 4 \<le> length p \<and> 2 ^ 32 \<le> off + 4 + unat (get_u32 p off) \<and>
      off + 4 + unat (get_u32 p off) - 2 ^ 32 \<le> length p"
  proof (cases "off + 4 \<le> length p \<and> 2 ^ 32 \<le> off + 4 + unat (get_u32 p off)")
    case True
    then show ?thesis using sum m assms unfolding read_ssh_string_def Let_def by auto
  next
    case False
    then show ?thesis using sum unfolding read_ssh_string_def Let_def by auto
  qed
  show "read_ssh_string (append_ssh_string pre data @ rest) (length pre) = Done (Some (data, length pre + 4 + length data))"
    if "length pre + 4 + length data < 2 ^ 32"
    using that by (rule read_append)
  show "parse_userauth_request (SSH2_MSG_USERAUTH_REQUEST # [0xFF, 0xFF, 0xFF, 0xFF] @ rest) = Oob" if "length rest < 2 ^ 31"
  proof -
    have "get_u32 (SSH2_MSG_USERAUTH_REQUEST # [0xFF, 0xFF, 0xFF, 0xFF] @ rest) 1 = 2 ^ 32 - 1" by (simp add: get_u32_def)
    then have "read_ssh_string (SSH2_MSG_USERAUTH_REQUEST # [0xFF, 0xFF, 0xFF, 0xFF] @ rest) 1 = Oob"
      using that by (simp add: read_ssh_string_def Let_def)
    then show ?thesis by (simp only: parse_userauth_request_def and_then_def outcome.case)
  qed
  show "parse_encrypted_packet (fst (AES_CTR_xcrypt_buffer (aes_ctx_ctos R) (put_u32 L)) @ rest) R = Oob"
    if "2 ^ 32 - 20 \<le> unat L \<and> unat L < 2 ^ 32 - 4 \<and> 20 \<le> length rest"
  proof -
    define w where "w = fst (AES_CTR_xcrypt_buffer (aes_ctx_ctos R) (put_u32 L)) @ rest"
    have h: "get_u32 (fst (AES_CTR_xcrypt_buffer (aes_ctx_ctos R) (take 4 w))) 0 = L"
      using get_put_u32_0 [of L "[]"] by (simp add: w_def buffer_stream key_stream_twice)
    have "unat (L + 20) = unat L + 20 - 2 ^ 32" using that by (auto simp: unat_word_ariths le_mod_geq intro!: mod_less)
    then have n: "unat (L + 20) < 16" using that by arith
    have l: "24 \<le> length w" using that by (simp add: w_def buffer_stream)
    have "parse_encrypted_packet w R = Oob" using l n unfolding parse_encrypted_packet_def Let_def h by (simp add: min_def)
    then show ?thesis by (simp only: w_def)
  qed
qed


theorem hostile_lengths_witness:
  "let c = \<lparr>RoundKey = KeyExpansion (replicate 16 7), Iv = replicate 16 9\<rparr>
   in read_ssh_string [0xFF, 0xFF, 0xFF, 0xFE, 1] 0 = Oob \<and>
      parse_encrypted_packet (fst (AES_CTR_xcrypt_buffer c (put_u32 (2 ^ 32 - 10))) @ replicate 20 0) (ssh_session_new c c) = Oob"
proof -
  let ?R = "ssh_session_new \<lparr>RoundKey = KeyExpansion (replicate 16 7), Iv = replicate 16 9\<rparr> \<lparr>RoundKey = KeyExpansion (replicate 16 7), Iv = replicate 16 9\<rparr>"
  have l: "length [0xFF, 0xFF, 0xFF, 0xFE, 1 :: byte] < 2 ^ 32" by simp
  have g: "get_u32 [0xFF, 0xFF, 0xFF, 0xFE, 1] 0 = 2 ^ 32 - 2" by (simp add: get_u32_def)
  have c: "aes_ctx_ctos ?R = \<lparr>RoundKey = KeyExpansion (replicate 16 7), Iv = replicate 16 9\<rparr>" by (simp add: ssh_session_new_def)
  have u: "unat (2 ^ 32 - 10 :: u32) = 2 ^ 32 - 10" "unat (2 ^ 32 - 2 :: u32) = 2 ^ 32 - 2" by simp_all
  note T = hostile_lengths [OF l, of 0 "[]" "[]" "replicate 20 0" "2 ^ 32 - 10" ?R, unfolded g u c]
  have "read_ssh_string [0xFF, 0xFF, 0xFF, 0xFE, 1] 0 = Oob" using T by simp
  moreover have "parse_encrypted_packet (fst (AES_CTR_xcrypt_buffer \<lparr>RoundKey = KeyExpansion (replicate 16 7), Iv = replicate 16 9\<rparr>
      (put_u32 (2 ^ 32 - 10))) @ replicate 20 0) ?R = Oob"
    by (rule mp [OF conjunct2 [OF conjunct2 [OF conjunct2 [OF conjunct2 [OF T]]]]]) simp
  ultimately show ?thesis unfolding Let_def by blast
qed

end
