(* ===== verification/SshServer.thy ===== *)
theory SshServer
  imports SshPacket Session
begin

text \<open>
  The handlers of the remote shell up to the login (\<^verbatim>\<open>service_provider/shell/ssh/SSHServiceprovider.cpp\<close>):
  exchange of versions, key exchange, new keys and password request. Each handler takes the bytes that have arrived
  and returns the bytes it sends. The host keys, the curve operations, the random bytes and whether the client takes
  what is sent are fields of the environment.
\<close>

section \<open>Model\<close>

record ssh_env =
  e_sent :: bool
  e_timeout :: bool
  e_cookie :: "nat \<Rightarrow> byte"
  e_padding :: "nat \<Rightarrow> byte"
  e_host_keys :: "(byte list \<times> byte list) option"
  e_keypair :: "byte list \<Rightarrow> byte list \<times> byte list"
  e_scalarmult :: "byte list \<Rightarrow> byte list \<Rightarrow> byte list"
  e_sign :: "byte list \<Rightarrow> byte list \<Rightarrow> byte list \<Rightarrow> byte list"

fun version_loop :: "byte list \<Rightarrow> byte list \<Rightarrow> byte list \<times> byte list" where
  "version_loop v [] = (v, [])"
| "version_loop v (c # inp) =
     (if c = 0x0A then (v, inp) else if c = 0x0D then version_loop v inp else version_loop (v @ [c]) inp)"

definition handleVersionExchange :: "ssh_env \<Rightarrow> byte list \<Rightarrow> LWSSHSession \<Rightarrow> byte list \<times> byte list \<times> LWSSHSession" where
  "handleVersionExchange E inp ss =
     (let (out, ss) = (if m_state ss = SESSION_STATE_VEX_SEND
                       then (m_server_version ss @ [0x0D, 0x0A], ss\<lparr>m_state := SESSION_STATE_VEX_RECV\<rparr>) else ([], ss))
      in if m_state ss = SESSION_STATE_VEX_RECV
         then (let (v, inp) = version_loop (m_client_version ss) inp;
                   ss = ss\<lparr>m_client_version := v\<rparr>;
                   ss = (if length v > 4 \<and> take 4 v = ascii ''SSH-'' then ss\<lparr>m_state := SESSION_STATE_KEX_INIT_RECV\<rparr> else ss);
                   ss = (if e_timeout E then ss\<lparr>m_state := SESSION_STATE_SESSION_TIMEOUT\<rparr> else ss)
               in (out, inp, ss))
         else (out, inp, ss))"

definition prepare_server_ecdh_reply :: "ssh_env \<Rightarrow> LWSSHSession \<Rightarrow> byte list \<Rightarrow> byte list \<Rightarrow> byte list \<Rightarrow> byte list \<times> LWSSHSession" where
  "prepare_server_ecdh_reply E ss client_pubkey host_pubkey host_privkey =
     (let (pub, priv) = e_keypair E host_privkey;
          secret = e_scalarmult E priv client_pubkey;
          hostkey_blob = append_ssh_string (append_ssh_string [] (ascii ''ssh-ed25519'')) host_pubkey;
          H = build_exchange_hash (m_client_version ss) (m_server_version ss) (m_client_kexinit ss) (m_server_kexinit ss)
                hostkey_blob client_pubkey pub secret;
          signature = e_sign E H host_pubkey host_privkey;
          sig_blob = append_ssh_string (append_ssh_string [] (ascii ''ssh-ed25519'')) signature;
          payload = append_ssh_string (append_ssh_string (append_ssh_string [SSH2_MSG_KEXDH_REPLY] hostkey_blob) pub) sig_blob
      in (payload, ss\<lparr>m_server_ephermeral_pubkey := pub, m_server_ephermeral_privkey := priv, m_shared_secret_key := secret,
                      m_exchange_hash_h := H\<rparr>))"

abbreviation (input) "ssh_send E \<equiv> send_server_ssh_packet (e_padding E) (e_sent E)"

definition handleKeyExchange :: "ssh_env \<Rightarrow> byte list \<Rightarrow> LWSSHSession \<Rightarrow> (byte list \<times> byte list \<times> LWSSHSession) outcome" where
  "handleKeyExchange E inp ss =
     (if m_state ss = SESSION_STATE_KEX_INIT_RECV \<or> m_state ss = SESSION_STATE_KEXDH_INIT_RECV
      then
        (case parse_received_packet inp ss of
           Oob \<Rightarrow> Oob
         | NoReturn \<Rightarrow> NoReturn
         | Done (status, inp, ss) \<Rightarrow>
             if status = 0
             then
               (if hd (m_sshpacket ss) = SSH2_MSG_KEXINIT
                then (case parse_kex_init_fields (m_sshpacket ss) of
                        Oob \<Rightarrow> Oob
                      | NoReturn \<Rightarrow> NoReturn
                      | Done r \<Rightarrow> Done ([], inp, ss\<lparr>m_client_kexinit := m_sshpacket ss,
                          m_state := (if r \<noteq> None then SESSION_STATE_KEX_INIT_SEND else SESSION_STATE_SESSION_CLOSE)\<rparr>))
                else if hd (m_sshpacket ss) = SSH2_MSG_KEXDH_INIT
                then (case parse_kex_ecdh_init (m_sshpacket ss) of
                        Some key \<Rightarrow> Done ([], inp, ss\<lparr>m_ecdh_client_pubkey := key, m_state := SESSION_STATE_KEXDH_INIT_SEND\<rparr>)
                      | None \<Rightarrow> Done ([], inp, ss\<lparr>m_state := SESSION_STATE_SESSION_CLOSE\<rparr>))
                else Done ([], inp, ss))
             else if status < 0 then Done ([], inp, ss\<lparr>m_state := SESSION_STATE_SESSION_CLOSE\<rparr>)
             else Done ([], inp, ss))
      else if m_state ss = SESSION_STATE_KEX_INIT_SEND
      then
        (if m_server_kex_init_sent ss > 0 then Done ([], inp, ss\<lparr>m_state := SESSION_STATE_KEXDH_INIT_RECV\<rparr>)
         else
           (let ss = ss\<lparr>m_server_kex_init_sent := m_server_kex_init_sent ss + 1, m_server_kexinit := prepare_server_kexinit (e_cookie E)\<rparr>
            in case ssh_send E ss (m_server_kexinit ss) False of
                 Oob \<Rightarrow> Oob
               | NoReturn \<Rightarrow> NoReturn
               | Done (ok, out, ss) \<Rightarrow>
                   Done (out, inp, ss\<lparr>m_state := (if ok then SESSION_STATE_KEXDH_INIT_RECV else SESSION_STATE_SESSION_CLOSE)\<rparr>)))
      else if m_state ss = SESSION_STATE_KEXDH_INIT_SEND
      then
        (case e_host_keys E of
           None \<Rightarrow> Done ([], inp, ss\<lparr>m_state := SESSION_STATE_SESSION_CLOSE\<rparr>)
         | Some (pub, priv) \<Rightarrow>
             (let (payload, ss) = prepare_server_ecdh_reply E ss (m_ecdh_client_pubkey ss) pub priv
              in case ssh_send E ss payload False of
                   Oob \<Rightarrow> Oob
                 | NoReturn \<Rightarrow> NoReturn
                 | Done (ok, out, ss) \<Rightarrow>
                     Done (out, inp, ss\<lparr>m_state := (if ok then SESSION_STATE_NEWKEYS_RECEIVED else SESSION_STATE_SESSION_CLOSE)\<rparr>)))
      else Done ([], inp, ss))"

text \<open>The six keys; the buffers they are written to are those of the session.\<close>

definition derive_keys :: "LWSSHSession \<Rightarrow> LWSSHSession option outcome" where
  "derive_keys ss =
     (let K = append_mpint [] (m_shared_secret_key ss); H = m_exchange_hash_h ss;
          key = (\<lambda>c out. case derive_key K H H c out of Oob \<Rightarrow> Oob | NoReturn \<Rightarrow> NoReturn | Done k \<Rightarrow> Done (Some k))
      in and_then (key CHR ''A'' (derived_iv_ctos ss)) (\<lambda>a.
         and_then (key CHR ''B'' (derived_iv_stoc ss)) (\<lambda>b.
         and_then (key CHR ''C'' (derived_enc_key_ctos ss)) (\<lambda>c.
         and_then (key CHR ''D'' (derived_enc_key_stoc ss)) (\<lambda>d.
         and_then (key CHR ''E'' (derived_mac_key_ctos ss)) (\<lambda>e.
         and_then (key CHR ''F'' (derived_mac_key_stoc ss)) (\<lambda>f.
           Done (Some (ss\<lparr>derived_iv_ctos := a, derived_iv_stoc := b, derived_enc_key_ctos := c, derived_enc_key_stoc := d,
             derived_mac_key_ctos := e, derived_mac_key_stoc := f,
             aes_ctx_ctos := AES_init_ctx_iv (aes_ctx_ctos ss) c a, aes_ctx_stoc := AES_init_ctx_iv (aes_ctx_stoc ss) d b\<rparr>)))))))))"

text \<open>A received string as the C string that is passed on.\<close>

definition c_text :: "byte list \<Rightarrow> string" where
  "c_text s = cstr (map (\<lambda>b. char_of (unat b)) s)"

definition handleAuthentication ::
  "ssh_env \<Rightarrow> volume_env \<Rightarrow> files \<Rightarrow> u32 \<Rightarrow> nat \<Rightarrow> byte list \<Rightarrow> LWSSHSession \<Rightarrow> session_mgr \<times> auth_service \<Rightarrow>
   (byte list \<times> byte list \<times> LWSSHSession \<times> session_mgr \<times> auth_service) outcome" where
  "handleAuthentication E V fs now client inp ss = (\<lambda>(m, a).
     if m_state ss = SESSION_STATE_AUTHENTICATION_REQUEST \<or> m_state ss = SESSION_STATE_NEWKEYS_RECEIVED
     then
       (case (if past_newkeys (m_state ss) then parse_encrypted_packet inp ss else parse_received_packet inp ss) of
          Oob \<Rightarrow> Oob
        | NoReturn \<Rightarrow> NoReturn
        | Done (status, inp, ss) \<Rightarrow>
            if status = 0
            then
              (if hd (m_sshpacket ss) = SSH2_MSG_NEWKEYS
               then (case ssh_send E ss [SSH2_MSG_NEWKEYS] False of
                       Oob \<Rightarrow> Oob
                     | NoReturn \<Rightarrow> NoReturn
                     | Done (ok, out, ss) \<Rightarrow>
                         if ok
                         then (case derive_keys ss of
                                 Oob \<Rightarrow> Oob
                               | Done (Some ss) \<Rightarrow> Done (out, inp, ss\<lparr>m_state := SESSION_STATE_AUTHENTICATION_REQUEST\<rparr>, m, a)
                               | _ \<Rightarrow> NoReturn)
                         else Done (out, inp, ss\<lparr>m_state := SESSION_STATE_SESSION_CLOSE\<rparr>, m, a))
               else if hd (m_sshpacket ss) = SSH2_MSG_SERVICE_REQUEST
               then (case ssh_send E ss (append_ssh_string [SSH2_MSG_SERVICE_ACCEPT] (ascii ''ssh-userauth'')) True of
                       Oob \<Rightarrow> Oob
                     | NoReturn \<Rightarrow> NoReturn
                     | Done (ok, out, ss) \<Rightarrow> Done (out, inp, ss, m, a))
               else if hd (m_sshpacket ss) = SSH2_MSG_USERAUTH_REQUEST
               then (case parse_userauth_request (m_sshpacket ss) of
                       Oob \<Rightarrow> Oob
                     | NoReturn \<Rightarrow> NoReturn
                     | Done r \<Rightarrow>
                         (let (ok, a) = (case r of
                                           None \<Rightarrow> (False, a)
                                         | Some req \<Rightarrow>
                                             if length (ua_username req) > 1 \<and> length (ua_password req) > 1
                                             then isAuthorized V fs (Some (c_text (ua_username req))) (Some (c_text (ua_password req))) a
                                             else (False, a))
                          in if \<not> ok
                             then (case ssh_send E ss (append_ssh_string [SSH2_MSG_USERAUTH_FAILURE] (ascii ''password'') @ [0]) True of
                                     Oob \<Rightarrow> Oob
                                   | NoReturn \<Rightarrow> NoReturn
                                   | Done (ok, out, ss) \<Rightarrow> Done (out, inp, ss, m, a))
                             else (case ssh_send E ss [SSH2_MSG_USERAUTH_SUCCESS] True of
                                     Oob \<Rightarrow> Oob
                                   | NoReturn \<Rightarrow> NoReturn
                                   | Done (ok, out, ss) \<Rightarrow>
                                       if ok
                                       then (let (m, a) = setAuthorized V fs now True (snd (attach (Some client) m), a)
                                             in Done (out, inp, ss\<lparr>m_state := SESSION_STATE_CHANNEL_REQUEST\<rparr>, m, a))
                                       else Done (out, inp, ss, m, a))))
               else Done ([], inp, ss, m, a))
            else if status < 0 then Done ([], inp, ss\<lparr>m_state := SESSION_STATE_SESSION_CLOSE\<rparr>, m, a)
            else Done ([], inp, ss, m, a))
     else Done ([], inp, ss, m, a))"

section \<open>States\<close>

lemma parse_received_state: "parse_received_packet inp ss = Done (st, inp', ss') \<Longrightarrow> m_state ss' = m_state ss"
  by (auto simp: parse_received_packet_def Let_def split: if_splits)

lemma parse_encrypted_state:
  assumes "parse_encrypted_packet inp ss = Done (st, inp', ss')"
  shows "m_state ss' = m_state ss"
proof -
  define L where "L = get_u32 (fst (AES_CTR_xcrypt_buffer (aes_ctx_ctos ss) (take 4 inp))) 0"
  define v where "v = take 4 inp @ take (unat (L + 20)) (drop 4 inp)"
  obtain plain ctx where d: "AES_CTR_xcrypt_buffer (aes_ctx_ctos ss) (take (length v - 20) v) = (plain, ctx)" by fastforce
  show ?thesis
    using assms unfolding parse_encrypted_packet_def Let_def L_def [symmetric] v_def [symmetric] d prod.case
    by (auto split: if_splits option.splits)
qed

lemma send_keeps:
  assumes "send_server_ssh_packet rnd sent ss p encrypt = Done (ok, out, ss')"
  shows "m_state ss' = m_state ss \<and> m_sshpacket ss' = m_sshpacket ss \<and> ok = sent"
  using assms
  by (auto simp: send_server_ssh_packet_def encrypt_ssh_payload_def split: if_splits outcome.splits option.splits prod.splits)

lemma key_exchange_state:
  assumes "handleKeyExchange E inp ss = Done (out, inp', ss')"
  shows "m_state ss' \<noteq> SESSION_STATE_CHANNEL_REQUEST \<or> ss' = ss"
  using assms unfolding handleKeyExchange_def Let_def
  by (auto dest!: parse_received_state send_keeps split: if_splits outcome.splits option.splits prod.splits)

text \<open>What a login request does: it is refused without effect on the sessions, or its password was checked.\<close>

definition checked_login :: "volume_env \<Rightarrow> files \<Rightarrow> u32 \<Rightarrow> nat \<Rightarrow> byte list \<Rightarrow> session_mgr \<times> auth_service \<Rightarrow> session_mgr \<times> auth_service \<Rightarrow> bool" where
  "checked_login V fs now client packet ma ma' \<longleftrightarrow>
     (\<exists>req a. parse_userauth_request packet = Done (Some req) \<and> 1 < length (ua_username req) \<and> 1 < length (ua_password req) \<and>
        isAuthorized V fs (Some (c_text (ua_username req))) (Some (c_text (ua_password req))) (snd ma) = (True, a) \<and>
        ma' = setAuthorized V fs now True (snd (attach (Some client) (fst ma)), a))"

lemma userauth_state:
  assumes "m_state ss \<noteq> SESSION_STATE_CHANNEL_REQUEST"
    and "handleAuthentication E V fs now client inp ss (m, a) = Done (out, inp', ss', m', a')"
  shows "if m_state ss' = SESSION_STATE_CHANNEL_REQUEST then checked_login V fs now client (m_sshpacket ss') (m, a) (m', a') else m' = m"
proof -
  let ?parse = "if past_newkeys (m_state ss) then parse_encrypted_packet inp ss else parse_received_packet inp ss"
  show ?thesis
  proof (cases "m_state ss = SESSION_STATE_AUTHENTICATION_REQUEST \<or> m_state ss = SESSION_STATE_NEWKEYS_RECEIVED")
    case True
    then obtain st inp1 ss1 where p: "?parse = Done (st, inp1, ss1)"
      using assms(2) unfolding handleAuthentication_def by (cases ?parse) (auto split: if_splits)
    then have s1: "m_state ss1 \<noteq> SESSION_STATE_CHANNEL_REQUEST"
      using assms(1) parse_encrypted_state parse_received_state by (auto split: if_splits)
    note H = assms(2) [unfolded handleAuthentication_def prod.case p outcome.case]
    show ?thesis
    proof (cases "st = 0 \<and> hd (m_sshpacket ss1) = SSH2_MSG_USERAUTH_REQUEST")
      case False
      then show ?thesis using H True s1
        by (auto dest!: send_keeps split: if_splits outcome.splits option.splits prod.splits)
    next
      case auth: True
      obtain r where r: "parse_userauth_request (m_sshpacket ss1) = Done r"
        using H True auth by (cases "parse_userauth_request (m_sshpacket ss1)") auto
      show ?thesis using H True auth s1 unfolding checked_login_def
        by (auto simp: r Let_def dest!: send_keeps split: if_splits outcome.splits option.splits prod.splits)
    qed
  next
    case False
    then show ?thesis using assms by (auto simp: handleAuthentication_def)
  qed
qed

section \<open>Packets in clear and login requests\<close>

lemma clear_round_trip:
  assumes "payload_ok p"
  shows "parse_received_packet (prepare_ssh_packet rnd 8 p @ rest) ss =
    Done (0, rest, ss\<lparr>m_sshpacket := p, packets_seq_num_ctos := packets_seq_num_ctos ss + 1\<rparr>)"
proof -
  have p: "p \<noteq> []" "hd p < 101" "length p < 2 ^ 32 - 128" using assms by (auto simp: payload_ok_def)
  obtain pad where pad: "4 \<le> pad" "pad < 20"
    and pk: "prepare_ssh_packet rnd 8 p = put_u32 (of_nat (length p + pad + 1)) @ of_nat pad # p @ map rnd [0..<pad]"
    by (rule prepare_shape [of 8 p rnd]) simp_all
  define w where "w = prepare_ssh_packet rnd 8 p @ rest"
  have w: "get_u32 w 0 = of_nat (length p + pad + 1)" "w ! 4 = of_nat pad" "drop 5 w = p @ map rnd [0..<pad] @ rest" "\<not> length w < 5"
    by (simp_all add: w_def pk nth_append)
  have n: "(of_nat (length p + pad + 1) :: u32) - ucast (of_nat pad :: byte) - 1 = of_nat (length p)"
    using pad by (simp add: ucast_pad)
  have u: "unat (of_nat (length p) :: u32) = length p" "unat (of_nat pad :: byte) = pad"
    using p(3) pad(2) by (simp_all add: unat_of_nat_small)
  have "parse_received_packet w ss = Done (0, rest, ss\<lparr>m_sshpacket := p, packets_seq_num_ctos := packets_seq_num_ctos ss + 1\<rparr>)"
    unfolding parse_received_packet_def Let_def w(1-3) n u using w(4) p by simp
  then show ?thesis by (simp only: w_def)
qed

lemma c_text_ascii:
  assumes "NUL \<notin> set s"
  shows "c_text (ascii s) = s"
proof -
  have "char_of (unat (of_nat (of_char c) :: byte)) = c" for c :: char
    using nat_of_char_less_256 [of c] by (simp add: unat_of_nat_small)
  moreover have "takeWhile (\<lambda>c. c \<noteq> NUL) s = s" using assms by (intro takeWhile_eq_all_conv [THEN iffD2]) auto
  ultimately show ?thesis by (simp add: c_text_def ascii_def cstr_def comp_def)
qed

definition login_payload :: "byte list \<Rightarrow> byte list \<Rightarrow> byte list \<Rightarrow> byte list" where
  "login_payload user service password =
     append_ssh_string (append_ssh_string (append_ssh_string (append_ssh_string [SSH2_MSG_USERAUTH_REQUEST] user) service)
       (ascii ''password'') @ [0]) password"

lemma parse_login_payload:
  assumes "length user + length service + length password < 2 ^ 31"
  shows "parse_userauth_request (login_payload user service password) =
    Done (Some \<lparr>ua_username = user, ua_service = service, ua_method = ascii ''password'', ua_password = password\<rparr>)"
proof -
  let ?p = "login_payload user service password"
  let ?a = "append_ssh_string [SSH2_MSG_USERAUTH_REQUEST] user"
  let ?b = "append_ssh_string ?a service"
  let ?c = "append_ssh_string ?b (ascii ''password'')"
  have l: "length (append_ssh_string q d) = length q + 4 + length d" for q d by (simp add: append_ssh_string_def)
  have k: "length (ascii ''password'') = 8" by (simp add: ascii_def)
  have e: "\<exists>r. append_ssh_string q d @ t = q @ r" for q d t by (simp add: append_ssh_string_def)
  have p: "?p = append_ssh_string (?c @ [0]) password @ []" by (simp add: login_payload_def)
  obtain r3 where p3: "?p = ?c @ 0 # r3" using e [of "?c @ [0]" password "[]"] p by auto
  obtain r2 where p2: "?p = ?b @ r2" using e [of ?b "ascii ''password''" "0 # r3"] p3 by auto
  obtain r1 where p1: "?p = ?a @ r1" using e [of ?a service r2] p2 by auto
  have 1: "read_ssh_string ?p 1 = Done (Some (user, length ?a))"
    using read_append [of "[SSH2_MSG_USERAUTH_REQUEST]" user r1] assms unfolding p1 by (simp add: l)
  have 2: "read_ssh_string ?p (length ?a) = Done (Some (service, length ?b))"
    using read_append [of ?a service r2] assms unfolding p2 by (simp add: l)
  have 3: "read_ssh_string ?p (length ?b) = Done (Some (ascii ''password'', length ?c))"
    using read_append [of ?b "ascii ''password''" "0 # r3"] assms unfolding p3 by (simp add: l k)
  have 4: "read_ssh_string ?p (length ?c + 1) = Done (Some (password, length ?c + 5 + length password))"
    using read_append [of "?c @ [0]" password "[]"] assms unfolding p by (simp add: l k)
  have "length ?c < length ?p" unfolding p3 by simp
  then show ?thesis unfolding parse_userauth_request_def 1 and_then_def outcome.case option.case prod.case 2 3 Let_def using 4 by simp
qed

section \<open>Properties\<close>

text \<open>
  C7. Channel requests are served only after a password check. No handler but that of the authentication brings a
  session to the state in which channel requests are served, and that one does so only with a request whose user and
  password the authentication service accepted; the terminal is then attached and its session authorised. In all
  other cases the sessions are left alone.
\<close>

theorem ssh_login_needs_password:
  assumes "m_state ss \<noteq> SESSION_STATE_CHANNEL_REQUEST"
  shows "m_state (snd (snd (handleVersionExchange E inp ss))) \<noteq> SESSION_STATE_CHANNEL_REQUEST \<and>
    (handleKeyExchange E inp ss = Done (out1, inp1, ss1) \<longrightarrow> m_state ss1 \<noteq> SESSION_STATE_CHANNEL_REQUEST) \<and>
    (handleAuthentication E V fs now client inp ss (m, a) = Done (out2, inp2, ss2, m2, a2) \<longrightarrow>
      (if m_state ss2 = SESSION_STATE_CHANNEL_REQUEST then checked_login V fs now client (m_sshpacket ss2) (m, a) (m2, a2) else m2 = m))"
proof (intro conjI impI)
  show "m_state (snd (snd (handleVersionExchange E inp ss))) \<noteq> SESSION_STATE_CHANNEL_REQUEST"
    using assms by (auto simp: handleVersionExchange_def Let_def split: prod.splits)
  show "m_state ss1 \<noteq> SESSION_STATE_CHANNEL_REQUEST" if "handleKeyExchange E inp ss = Done (out1, inp1, ss1)"
    using key_exchange_state [OF that] assms by auto
  show "if m_state ss2 = SESSION_STATE_CHANNEL_REQUEST then checked_login V fs now client (m_sshpacket ss2) (m, a) (m2, a2) else m2 = m"
    if "handleAuthentication E V fs now client inp ss (m, a) = Done (out2, inp2, ss2, m2, a2)"
    using userauth_state [OF assms that] .
qed

text \<open>
  C40. A login in clear. Right after the key exchange, before the new keys are taken into use, a password request that
  is not encrypted is served: with a valid password the answer is sent in clear, the session goes on to channel
  requests, and the keys and ciphers are those it had before, which no one has derived.
\<close>

theorem ssh_login_in_clear:
  assumes "m_state ss = SESSION_STATE_NEWKEYS_RECEIVED" "e_sent E"
    and "length user + length service + length password < 2 ^ 31" "1 < length user" "1 < length password"
    and "isAuthorized V fs (Some (c_text user)) (Some (c_text password)) a = (True, a1)"
  shows "\<exists>ss' m' a'. handleAuthentication E V fs now client (prepare_ssh_packet rnd 8 (login_payload user service password) @ rest) ss (m, a) =
      Done (prepare_ssh_packet (e_padding E) 8 [SSH2_MSG_USERAUTH_SUCCESS], rest, ss', m', a') \<and>
    m_state ss' = SESSION_STATE_CHANNEL_REQUEST \<and>
    (m', a') = setAuthorized V fs now True (snd (attach (Some client) m), a1) \<and>
    derived_mac_key_ctos ss' = derived_mac_key_ctos ss \<and> derived_mac_key_stoc ss' = derived_mac_key_stoc ss \<and>
    aes_ctx_ctos ss' = aes_ctx_ctos ss \<and> aes_ctx_stoc ss' = aes_ctx_stoc ss"
proof -
  let ?p = "login_payload user service password"
  have hd: "hd ?p = SSH2_MSG_USERAUTH_REQUEST" "?p \<noteq> []" by (simp_all add: login_payload_def append_ssh_string_def)
  have "length ?p = length user + length service + length password + 26" by (simp add: login_payload_def append_ssh_string_def ascii_def)
  then have ok: "payload_ok ?p" using assms(3) hd by (simp add: payload_ok_def)
  obtain m' a' where ma: "setAuthorized V fs now True (snd (attach (Some client) m), a1) = (m', a')" by fastforce
  show ?thesis
    using assms(1,2,4-6) hd ma
    by (simp add: handleAuthentication_def clear_round_trip [OF ok] parse_login_payload [OF assms(3)] send_server_ssh_packet_def Let_def)
qed

text \<open>A session after the key exchange, with a client that takes everything.\<close>

definition lucky_client :: ssh_env where
  "lucky_client = \<lparr>e_sent = True, e_timeout = False, e_cookie = (\<lambda>i. 0), e_padding = (\<lambda>i. 0), e_host_keys = None,
     e_keypair = (\<lambda>k. (k, k)), e_scalarmult = (\<lambda>k p. k), e_sign = (\<lambda>h p k. h)\<rparr>"

definition exchanged :: LWSSHSession where
  "exchanged = (ssh_session_new \<lparr>RoundKey = [], Iv = []\<rparr> \<lparr>RoundKey = [], Iv = []\<rparr>)\<lparr>m_state := SESSION_STATE_NEWKEYS_RECEIVED\<rparr>"

theorem ssh_login_needs_password_witness:
  "let inp = prepare_ssh_packet (\<lambda>i. 0) 8 [SSH2_MSG_USERAUTH_REQUEST, 0, 0]
   in \<exists>out inp' ss'. handleAuthentication lucky_client good_flash Map.empty 0 1 inp exchanged (sessions_start, admin) =
        Done (out, inp', ss', sessions_start, admin) \<and> m_state ss' = SESSION_STATE_NEWKEYS_RECEIVED"
proof -
  let ?inp = "prepare_ssh_packet (\<lambda>i. 0) 8 [SSH2_MSG_USERAUTH_REQUEST, 0, 0]"
  have s: "m_state exchanged \<noteq> SESSION_STATE_CHANNEL_REQUEST" "m_state exchanged = SESSION_STATE_NEWKEYS_RECEIVED" "e_sent lucky_client"
    by (simp_all add: exchanged_def lucky_client_def)
  have ok: "payload_ok [SSH2_MSG_USERAUTH_REQUEST, 0, 0]" by (simp add: payload_ok_def)
  have r: "parse_userauth_request [SSH2_MSG_USERAUTH_REQUEST, 0, 0] = Done None"
    by (simp add: parse_userauth_request_def read_ssh_string_def and_then_def)
  obtain out inp' ss' m' a' where h: "handleAuthentication lucky_client good_flash Map.empty 0 1 ?inp exchanged (sessions_start, admin) = Done (out, inp', ss', m', a')"
    "m_state ss' = SESSION_STATE_NEWKEYS_RECEIVED" "a' = admin"
    using s(2,3) clear_round_trip [OF ok, of "\<lambda>i. 0" "[]" exchanged]
    by (auto simp: handleAuthentication_def r send_server_ssh_packet_def Let_def)
  have "m' = sessions_start"
    using ssh_login_needs_password [OF s(1), of lucky_client ?inp "[]" "[]" exchanged good_flash Map.empty 0 1 sessions_start admin out inp' ss' m' a'] h(1,2)
    by simp
  then show ?thesis using h unfolding Let_def by blast
qed

theorem ssh_login_in_clear_witness:
  "\<exists>out ss' m' a'. handleAuthentication lucky_client good_flash Map.empty 0 1
      (prepare_ssh_packet (\<lambda>i. 0) 8 (login_payload (ascii ''pdiStack'') (ascii ''ssh-connection'') (ascii ''pdiStack@123''))) exchanged
      (sessions_start, admin) = Done (out, [], ss', m', a') \<and>
    m_state ss' = SESSION_STATE_CHANNEL_REQUEST \<and> derived_mac_key_ctos ss' = replicate 20 0"
proof -
  have s: "m_state exchanged = SESSION_STATE_NEWKEYS_RECEIVED" "e_sent lucky_client" "derived_mac_key_ctos exchanged = replicate 20 0"
    by (simp_all add: exchanged_def lucky_client_def ssh_session_new_def)
  have l: "length (ascii ''pdiStack'') + length (ascii ''ssh-connection'') + length (ascii ''pdiStack@123'') < 2 ^ 31"
    "1 < length (ascii ''pdiStack'')" "1 < length (ascii ''pdiStack@123'')" by (simp_all add: ascii_def)
  have t: "c_text (ascii ''pdiStack'') = ''pdiStack''" "c_text (ascii ''pdiStack@123'') = ''pdiStack@123''"
    by (simp_all add: c_text_ascii)
  obtain a1 where v: "isAuthorized good_flash Map.empty (Some (c_text (ascii ''pdiStack''))) (Some (c_text (ascii ''pdiStack@123''))) admin = (True, a1)"
    unfolding t by (simp add: isAuthorized_def admin_def are_str_equals_def)
  show ?thesis
    using ssh_login_in_clear [OF s(1,2) l v, of 0 1 "\<lambda>i. 0" "[]" sessions_start] s(3) by auto
qed

end
