(* ===== verification/Spec2Isabelle.thy ===== *)
theory Spec2Isabelle
  imports Prelude DataTypeConversions EpochCalendar RingBuf Proto TaskScheduler Mqtt_Msg TmpFs VfsDispatcher StringOperations FileSystemImpl
    HashStream Sha256 Sha1 Sha512 Aes UserStore Session RegexMatch Base64 ConfigDatabase SshPacket SshServer
begin

text \<open>
  \<^bold>\<open>Verification of the portable core of the pdi framework.\<close> The framework runs on small boards; this development models
  the parts of it that compute rather than drive hardware, and proves what they promise. Paths below are relative to
  \<^verbatim>\<open>src/\<close>.

  \<^bold>\<open>Conventions.\<close> Integers keep their width as words, so that wrap-around is that of the code. A C string is the list of
  its characters without the terminator, a nullable pointer is an \<open>option\<close>, an object on the wire or in flash is a list of
  bytes. State is passed explicitly; an error is the value the code returns. Where the code can leave a buffer or
  not return, the result type has a value for it. Code that is not part of the repository, and the clock, the network,
  random numbers and the terminal, are arguments. Signedness of \<^verbatim>\<open>char\<close> is an argument where it matters.

  \<^bold>\<open>Theories.\<close>
  \<^item> \<open>Prelude\<close>: names of the integer types, reference notation for numbers, the interfaces \<open>codec\<close> and \<open>fifo\<close>, lemmas on
    lists and words.
  \<^item> \<open>DataTypeConversions\<close>, \<open>EpochCalendar\<close>: \<^verbatim>\<open>src/utility/DataTypeConversions.cpp\<close>. Numbers, octal, hexadecimal and
    decimal text against the reference notation, both ways; the calendar arithmetic yields the Gregorian date.
  \<^item> \<open>RingBuf\<close>, \<open>Proto\<close>: \<^verbatim>\<open>src/utility/queue\<close>. The ring buffer implements \<open>fifo\<close>; the packet queue built from it by byte
    stuffing refines a list of packets.
  \<^item> \<open>TaskScheduler\<close>: \<^verbatim>\<open>src/utility/TaskScheduler.cpp\<close>. Registration, signals, the score order and the tick, with callbacks
    that may call the scheduler. Identifiers stay unique; a tick runs at most the selected task; a task can be kept waiting.
  \<^item> \<open>StringOperations\<close>, \<open>RegexMatch\<close>, \<open>Base64\<close>: \<^verbatim>\<open>src/utility\<close>. Searching, trimming, bounded formatting, addresses, JSON
    lookup; the backtracking matcher against the language of the pattern; the encoder against the standard encoding.
  \<^item> \<open>Mqtt_Msg\<close>: \<^verbatim>\<open>src/transports/mqtt/Mqtt_msg.cpp\<close>. Message builders and accessors; round trips and bounds.
  \<^item> \<open>TmpFs\<close>, \<open>FileSystemImpl\<close>, \<open>VfsDispatcher\<close>: \<^verbatim>\<open>src/interface/pdi/impl/modules/storage\<close>. The in-memory file system stays
    a tree; path notations are resolved; the dispatcher routes by longest prefix and checks permissions. Its backends are
    a parameter, constrained by the interfaces \<open>file_store\<close> and \<open>store_pair\<close>, which the in-memory file system satisfies.
  \<^item> \<open>HashStream\<close>, \<open>Sha256\<close>, \<open>Sha1\<close>, \<open>Sha512\<close>, \<open>Aes\<close>: \<^verbatim>\<open>src/utility/crypto\<close>. Hashing in pieces equals the padded digest of
    the whole message (\<open>stream_hash\<close>, interpreted for the three functions); the keyed hash; the block cipher, chaining and
    counter mode.
  \<^item> \<open>UserStore\<close>: \<^verbatim>\<open>src/service_provider/user/UserStoreService.cpp\<close> over the file operations of
    \<^verbatim>\<open>external/LittleFSWrapper.cpp\<close> it calls. Accounts and passwords in line oriented files (\<open>line_table\<close>, interpreted for
    both).
  \<^item> \<open>Session\<close>: \<^verbatim>\<open>src/service_provider/session\<close>, \<^verbatim>\<open>auth\<close> and the places that use them. The session table stays well-formed.
  \<^item> \<open>ConfigDatabase\<close>: \<^verbatim>\<open>src/utility/Database.cpp\<close>, \<^verbatim>\<open>src/database/core/DatabaseTable.h\<close> and the EEPROM emulation of
    \<^verbatim>\<open>devices/esp8266\<close>. Store and load, restart, and what is found after an interrupted commit.
  \<^item> \<open>SshPacket\<close>, \<open>SshServer\<close>: \<^verbatim>\<open>src/service_provider/shell/ssh\<close>. Wire formats, the encrypted channel built from the counter
    mode and the keyed hash, and the handlers up to the login.
  \<^item> This theory: from an account through a login to an access check, which spans \<open>UserStore\<close>, \<open>Session\<close> and
    \<open>VfsDispatcher\<close>.

  \<^bold>\<open>Bounds.\<close> The padding loop of SHA-1 has fuel 64, which is enough in every context; other loops are total. The
  loops over the configuration tables count with eight bits and have no result for 256 tables or more, which the limit
  on table instances excludes. Sizes of messages are below \<open>2 ^ 32\<close> where a statement says so, as the code keeps them in
  32 bits.

  \<^bold>\<open>Not modelled.\<close> The network stack, \<^verbatim>\<open>littlefs\<close> and the C++ library port are bundled third-party code, as are the elliptic
  curves, whose operations are fields of the environment in \<open>SshServer\<close>. Drivers of the boards, sockets (the clients of
  MQTT, HTTP and mail, the web server), terminal output and the line editor of the shell are input and output. Of the
  remote shell, channel and file transfer requests are left out. Printing of floating point numbers has no model; its text
  is an argument of the formatter.
\<close>

section \<open>From an account to an access check\<close>

text \<open>The identity the access checks use: user and group of the current session.\<close>

definition session_identity :: "session_mgr \<Rightarrow> identity" where
  "session_identity m = \<lparr>cur_uid = getCurrentUid m, cur_gid = getCurrentGid m\<rparr>"

text \<open>What a login with a valid password does to the current session.\<close>

lemma login_verified:
  assumes "sessions_wf m" "current m = Some i" "u \<noteq> []" "p \<noteq> []" "fst (isAuthorized E fs (Some u) (Some p) a)"
  shows "\<exists>m' a'. login_attempt E fs now u p (m, a) = (True, m', a') \<and> current m' = Some i \<and> getAuthorized m' \<and>
    getUsername (m', a') = u \<and> (\<forall>j. j \<noteq> i \<longrightarrow> m_sessions m' ! j = m_sessions m ! j) \<and>
    session_identity m' = (case findUserByName E (Some u) fs of
        Some r \<Rightarrow> \<lparr>cur_uid = u_uid r, cur_gid = u_gid r\<rparr> | None \<Rightarrow> \<lparr>cur_uid = 0, cur_gid = 0\<rparr>)"
proof -
  obtain a' where a': "isAuthorized E fs (Some u) (Some p) a = (True, a')"
    using assms(5) by (cases "isAuthorized E fs (Some u) (Some p) a") auto
  then have last: "m_lastVerifiedUsername a' = u" by (auto simp: isAuthorized_def Let_def split: if_splits)
  obtain s where s: "setAuthorized E fs now True (m, a') = (set_slot i s m, a')" "s_isAuthorized s" "s_username s = u"
    "s_state s = s_state (m_sessions m ! i)"
    "s_uid s = (case findUserByName E (Some u) fs of Some r \<Rightarrow> u_uid r | None \<Rightarrow> 0)"
    "s_gid s = (case findUserByName E (Some u) fs of Some r \<Rightarrow> u_gid r | None \<Rightarrow> 0)"
    using setAuthorized_current [OF assms(1,2), of E fs now a'] last assms(3) by auto
  have i: "i < PDI_MAX_SESSIONS" "active m i" using current_active [OF assms(1,2)] by blast+
  note n = slot_after(1) [OF assms(1) i(1), where s = s]
  have c: "current (set_slot i s m) = Some i"
    using slot_after(2) [OF assms(1) i(1)] current_wf [OF assms(1)] assms(2) s(4) i(2) by simp
  show ?thesis
    using assms(3,4) s n c
    by (intro exI [of _ "set_slot i s m"] exI [of _ a'])
       (simp add: login_attempt_def a' getAuthorized_def getUsername_def session_identity_def getCurrentUid_def getCurrentGid_def split: option.split)
qed

lemma write_denied:
  assumes "m_priv_depth v = 0" "cur_uid I \<noteq> 0" "vfs_getFileMeta B path blank_info v = (0, meta)"
    and "fi_uid meta \<noteq> cur_uid I" "fi_gid meta \<noteq> cur_gid I" "\<not> bit (fi_perms meta) 1"
  shows "vfs_writeFile B I path content n app v = (-1, v) \<and> vfs_deleteFile B I path v = (-1, v)"
proof -
  have "\<not> checkAccess B I path VFS_ACCESS_W v"
    using assms perm_bits [of VFS_ACCESS_W 0 "fi_perms meta"]
    by (auto simp: checkAccess_def isPrivileged_def Let_def intro!: exI [of _ 1])
  then show ?thesis by (simp add: vfs_writeFile_def vfs_deleteFile_def)
qed

text \<open>
  C5. From an account to a refused write. A user with a non-zero identifier is added, and a session logs in with the
  password: exactly then the session carries the identifiers of the account, other sessions are untouched, and writing
  to or deleting a file of somebody else without write permission for others is refused and changes nothing. A
  password with another digest is refused and leaves the sessions as they were.
\<close>

theorem account_login_access:
  assumes "reliable E USER_STORE_PASSWD_PATH" "reliable E USER_STORE_SHADOW_PATH"
    and "closed_at fs USER_STORE_PASSWD_PATH" "closed_at fs USER_STORE_SHADOW_PATH"
    and "record_ok r" "findUserByName E (Some (u_username r)) fs = None" "length salt = 8" "p \<noteq> []" "length p < 2 ^ 32"
    and "u_uid r \<noteq> 0" "sessions_wf m" "current m = Some i"
    and "m_priv_depth v = 0" "vfs_getFileMeta B path blank_info v = (0, meta)"
    and "fi_uid meta \<noteq> u_uid r" "fi_gid meta \<noteq> u_gid r" "\<not> bit (fi_perms meta) 1"
  shows "\<exists>fs' m' a'. addUser E salt r (Some p) fs = (True, fs') \<and>
    login_attempt E fs' now (u_username r) p (m, a) = (True, m', a') \<and>
    session_identity m' = \<lparr>cur_uid = u_uid r, cur_gid = u_gid r\<rparr> \<and>
    (\<forall>j. j \<noteq> i \<longrightarrow> m_sessions m' ! j = m_sessions m ! j) \<and>
    vfs_writeFile B (session_identity m') path content n app v = (-1, v) \<and>
    vfs_deleteFile B (session_identity m') path v = (-1, v) \<and>
    (\<forall>q. length q < 2 ^ 32 \<and> sha256_digest (salt @ bytes_of q) \<noteq> sha256_digest (salt @ bytes_of p) \<longrightarrow>
       login_attempt E fs' now (u_username r) q (m, a) = (False, m, a))"
proof -
  let ?u = "u_username r"
  obtain fs' where fs': "addUser E salt r (Some p) fs = (True, fs')" "findUserByName E (Some ?u) fs' = Some r"
    "fs' USER_STORE_SHADOW_PATH \<noteq> None"
    "\<And>q. length q < 2 ^ 32 \<Longrightarrow> verifyPassword E (Some ?u) (Some q) fs' \<longleftrightarrow> sha256_digest (salt @ bytes_of p) = sha256_digest (salt @ bytes_of q)"
    using addUser_stored [OF assms(1-9)] by blast
  have u: "?u \<noteq> []" using assms(5) by (simp add: record_ok_def)
  have "fst (isAuthorized E fs' (Some ?u) (Some p) a)" using fs'(3) fs'(4) [OF assms(9)] by (simp add: isAuthorized_def Let_def)
  from login_verified [OF assms(11,12) u assms(8) this, of now]
  obtain m' a' where l: "login_attempt E fs' now ?u p (m, a) = (True, m', a')"
    "session_identity m' = \<lparr>cur_uid = u_uid r, cur_gid = u_gid r\<rparr>" "\<forall>j. j \<noteq> i \<longrightarrow> m_sessions m' ! j = m_sessions m ! j"
    unfolding fs'(2) by auto
  have "login_attempt E fs' now ?u q (m, a) = (False, m, a)"
    if "length q < 2 ^ 32" "sha256_digest (salt @ bytes_of q) \<noteq> sha256_digest (salt @ bytes_of p)" for q
    using fs'(3) fs'(4) [OF that(1)] that(2) by (simp add: login_attempt_def isAuthorized_def Let_def)
  moreover have "vfs_writeFile B (session_identity m') path content n app v = (-1, v) \<and> vfs_deleteFile B (session_identity m') path v = (-1, v)"
    using write_denied [OF assms(13) _ assms(14)] assms(10,15-17) unfolding l(2) by simp
  ultimately show ?thesis using fs'(1) l by (intro exI [of _ fs'] exI [of _ m'] exI [of _ a']) simp
qed

text \<open>
  C34. A user whose password is stored but who has no line in the user table, as when an account is only partly
  removed, logs in as the administrator: the session gets the identifiers zero, and every access check passes.
\<close>

theorem login_without_account:
  assumes "sessions_wf m" "current m = Some i" "u \<noteq> []" "p \<noteq> []"
    and "fs USER_STORE_SHADOW_PATH \<noteq> None" "verifyPassword E (Some u) (Some p) fs" "findUserByName E (Some u) fs = None"
  shows "\<exists>m' a'. login_attempt E fs now u p (m, a) = (True, m', a') \<and> getUsername (m', a') = u \<and>
    session_identity m' = \<lparr>cur_uid = 0, cur_gid = 0\<rparr> \<and> checkAccess B (session_identity m') path need v"
proof -
  have "fst (isAuthorized E fs (Some u) (Some p) a)" using assms(5,6) by (simp add: isAuthorized_def Let_def)
  from login_verified [OF assms(1-4) this, of now] show ?thesis
    unfolding assms(7) by (auto simp: checkAccess_def)
qed

definition bob :: user_record_t where
  "bob = \<lparr>u_uid = 1000, u_gid = 100, u_username = ''bob'', u_home = ''/home/bob'', u_shell = ''cmd''\<rparr>"

definition one_terminal_table :: session_mgr where
  "one_terminal_table = snd (attach (Some 1) sessions_start)"

lemma one_terminal_table: "sessions_wf one_terminal_table" "current one_terminal_table = Some 0"
proof -
  show "sessions_wf one_terminal_table" unfolding one_terminal_table_def by (intro wf_attach sessions_start_wf)
  show "current one_terminal_table = Some 0" by code_simp
qed

theorem account_login_access_witness:
  "\<exists>fs' m' a'. addUser good_flash [1, 2, 3, 4, 5, 6, 7, 8] bob (Some ''pdi'') Map.empty = (True, fs') \<and>
     login_attempt good_flash fs' 0 ''bob'' ''pdi'' (one_terminal_table, admin) = (True, m', a') \<and> getCurrentUid m' = 1000 \<and>
     vfs_writeFile (\<lambda>b. tmpfs_ops witness_stamp) (session_identity m') (Some ''/d/f'') (Some ''x'') 1 False witness_vfs = (-1, witness_vfs)"
proof -
  have meta: "vfs_getFileMeta (\<lambda>b. tmpfs_ops witness_stamp) (Some ''/d/f'') blank_info witness_vfs = (0, blank_info\<lparr>fi_size := 2\<rparr>)"
    unfolding vfs_getFileMeta_def query_def witness_routes(1) by (simp, code_simp)
  have c: "closed_at Map.empty p" for p by (simp add: closed_at_def)
  have r: "record_ok bob" "findUserByName good_flash (Some (u_username bob)) Map.empty = None" "u_uid bob \<noteq> 0"
    by (simp_all add: bob_def record_ok_def field_ok_def no_users)
  have v: "m_priv_depth witness_vfs = 0" by (simp add: witness_vfs_def)
  note T = account_login_access [OF good_flash_reliable good_flash_reliable c c r(1,2) _ _ _ r(3) one_terminal_table v meta,
      of "[1, 2, 3, 4, 5, 6, 7, 8]" "''pdi''" 0 admin "Some ''x''" 1 False]
  have "u_username bob = ''bob''" "u_uid bob = 1000" "u_gid bob = 100" by (simp_all add: bob_def)
  then show ?thesis using T by (auto simp: blank_info_def session_identity_def)
qed

theorem login_without_account_witness:
  "\<exists>m' a'. login_attempt good_flash (snd (setPassword good_flash [1, 2, 3, 4, 5, 6, 7, 8] (Some ''bob'') (Some ''pdi'') Map.empty)) 0 ''bob'' ''pdi''
     (one_terminal_table, admin) = (True, m', a') \<and> session_identity m' = \<lparr>cur_uid = 0, cur_gid = 0\<rparr>"
proof -
  let ?set = "setPassword good_flash [1, 2, 3, 4, 5, 6, 7, 8] (Some ''bob'') (Some ''pdi'') Map.empty"
  have c: "closed_at Map.empty USER_STORE_SHADOW_PATH" and f: "field_ok ''bob''" by (simp_all add: closed_at_def field_ok_def)
  have v: "verifyPassword good_flash (Some ''bob'') (Some ''pdi'') (snd ?set)" and e: "snd ?set USER_STORE_PASSWD_PATH = None"
    using setPassword_stored [OF good_flash_reliable c _ f, of "[1, 2, 3, 4, 5, 6, 7, 8]" "''pdi''" "''pdi''"] by auto
  then have s: "snd ?set USER_STORE_SHADOW_PATH \<noteq> None"
    by (auto simp: verifyPassword_def readShadowRecord_def split: option.splits)
  have n: "findUserByName good_flash (Some ''bob'') (snd ?set) = None" using e by (simp add: findUserByName_def scanPasswdFile_def)
  show ?thesis using login_without_account [OF one_terminal_table _ _ s v n, of 0 admin "\<lambda>b. tmpfs_ops witness_stamp" "Some ''/d/f''" VFS_ACCESS_W witness_vfs] by auto
qed

end
